(* ===== verification/Prelude.thy ===== *)
theory Prelude
  imports Main "HOL-Library.AList" "HOL-Library.Word" "HOL-Library.Multiset"
begin

text \<open>
  Shared vocabulary of the development.

  The program is written in Go, so this theory fixes how the Go constructs the sources use
  are read in HOL: fixed-width integer arithmetic, panics, slices, maps, strings and buffered
  channels. Nothing in it is specific to distconf. The components import it and add their own
  records and operations.

  \<^item> A run-time panic is a value: an operation that may panic returns \<open>panic + 'a\<close>.
  \<^item> \<open>int64\<close> and \<open>int32\<close> are \<open>int\<close> with the wrap-around written out (\<open>wrap64\<close>, \<open>wrap32\<close>);
    \<open>wrap64_eq_sint\<close> shows that this is two's complement on 64-bit words.
  \<^item> A Go map is an association list with distinct keys (\<open>gomap_ok\<close>): lookup is \<open>map_of\<close>,
    assignment is \<open>AList.update\<close>, \<open>delete\<close> is \<open>AList.delete\<close> and \<open>range\<close> walks the list.
    Go leaves the iteration order open; what depends on it is stated up to reordering.
  \<^item> A buffered channel is a record with its buffer, capacity and closed flag.
\<close>

named_theorems go_simps \<open>evaluation rules of the Go constructs\<close>
named_theorems defs64 \<open>definitions of the fixed-width operations\<close>

subsection \<open>Panics\<close>

datatype panic =
    PanicSubLimit
  | PanicNilDeref
  | PanicIndexOutOfRange
  | PanicSliceBounds
  | PanicSendOnClosed
  | PanicCloseOfClosed
  | PanicCloseOfNil

type_synonym 'a go = "panic + 'a"

fun go_bind :: "'a go \<Rightarrow> ('a \<Rightarrow> 'b go) \<Rightarrow> 'b go" where
  "go_bind (Inl p) f = Inl p"
| "go_bind (Inr x) f = f x"

lemma go_bind_Inr_iff: "go_bind m f = Inr y \<longleftrightarrow> (\<exists>x. m = Inr x \<and> f x = Inr y)"
  by (cases m) auto

lemma go_bind_assoc: "go_bind (go_bind m f) g = go_bind m (\<lambda>x. go_bind (f x) g)"
  by (cases m) auto

lemma go_bind_Inr_right [simp]: "go_bind m Inr = m"
  by (cases m) auto

subsection \<open>Fixed-width integers\<close>

type_synonym int64 = int
type_synonym int32 = int

definition wrap64 :: "int \<Rightarrow> int64" where
  "wrap64 x = (x + 2 ^ 63) mod 2 ^ 64 - 2 ^ 63"

definition wrap32 :: "int \<Rightarrow> int32" where
  "wrap32 x = (x + 2 ^ 31) mod 2 ^ 32 - 2 ^ 31"

definition is_int64 :: "int \<Rightarrow> bool" where
  "is_int64 x \<longleftrightarrow> - (2 ^ 63) \<le> x \<and> x < 2 ^ 63"

definition add64 :: "int64 \<Rightarrow> int64 \<Rightarrow> int64" where
  [defs64]: "add64 a b = wrap64 (a + b)"

definition sub64 :: "int64 \<Rightarrow> int64 \<Rightarrow> int64" where
  [defs64]: "sub64 a b = wrap64 (a - b)"

definition mul64 :: "int64 \<Rightarrow> int64 \<Rightarrow> int64" where
  [defs64]: "mul64 a b = wrap64 (a * b)"

lemma wrap64_id: "is_int64 x \<Longrightarrow> wrap64 x = x"
  by (simp add: wrap64_def is_int64_def)

lemma wrap64_range: "is_int64 (wrap64 x)"
  by (simp add: wrap64_def is_int64_def)

lemma wrap64_idem [simp]: "wrap64 (wrap64 x) = wrap64 x"
  by (rule wrap64_id) (rule wrap64_range)

lemma wrap64_eq_sint: "wrap64 x = sint (word_of_int x :: 64 word)"
proof -
  have "sint (word_of_int x :: 64 word) = signed_take_bit 63 x"
    by (simp add: sint_sbintrunc')
  also have "\<dots> = take_bit (Suc 63) (x + 2 ^ 63) - 2 ^ 63"
    by (rule signed_take_bit_eq_take_bit_shift)
  also have "\<dots> = wrap64 x"
    by (simp add: wrap64_def take_bit_eq_mod)
  finally show ?thesis by simp
qed

lemma wrap32_id: "- (2 ^ 31) \<le> x \<Longrightarrow> x < 2 ^ 31 \<Longrightarrow> wrap32 x = x"
  by (simp add: wrap32_def)

text \<open>Go truncates integer division towards zero.\<close>

definition go_div :: "int \<Rightarrow> int \<Rightarrow> int" where
  "go_div a b = sgn a * sgn b * (\<bar>a\<bar> div \<bar>b\<bar>)"

definition go_mod :: "int \<Rightarrow> int \<Rightarrow> int" where
  "go_mod a b = a - go_div a b * b"

lemma go_div_nonneg: "0 \<le> a \<Longrightarrow> 0 < b \<Longrightarrow> go_div a b = a div b"
  by (cases "a = 0") (simp_all add: go_div_def sgn_if)

lemma go_mod_nonneg: "0 \<le> a \<Longrightarrow> 0 < b \<Longrightarrow> go_mod a b = a mod b"
  by (simp add: go_mod_def go_div_nonneg minus_div_mult_eq_mod)

subsection \<open>Slices\<close>

text \<open>\<open>xs[i]\<close> and \<open>xs[k:]\<close>, with the bounds checks of the language.\<close>

definition slice_at :: "'a list \<Rightarrow> int \<Rightarrow> 'a go" where
  "slice_at xs i = (if 0 \<le> i \<and> i < int (length xs) then Inr (xs ! nat i)
                    else Inl PanicIndexOutOfRange)"

definition slice_from :: "'a list \<Rightarrow> int \<Rightarrow> 'a list go" where
  "slice_from xs k = (if 0 \<le> k \<and> k \<le> int (length xs) then Inr (drop (nat k) xs)
                      else Inl PanicSliceBounds)"

lemma slice_at_ok: "0 \<le> i \<Longrightarrow> i < int (length xs) \<Longrightarrow> slice_at xs i = Inr (xs ! nat i)"
  by (simp add: slice_at_def)

lemma slice_from_ok: "0 \<le> k \<Longrightarrow> k \<le> int (length xs) \<Longrightarrow> slice_from xs k = Inr (drop (nat k) xs)"
  by (simp add: slice_from_def)

lemma slice_from_panics_iff: "slice_from xs k = Inl p \<longleftrightarrow>
    (k < 0 \<or> int (length xs) < k) \<and> p = PanicSliceBounds"
  by (auto simp: slice_from_def)

subsection \<open>Maps\<close>

type_synonym ('k, 'v) gomap = "('k \<times> 'v) list"

abbreviation gomap_ok :: "('k, 'v) gomap \<Rightarrow> bool" where
  "gomap_ok m \<equiv> distinct (map fst m)"

lemma gomap_set_iff: "gomap_ok m \<Longrightarrow> (k, v) \<in> set m \<longleftrightarrow> map_of m k = Some v"
  by (auto simp: map_of_eq_Some_iff)

lemma map_of_update [simp]: "map_of (AList.update k v m) = (map_of m)(k \<mapsto> v)"
  by (rule update_conv')

lemma map_of_AList_delete: "map_of (AList.delete k m) = (map_of m)(k := None)"
  by (rule delete_conv')

lemma gomap_ok_update [intro]: "gomap_ok m \<Longrightarrow> gomap_ok (AList.update k v m)"
  by (rule distinct_update)

lemma gomap_ok_delete [intro]: "gomap_ok m \<Longrightarrow> gomap_ok (AList.delete k m)"
  by (rule distinct_delete)

lemma in_set_delete_iff: "x \<in> set (AList.delete k m) \<longleftrightarrow> x \<in> set m \<and> fst x \<noteq> k"
  by (auto simp: AList.delete_eq)

lemma in_set_update_iff:
  "gomap_ok m \<Longrightarrow> x \<in> set (AList.update k v m) \<longleftrightarrow> x = (k, v) \<or> x \<in> set m \<and> fst x \<noteq> k"
proof (induction m)
  case Nil
  then show ?case by simp
next
  case (Cons p m)
  then show ?case
    by (cases p) (auto simp: image_iff)
qed

lemma map_of_eq_perm:
  assumes "gomap_ok m" and "mset m = mset m'"
  shows "map_of m = map_of m'"
proof -
  have "distinct (map fst m')"
    using assms by (metis mset_eq_imp_distinct_iff mset_map)
  moreover have "set m = set m'"
    using assms(2) by (metis set_mset_mset)
  ultimately show ?thesis
    using assms(1) by (intro map_of_inject_set [THEN iffD2]) auto
qed

subsection \<open>Buffered channels\<close>

record 'a chan =
  chBuf :: "'a list"
  chCap :: nat
  chClosed :: bool

definition make_chan :: "nat \<Rightarrow> 'a chan" where
  "make_chan n = \<lparr>chBuf = [], chCap = n, chClosed = False\<rparr>"

text \<open>
  \<open>select { case c <- x: ... default: ... }\<close>: the send happens if there is room, the default
  branch is taken if there is none (or the channel is nil), and a closed channel panics.
\<close>

datatype 'a send_outcome = Sent "'a chan" | WouldBlock | SendPanics panic

fun try_send :: "'a \<Rightarrow> 'a chan option \<Rightarrow> 'a send_outcome" where
  "try_send x None = WouldBlock"
| "try_send x (Some c) =
     (if chClosed c then SendPanics PanicSendOnClosed
      else if length (chBuf c) < chCap c then Sent (c\<lparr>chBuf := chBuf c @ [x]\<rparr>)
      else WouldBlock)"

fun close_chan :: "'a chan option \<Rightarrow> 'a chan go" where
  "close_chan None = Inl PanicCloseOfNil"
| "close_chan (Some c) = (if chClosed c then Inl PanicCloseOfClosed else Inr (c\<lparr>chClosed := True\<rparr>))"

text \<open>
  A receive that does not block: a buffered value is taken first, also from a closed channel;
  an empty closed channel reports the close, an empty open one has nothing to offer.
\<close>

datatype 'a recv_outcome = Received 'a "'a chan" | RecvClosed | RecvEmpty

definition try_recv :: "'a chan \<Rightarrow> 'a recv_outcome" where
  "try_recv c = (case chBuf c of x # xs \<Rightarrow> Received x (c\<lparr>chBuf := xs\<rparr>)
                 | [] \<Rightarrow> if chClosed c then RecvClosed else RecvEmpty)"

subsection \<open>Lists\<close>

text \<open>The last \<open>n\<close> elements.\<close>

definition last_n :: "nat \<Rightarrow> 'a list \<Rightarrow> 'a list" where
  "last_n n xs = drop (length xs - n) xs"

lemma last_n_short: "length xs \<le> n \<Longrightarrow> last_n n xs = xs"
  by (simp add: last_n_def)

lemma length_last_n [simp]: "length (last_n n xs) = min n (length xs)"
  by (auto simp: last_n_def)

lemma last_n_absorb: "last_n n (last_n n xs @ ys) = last_n n (xs @ ys)"
proof (cases "length xs \<le> n")
  case True
  then show ?thesis by (simp add: last_n_short)
next
  case False
  then have "length xs + length ys - n = (length xs - n) + length ys" by simp
  with False show ?thesis by (simp add: last_n_def add.commute)
qed

lemma last_n_suffix: "\<exists>ys. xs = ys @ last_n n xs"
  by (metis append_take_drop_id last_n_def)

lemma filter_sorted_split:
  assumes "sorted (map f (xs @ ys))" and "\<forall>y\<in>set ys. c < f y" and "\<forall>x\<in>set xs. f x \<le> (c::'b::linorder)"
  shows "filter (\<lambda>x. c < f x) (xs @ ys) = ys"
proof -
  have "filter (\<lambda>x. c < f x) xs = []"
    using assms(3) by (auto simp: filter_empty_conv)
  moreover have "filter (\<lambda>x. c < f x) ys = ys"
    using assms(2) by simp
  ultimately show ?thesis by simp
qed

end
