(* ===== verification/Messages.thy ===== *)
theory Messages
  imports Prelude
begin

text \<open>
  The wire messages of \<open>api/distconf/v1/distconf.pb.go\<close>, one record or datatype per message
  with the fields of the generated struct. The bookkeeping fields of the protobuf runtime
  (\<open>state\<close>, \<open>unknownFields\<close>, \<open>sizeCache\<close>) carry no information and are left out.

  A field that is a pointer to a message and that the code leaves nil, or that may be absent
  on the wire, is an \<open>option\<close>. A \<open>oneof\<close> is a datatype under \<open>option\<close>: None is "not set".
  \<open>string\<close> and \<open>[]byte\<close> are byte strings.
\<close>

type_synonym bytes = string

subsection \<open>Values, events and instances\<close>

datatype WatchEvent_Kind = KIND_UNSPECIFIED | PUT | DELETE | EXPIRED

record KeyValue =
  kvNamespace :: string
  kvKey :: string
  kvValue :: bytes
  kvVersion :: int64
  kvRevision :: int64
  kvTtlMs :: int64
  kvExpireAtMs :: int64

record WatchEvent =
  weKind :: WatchEvent_Kind
  weKv :: KeyValue
  weRevision :: int64
  weClusterRevision :: int64

record Instance =
  inNamespace :: string
  inService :: string
  inInstanceId :: string
  inAddress :: string
  inMetadata :: "(string, string) gomap"
  inLeaseTtlMs :: int64
  inExpireAtMs :: int64
  inRevision :: int64

subsection \<open>Operations of the replicated log\<close>

record PutOp =
  poNamespace :: string
  poKey :: string
  poValue :: bytes
  poTtlMs :: int64
  poExpireAtMs :: int64
  poExpectedVersion :: int64

record DeleteOp =
  doNamespace :: string
  doKey :: string
  doExpectedVersion :: int64

record RegisterOp =
  roNamespace :: string
  roService :: string
  roInstanceId :: string
  roAddress :: string
  roMetadata :: "(string, string) gomap"
  roLeaseTtlMs :: int64
  roExpireAtMs :: int64

record HeartbeatOp =
  hoNamespace :: string
  hoService :: string
  hoInstanceId :: string
  hoGuardRevision :: int64
  hoNewExpireAtMs :: int64

record ExpireKey =
  ekNamespace :: string
  ekKey :: string
  ekGuardRevision :: int64

record ExpireService =
  esNamespace :: string
  esService :: string
  esInstanceId :: string
  esGuardRevision :: int64

datatype LogEntry_Op =
    LogEntry_Put PutOp
  | LogEntry_Delete DeleteOp
  | LogEntry_Register RegisterOp
  | LogEntry_Heartbeat HeartbeatOp
  | LogEntry_ExpireKeys "ExpireKey list"
  | LogEntry_ExpireServices "ExpireService list"

record LogEntry =
  leIndex :: int64
  leTerm :: int64
  leOp :: "LogEntry_Op option"

subsection \<open>Snapshots and the replication stream\<close>

record KVRecord =
  recKv :: "KeyValue option"

record InstanceRecord =
  recInstance :: "Instance option"

record PbSnapshot =
  snLastIncludedIndex :: int64
  snTerm :: int64
  snKvs :: "KVRecord list"
  snInstances :: "InstanceRecord list"

datatype AppendEntriesRequest_Payload =
    AppendEntriesRequest_Snapshot PbSnapshot
  | AppendEntriesRequest_Entry LogEntry

record AppendEntriesRequest =
  aePayload :: "AppendEntriesRequest_Payload option"

record AppendEntriesResponse =
  arFollowerId :: int32
  arAckIndex :: int64
  arSuccess :: bool

subsection \<open>Requests and responses of the client services\<close>

record GetRequest =
  grNamespace :: string
  grKey :: string

record GetResponse =
  gsFound :: bool
  gsKv :: "KeyValue option"
  gsAppliedRevision :: int64
  gsLeaderId :: int32

record PutRequest =
  prNamespace :: string
  prKey :: string
  prValue :: bytes
  prTtlMs :: int64
  prExpectedVersion :: int64

record PutResponse =
  psKv :: "KeyValue option"
  psLeaderId :: int32

record DeleteRequest =
  drNamespace :: string
  drKey :: string
  drExpectedVersion :: int64

record DeleteResponse =
  dsFound :: bool
  dsRevision :: int64
  dsLeaderId :: int32

record WatchRequest =
  wrNamespace :: string
  wrKey :: string
  wrFromRevision :: int64

record RegisterRequest =
  rrNamespace :: string
  rrService :: string
  rrInstanceId :: string
  rrAddress :: string
  rrMetadata :: "(string, string) gomap"
  rrLeaseTtlMs :: int64

record RegisterResponse =
  rsInstance :: "Instance option"
  rsLeaderId :: int32

record HeartbeatRequest =
  hrNamespace :: string
  hrService :: string
  hrInstanceId :: string

record HeartbeatResponse =
  hsInstance :: "Instance option"
  hsLeaderId :: int32

record DiscoverRequest =
  diNamespace :: string
  diService :: string
  diWatch :: bool

record DiscoverResponse =
  dpInstances :: "Instance list"
  dpIncremental :: bool
  dpAdded :: "Instance list"
  dpRemoved :: "Instance list"
  dpAppliedRevision :: int64

record Node =
  nodeId :: int32
  nodeAddress :: string

record InfoResponse =
  irNodeId :: int32
  irIsLeader :: bool
  irLeaderId :: int32
  irCommittedRevision :: int64
  irAppliedRevision :: int64
  irNodes :: "Node list"

text \<open>The numbers of the event kinds, as the generated constants give them.\<close>

fun WatchEvent_Kind_number :: "WatchEvent_Kind \<Rightarrow> int32" where
  "WatchEvent_Kind_number KIND_UNSPECIFIED = 0"
| "WatchEvent_Kind_number PUT = 1"
| "WatchEvent_Kind_number DELETE = 2"
| "WatchEvent_Kind_number EXPIRED = 3"

lemma WatchEvent_Kind_number_inject:
  "WatchEvent_Kind_number a = WatchEvent_Kind_number b \<longleftrightarrow> a = b"
  by (cases a; cases b) simp_all

instantiation WatchEvent_Kind :: linorder
begin

definition less_eq_WatchEvent_Kind where
  "less_eq_WatchEvent_Kind a b \<longleftrightarrow> WatchEvent_Kind_number a \<le> WatchEvent_Kind_number b"

definition less_WatchEvent_Kind where
  "less_WatchEvent_Kind a b \<longleftrightarrow> WatchEvent_Kind_number a < WatchEvent_Kind_number b"

instance
  by standard
    (auto simp: less_eq_WatchEvent_Kind_def less_WatchEvent_Kind_def WatchEvent_Kind_number_inject)

end

end
