(* ===== verification/StoreState.thy ===== *)
theory StoreState
  imports Messages
begin

text \<open>
  The state of the deterministic state machine (\<open>internal/store/store.go\<close>), its errors
  (\<open>errors.go\<close>) and the pure helpers of \<open>helpers.go\<close>: conversions to messages, deep
  copies and the compare-and-set test.

  \<open>Store\<close> has the fields of the Go struct. The mutex needs no model: every operation below is
  one critical section. \<open>nowMs\<close> is the time source, so an operation that reads the clock takes
  the reading as an argument. The array \<open>history\<close> of event pointers is a partial function from
  indices. Channels are reached through the watcher and by the goroutine that receives from
  them, so they live in a heap (\<open>kvChans\<close>, \<open>svcChans\<close>) and a watcher holds the address.
\<close>

subsection \<open>Constants and errors\<close>

definition historyCapacity :: nat where "historyCapacity = 100000"

definition subLimit :: int64 where "subLimit = 4096"

definition watcherBuffer :: nat where "watcherBuffer = 256"

datatype store_error = ErrCASConflict | ErrInstanceNotFound | ErrRevisionCompacted

lemma historyCapacity_pos [simp]: "0 < historyCapacity"
  by (simp add: historyCapacity_def)

subsection \<open>State\<close>

record kvEntry =
  keValue :: bytes
  keVersion :: int64
  keRevision :: int64
  keTtlMs :: int64
  keExpireAtMs :: int64

record instEntry =
  ieAddress :: string
  ieMetadata :: "(string, string) gomap"
  ieLeaseTtlMs :: int64
  ieExpireAtMs :: int64
  ieRevision :: int64

record Event =
  evSeq :: int64
  evKind :: WatchEvent_Kind
  evKV :: KeyValue

type_synonym mapKey = "string \<times> string"
type_synonym svcKey = "string \<times> string \<times> string"
type_synonym chan_ref = int64

record ServiceChange =
  scAdded :: "Instance list"
  scRemoved :: "Instance list"

record kvWatcher =
  kwNs :: string
  kwKey :: string
  kwCh :: chan_ref

record svcWatcher =
  swNs :: string
  swService :: string
  swCh :: chan_ref

record Store =
  kvs :: "(mapKey, kvEntry) gomap"
  instances :: "(svcKey, instEntry) gomap"
  rev :: int64
  sub :: int
  history :: "nat \<rightharpoonup> Event"
  head :: nat
  count :: nat
  baselineSeq :: int64
  kvWatchers :: "(int64, kvWatcher) gomap"
  svcWatchers :: "(int64, svcWatcher) gomap"
  watcherSeq :: int64
  kvChans :: "chan_ref \<rightharpoonup> WatchEvent chan"
  svcChans :: "chan_ref \<rightharpoonup> ServiceChange chan"

definition New :: Store where
  "New = \<lparr>kvs = [], instances = [], rev = 0, sub = 0, history = Map.empty, head = 0, count = 0,
     baselineSeq = 0, kvWatchers = [], svcWatchers = [], watcherSeq = 0,
     kvChans = Map.empty, svcChans = Map.empty\<rparr>"

subsection \<open>Helpers\<close>

definition cloneMap :: "(string, string) gomap \<Rightarrow> (string, string) gomap" where
  "cloneMap m = (if length m = 0 then [] else fold (\<lambda>(k, v) out. AList.update k v out) m [])"

definition kvToPB :: "string \<Rightarrow> string \<Rightarrow> kvEntry \<Rightarrow> KeyValue" where
  "kvToPB ns key e = \<lparr>kvNamespace = ns, kvKey = key, kvValue = keValue e,
     kvVersion = keVersion e, kvRevision = keRevision e, kvTtlMs = keTtlMs e,
     kvExpireAtMs = keExpireAtMs e\<rparr>"

definition instToPB :: "string \<Rightarrow> string \<Rightarrow> string \<Rightarrow> instEntry \<Rightarrow> Instance" where
  "instToPB ns service iid e = \<lparr>inNamespace = ns, inService = service, inInstanceId = iid,
     inAddress = ieAddress e, inMetadata = cloneMap (ieMetadata e),
     inLeaseTtlMs = ieLeaseTtlMs e, inExpireAtMs = ieExpireAtMs e, inRevision = ieRevision e\<rparr>"

definition cloneKV :: "KeyValue \<Rightarrow> KeyValue" where
  "cloneKV kv = \<lparr>kvNamespace = kvNamespace kv, kvKey = kvKey kv, kvValue = kvValue kv,
     kvVersion = kvVersion kv, kvRevision = kvRevision kv, kvTtlMs = kvTtlMs kv,
     kvExpireAtMs = kvExpireAtMs kv\<rparr>"

definition cloneInstance :: "Instance \<Rightarrow> Instance" where
  "cloneInstance i = \<lparr>inNamespace = inNamespace i, inService = inService i,
     inInstanceId = inInstanceId i, inAddress = inAddress i,
     inMetadata = cloneMap (inMetadata i), inLeaseTtlMs = inLeaseTtlMs i,
     inExpireAtMs = inExpireAtMs i, inRevision = inRevision i\<rparr>"

text \<open>\<open>cloneKV(nil)\<close> and \<open>cloneInstance(nil)\<close> are nil: \<open>map_option\<close> of the above.\<close>

definition aliveKV :: "int64 \<Rightarrow> kvEntry \<Rightarrow> bool" where
  "aliveKV now e \<longleftrightarrow> keExpireAtMs e = 0 \<or> keExpireAtMs e > now"

definition instAlive :: "int64 \<Rightarrow> instEntry \<Rightarrow> bool" where
  "instAlive now e \<longleftrightarrow> ieExpireAtMs e = 0 \<or> ieExpireAtMs e > now"

definition curVersion :: "kvEntry option \<Rightarrow> int64" where
  "curVersion e = (case e of None \<Rightarrow> 0 | Some e \<Rightarrow> keVersion e)"

definition checkVersion :: "int64 \<Rightarrow> bool \<Rightarrow> int64 \<Rightarrow> store_error option" where
  "checkVersion expected exists current =
    (if expected = -1 then None
     else if expected = 0 \<and> exists then Some ErrCASConflict
     else if expected > 0 \<and> (\<not> exists \<or> current \<noteq> expected) then Some ErrCASConflict
     else None)"

definition EventSeq :: "int64 \<Rightarrow> int64" where
  "EventSeq logIndex = mul64 logIndex subLimit"

definition AppliedRevision :: "Store \<Rightarrow> int64" where
  "AppliedRevision s = rev s"

subsection \<open>Facts about the helpers\<close>

lemma cloneKV_id [simp]: "cloneKV kv = kv"
  by (simp add: cloneKV_def)

lemma fold_update_fresh:
  "distinct (map fst (acc @ m)) \<Longrightarrow> fold (\<lambda>(k, v) out. AList.update k v out) m acc = acc @ m"
proof (induction m arbitrary: acc)
  case Nil
  then show ?case by simp
next
  case (Cons p m)
  obtain k v where p: "p = (k, v)" by (cases p)
  have "k \<notin> fst ` set acc"
    using Cons.prems p by auto
  then have "AList.update k v acc = acc @ [(k, v)]"
    by (induction acc) auto
  with Cons p show ?case by simp
qed

lemma cloneMap_id: "gomap_ok m \<Longrightarrow> cloneMap m = m"
  using fold_update_fresh [of "[]" m] by (simp add: cloneMap_def)

lemma gomap_ok_fold_update: "gomap_ok acc \<Longrightarrow> gomap_ok (fold (\<lambda>(k, v) out. AList.update k v out) m acc)"
  by (induction m arbitrary: acc) (auto intro: distinct_update)

lemma gomap_ok_cloneMap [simp]: "gomap_ok (cloneMap m)"
  by (simp add: cloneMap_def gomap_ok_fold_update)

lemma cloneMap_idem [simp]: "cloneMap (cloneMap m) = cloneMap m"
  by (rule cloneMap_id) simp

lemma checkVersion_cases:
  "checkVersion expected exists current = None \<longleftrightarrow>
     expected < 0 \<or> expected = 0 \<and> \<not> exists \<or> expected > 0 \<and> exists \<and> current = expected"
  by (auto simp: checkVersion_def)

lemma checkVersion_error: "checkVersion expected exists current = Some e \<Longrightarrow> e = ErrCASConflict"
  by (auto simp: checkVersion_def split: if_splits)

end
