(* ===== verification/History.thy ===== *)
theory History
  imports StoreState
begin

text \<open>
  The event history ring of \<open>store.go\<close> (\<open>appendEventLocked\<close>, \<open>oldestSeq\<close>,
  \<open>CurrentEventSeq\<close>, \<open>matchKV\<close>).

  The abstract view of the ring is the list of retained events, oldest first (\<open>hist_list\<close>).
  The interface \<open>bounded_log\<close> says what the rest of the store relies on: appending keeps the
  last \<open>cap\<close> events. The ring is shown to provide it.
\<close>

subsection \<open>Interface: a log that keeps the last entries\<close>

locale bounded_log =
  fixes ok :: "'s \<Rightarrow> bool"
    and append :: "'e \<Rightarrow> 's \<Rightarrow> 's"
    and toList :: "'s \<Rightarrow> 'e list"
    and cap :: nat
  assumes cap_pos: "0 < cap"
    and ok_append: "ok s \<Longrightarrow> ok (append e s)"
    and toList_append: "ok s \<Longrightarrow> toList (append e s) = last_n cap (toList s @ [e])"
    and length_toList: "ok s \<Longrightarrow> length (toList s) \<le> cap"
begin

lemma ok_fold: "ok s \<Longrightarrow> ok (fold append es s)"
  by (induction es arbitrary: s) (auto intro: ok_append)

lemma toList_fold: "ok s \<Longrightarrow> toList (fold append es s) = last_n cap (toList s @ es)"
proof (induction es arbitrary: s)
  case Nil
  then show ?case by (simp add: last_n_short length_toList)
next
  case (Cons e es)
  then show ?case
    using last_n_absorb [of cap "toList s @ [e]" es] by (simp add: ok_append toList_append)
qed

lemma retained_suffix: "ok s \<Longrightarrow> \<exists>lost. toList s @ es = lost @ toList (fold append es s)"
  using last_n_suffix [of "toList s @ es" cap] by (simp add: toList_fold)

lemma nothing_lost_below_cap:
  "ok s \<Longrightarrow> length (toList s) + length es \<le> cap \<Longrightarrow> toList (fold append es s) = toList s @ es"
  by (simp add: toList_fold last_n_short)

end

subsection \<open>The ring\<close>

definition ring_list :: "(nat \<rightharpoonup> Event) \<Rightarrow> nat \<Rightarrow> nat \<Rightarrow> Event list" where
  "ring_list h b n = map (\<lambda>i. the (h ((b + i) mod historyCapacity))) [0..<n]"

definition ring_ok :: "(nat \<rightharpoonup> Event) \<Rightarrow> nat \<Rightarrow> nat \<Rightarrow> bool" where
  "ring_ok h b n \<longleftrightarrow> b < historyCapacity \<and> n \<le> historyCapacity \<and>
     (\<forall>i<n. h ((b + i) mod historyCapacity) \<noteq> None)"

abbreviation hist_list :: "Store \<Rightarrow> Event list" where
  "hist_list s \<equiv> ring_list (history s) (head s) (count s)"

abbreviation hist_ok :: "Store \<Rightarrow> bool" where
  "hist_ok s \<equiv> ring_ok (history s) (head s) (count s)"

definition appendEventLocked :: "Event \<Rightarrow> Store \<Rightarrow> Store" where
  "appendEventLocked ev s =
    (if count s < historyCapacity
     then s\<lparr>history := (history s)((head s + count s) mod historyCapacity \<mapsto> ev),
            count := count s + 1\<rparr>
     else s\<lparr>history := (history s)(head s \<mapsto> ev),
            head := (head s + 1) mod historyCapacity\<rparr>)"

definition oldestSeq :: "Store \<Rightarrow> int64 go" where
  "oldestSeq s = (if count s = 0 then Inr 0
     else case history s (head s) of None \<Rightarrow> Inl PanicNilDeref | Some e \<Rightarrow> Inr (evSeq e))"

definition CurrentEventSeq :: "Store \<Rightarrow> int64 go" where
  "CurrentEventSeq s = (if count s > 0
     then (case history s ((head s + count s - 1) mod historyCapacity) of
             None \<Rightarrow> Inl PanicNilDeref | Some e \<Rightarrow> Inr (evSeq e))
     else Inr (baselineSeq s))"

definition matchKV :: "string \<Rightarrow> string \<Rightarrow> Event \<Rightarrow> bool" where
  "matchKV ns key ev =
    (if kvNamespace (evKV ev) \<noteq> ns then False else key = '''' \<or> kvKey (evKV ev) = key)"

lemma length_ring_list [simp]: "length (ring_list h b n) = n"
  by (simp add: ring_list_def)

lemma ring_list_nth: "i < n \<Longrightarrow> ring_list h b n ! i = the (h ((b + i) mod historyCapacity))"
  by (simp add: ring_list_def)

lemma ring_list_Nil_iff [simp]: "ring_list h b n = [] \<longleftrightarrow> n = 0"
  by (simp add: ring_list_def)

lemma ring_list_0 [simp]: "ring_list h b 0 = []"
  by (simp add: ring_list_def)

text \<open>Two positions less than a full turn apart are different cells.\<close>

lemma ring_index_inj_le:
  assumes "(a + i) mod m = (a + j) mod m" and "i \<le> j" and "j < (m::nat)"
  shows "i = j"
proof -
  have "m dvd (a + j) - (a + i)"
    using assms(1,2) by (metis add_le_mono1 add.commute mod_eq_dvd_iff_nat)
  then have "m dvd j - i" by simp
  moreover have "j - i < m" using assms(3) by simp
  ultimately have "j - i = 0"
    by (metis dvd_imp_le gr_zeroI leD)
  with assms(2) show ?thesis by simp
qed

lemma ring_index_inj:
  assumes "(a + i) mod m = (a + j) mod m" and "i < m" and "j < (m::nat)"
  shows "i = j"
  using ring_index_inj_le [of a i m j] ring_index_inj_le [of a j m i] assms
  by (cases "i \<le> j") auto

lemma ring_ok_New [simp]: "ring_ok Map.empty 0 0"
  by (simp add: ring_ok_def)

lemma ring_list_room:
  assumes "n < historyCapacity"
  shows "ring_list (h((b + n) mod historyCapacity \<mapsto> ev)) b (Suc n) = ring_list h b n @ [ev]"
proof (rule nth_equalityI)
  fix i assume "i < length (ring_list (h((b + n) mod historyCapacity \<mapsto> ev)) b (Suc n))"
  then have i: "i < Suc n" by simp
  show "ring_list (h((b + n) mod historyCapacity \<mapsto> ev)) b (Suc n) ! i
      = (ring_list h b n @ [ev]) ! i"
  proof (cases "i = n")
    case True
    then show ?thesis by (simp add: ring_list_nth nth_append)
  next
    case False
    then have "(b + i) mod historyCapacity \<noteq> (b + n) mod historyCapacity"
      using i assms ring_index_inj [of b i historyCapacity n] by auto
    with False i show ?thesis by (simp add: ring_list_nth nth_append)
  qed
qed simp

lemma ring_list_full:
  assumes "n = historyCapacity" and "b < historyCapacity"
  shows "ring_list (h(b \<mapsto> ev)) ((b + 1) mod historyCapacity) n = tl (ring_list h b n) @ [ev]"
proof (rule nth_equalityI)
  show "length (ring_list (h(b \<mapsto> ev)) ((b + 1) mod historyCapacity) n)
      = length (tl (ring_list h b n) @ [ev])"
    using assms by (simp add: Suc_leI)
next
  fix i assume "i < length (ring_list (h(b \<mapsto> ev)) ((b + 1) mod historyCapacity) n)"
  then have i: "i < n" by simp
  have idx: "(Suc b mod historyCapacity + i) mod historyCapacity = Suc (b + i) mod historyCapacity"
    by (simp add: mod_add_left_eq)
  show "ring_list (h(b \<mapsto> ev)) ((b + 1) mod historyCapacity) n ! i
      = (tl (ring_list h b n) @ [ev]) ! i"
  proof (cases "Suc i = n")
    case True
    with assms have "Suc (b + i) = b + historyCapacity" by simp
    then have "Suc (b + i) mod historyCapacity = b"
      by (simp only: mod_add_self2) (simp add: assms)
    with True i show ?thesis by (simp add: ring_list_nth nth_append idx)
  next
    case False
    then have "(b + Suc i) mod historyCapacity \<noteq> b"
      using i assms ring_index_inj [of b "Suc i" historyCapacity 0] by auto
    moreover have "(tl (ring_list h b n) @ [ev]) ! i = ring_list h b n ! Suc i"
      using False i by (simp add: nth_append nth_tl)
    ultimately show ?thesis using False i by (simp add: ring_list_nth idx)
  qed
qed

lemma hist_list_append:
  assumes "hist_ok s"
  shows "hist_list (appendEventLocked ev s) = last_n historyCapacity (hist_list s @ [ev])"
proof (cases "count s < historyCapacity")
  case True
  then show ?thesis
    using ring_list_room [OF True, of "history s" "head s" ev]
    by (simp add: appendEventLocked_def last_n_short)
next
  case False
  with assms have full: "count s = historyCapacity" "head s < historyCapacity"
    by (auto simp: ring_ok_def)
  have "last_n historyCapacity (hist_list s @ [ev]) = tl (hist_list s) @ [ev]"
    using full length_ring_list [of "history s" "head s" "count s"]
    by (cases "hist_list s") (auto simp: last_n_def simp del: length_ring_list)
  with ring_list_full [OF full, of "history s" ev] False show ?thesis
    by (simp add: appendEventLocked_def)
qed

lemma hist_ok_append:
  assumes "hist_ok s"
  shows "hist_ok (appendEventLocked ev s)"
proof (cases "count s < historyCapacity")
  case True
  with assms show ?thesis
    by (auto simp: appendEventLocked_def ring_ok_def less_Suc_eq)
next
  case False
  with assms have full: "count s = historyCapacity" "head s < historyCapacity"
    by (auto simp: ring_ok_def)
  have "((history s)(head s \<mapsto> ev)) (((head s + 1) mod historyCapacity + i) mod historyCapacity) \<noteq> None"
    if i: "i < historyCapacity" for i
  proof -
    let ?k = "((head s + 1) mod historyCapacity + i) mod historyCapacity"
    have k: "?k = (head s + Suc i) mod historyCapacity"
      by (simp add: mod_add_left_eq)
    show ?thesis
    proof (cases "Suc i = historyCapacity")
      case True
      then have "?k = head s" using full k by simp
      then show ?thesis by simp
    next
      case False
      with i have "Suc i < count s" using full by simp
      with assms have "history s ((head s + Suc i) mod historyCapacity) \<noteq> None"
        unfolding ring_ok_def by blast
      then have "history s ?k \<noteq> None" by (simp only: k not_False_eq_True)
      then show ?thesis by auto
    qed
  qed
  with False full show ?thesis
    by (simp add: appendEventLocked_def ring_ok_def)
qed

lemma appendEventLocked_frame [simp]:
  "kvs (appendEventLocked ev s) = kvs s"
  "instances (appendEventLocked ev s) = instances s"
  "rev (appendEventLocked ev s) = rev s"
  "sub (appendEventLocked ev s) = sub s"
  "baselineSeq (appendEventLocked ev s) = baselineSeq s"
  "kvWatchers (appendEventLocked ev s) = kvWatchers s"
  "svcWatchers (appendEventLocked ev s) = svcWatchers s"
  "watcherSeq (appendEventLocked ev s) = watcherSeq s"
  "kvChans (appendEventLocked ev s) = kvChans s"
  "svcChans (appendEventLocked ev s) = svcChans s"
  by (simp_all add: appendEventLocked_def)

lemma hist_ok_count: "hist_ok s \<Longrightarrow> count s \<le> historyCapacity"
  by (simp add: ring_ok_def)

interpretation ring: bounded_log hist_ok appendEventLocked hist_list historyCapacity
  by unfold_locales (simp_all add: hist_ok_append hist_list_append hist_ok_count)

lemma oldestSeq_ok:
  "hist_ok s \<Longrightarrow> oldestSeq s = Inr (if count s = 0 then 0 else evSeq (hist_list s ! 0))"
  by (auto simp: oldestSeq_def ring_list_nth ring_ok_def split: option.splits)

lemma CurrentEventSeq_ok:
  assumes "hist_ok s"
  shows "CurrentEventSeq s =
    Inr (if hist_list s = [] then baselineSeq s else evSeq (last (hist_list s)))"
proof (cases "count s = 0")
  case True
  then show ?thesis by (simp add: CurrentEventSeq_def)
next
  case False
  then have idx: "head s + count s - 1 = head s + (count s - 1)" by simp
  from False have "count s - 1 < count s" by simp
  with assms have "history s ((head s + (count s - 1)) mod historyCapacity) \<noteq> None"
    unfolding ring_ok_def by blast
  with False show ?thesis
    by (auto simp: CurrentEventSeq_def idx ring_list_nth last_conv_nth)
qed

end
