(* ===== verification/Subscribers.thy ===== *)
theory Subscribers
  imports StoreState
begin

text \<open>
  The subscriber tables of the store. KV watchers and service watchers are kept the same way:
  a map from ids to watchers, one buffered channel each, and a fan-out loop that sends without
  blocking and drops a consumer whose buffer is full (the \<open>select\<close> of \<open>fanoutKVLocked\<close> and
  \<open>fanoutSvcLocked\<close> in \<open>store.go\<close>). This theory has that loop once, over the table and the
  channel heap, with the message for a watcher (None to skip it) as a parameter.

  \<open>broadcast_loop_ok\<close> gives the effect of the loop watcher by watcher. It shows that the loop
  never panics and that its result does not depend on the order of iteration.
\<close>

type_synonym 'w table = "(int64, 'w) gomap"
type_synonym 'm heap = "chan_ref \<rightharpoonup> 'm chan"

definition broadcast_one ::
  "('w \<Rightarrow> chan_ref) \<Rightarrow> ('w \<Rightarrow> 'm option) \<Rightarrow> int64 \<Rightarrow> 'w \<Rightarrow> 'w table \<times> 'm heap \<Rightarrow> ('w table \<times> 'm heap) go"
where
  "broadcast_one ref msg i w = (\<lambda>(W, H).
    case msg w of
      None \<Rightarrow> Inr (W, H)
    | Some m \<Rightarrow>
        (case try_send m (H (ref w)) of
           Sent c \<Rightarrow> Inr (W, H(ref w \<mapsto> c))
         | SendPanics p \<Rightarrow> Inl p
         | WouldBlock \<Rightarrow>
             go_bind (close_chan (H (ref w)))
               (\<lambda>c. Inr (AList.delete i W, H(ref w \<mapsto> c)))))"

fun broadcast_loop ::
  "('w \<Rightarrow> chan_ref) \<Rightarrow> ('w \<Rightarrow> 'm option) \<Rightarrow> (int64 \<times> 'w) list \<Rightarrow> 'w table \<times> 'm heap
    \<Rightarrow> ('w table \<times> 'm heap) go"
where
  "broadcast_loop ref msg [] WH = Inr WH"
| "broadcast_loop ref msg ((i, w) # ws) WH =
     go_bind (broadcast_one ref msg i w WH) (broadcast_loop ref msg ws)"

definition close_sub :: "('w \<Rightarrow> chan_ref) \<Rightarrow> int64 \<Rightarrow> 'w table \<times> 'm heap \<Rightarrow> ('w table \<times> 'm heap) go" where
  "close_sub ref i = (\<lambda>(W, H).
    case map_of W i of
      None \<Rightarrow> Inr (W, H)
    | Some w \<Rightarrow> go_bind (close_chan (H (ref w))) (\<lambda>c. Inr (AList.delete i W, H(ref w \<mapsto> c))))"

subsection \<open>Invariant\<close>

definition chan_live :: "'m heap \<Rightarrow> chan_ref \<Rightarrow> bool" where
  "chan_live H i \<longleftrightarrow> (\<exists>c. H i = Some c \<and> \<not> chClosed c \<and> chCap c = watcherBuffer
     \<and> length (chBuf c) \<le> watcherBuffer)"

text \<open>\<open>n\<close> is the id counter: no channel has a larger address, so the next one is fresh.\<close>

definition subs_ok :: "('w \<Rightarrow> chan_ref) \<Rightarrow> int64 \<Rightarrow> 'w table \<Rightarrow> 'm heap \<Rightarrow> bool" where
  "subs_ok ref n W H \<longleftrightarrow> gomap_ok W \<and> (\<forall>(i, w) \<in> set W. ref w = i \<and> chan_live H i)
     \<and> (\<forall>i. H i \<noteq> None \<longrightarrow> i \<le> n)"

lemma subs_okD:
  assumes "subs_ok ref n W H" and "map_of W i = Some w"
  shows "ref w = i" and "chan_live H i"
  using assms by (auto simp: subs_ok_def dest!: map_of_SomeD)

lemma subs_ok_fresh: "subs_ok ref n W H \<Longrightarrow> n < i \<Longrightarrow> H i = None \<and> i \<notin> fst ` set W"
  unfolding subs_ok_def chan_live_def by (force simp: not_le)

lemma subs_ok_register:
  assumes "subs_ok ref n W H" and "n < i" and "ref w = i"
  shows "subs_ok ref i (AList.update i w W) (H(i \<mapsto> make_chan watcherBuffer))"
proof -
  have fresh: "H i = None" "i \<notin> fst ` set W"
    using subs_ok_fresh [OF assms(1,2)] by auto
  have W: "gomap_ok W" using assms(1) by (simp add: subs_ok_def)
  have "ref v = j \<and> chan_live (H(i \<mapsto> make_chan watcherBuffer)) j"
    if "(j, v) \<in> set (AList.update i w W)" for j v
    using that assms in_set_update_iff [OF W, of "(j, v)" i w]
    by (auto simp: subs_ok_def chan_live_def make_chan_def)
  moreover have "j \<le> i" if "(H(i \<mapsto> make_chan watcherBuffer)) j \<noteq> None" for j
  proof (cases "j = i")
    case False
    with that have "H j \<noteq> None" by simp
    with assms(1) have "j \<le> n" unfolding subs_ok_def by blast
    with assms(2) show ?thesis by simp
  qed simp
  ultimately show ?thesis
    using W unfolding subs_ok_def by (blast intro: distinct_update)
qed

subsection \<open>The loop, watcher by watcher\<close>

definition stays :: "('w \<Rightarrow> 'm option) \<Rightarrow> 'm heap \<Rightarrow> int64 \<times> 'w \<Rightarrow> bool" where
  "stays msg H = (\<lambda>(i, w). msg w \<noteq> None \<longrightarrow>
     (case H i of None \<Rightarrow> False | Some c \<Rightarrow> length (chBuf c) < chCap c))"

fun chan_after :: "'m option \<Rightarrow> 'm chan \<Rightarrow> 'm chan" where
  "chan_after None c = c"
| "chan_after (Some m) c =
    (if length (chBuf c) < chCap c then c\<lparr>chBuf := chBuf c @ [m]\<rparr> else c\<lparr>chClosed := True\<rparr>)"

definition heap_after :: "('w \<Rightarrow> 'm option) \<Rightarrow> (int64 \<times> 'w) list \<Rightarrow> 'm heap \<Rightarrow> 'm heap" where
  "heap_after msg ws H = (\<lambda>i. case map_of ws i of None \<Rightarrow> H i
     | Some w \<Rightarrow> map_option (chan_after (msg w)) (H i))"

lemma broadcast_one_ok:
  assumes "ref w = i" and "chan_live H i"
  shows "broadcast_one ref msg i w (W, H) =
    Inr (if stays msg H (i, w) then W else AList.delete i W,
         H(i := map_option (chan_after (msg w)) (H i)))"
  using assms
  by (auto simp: broadcast_one_def chan_live_def stays_def fun_upd_idem split: option.splits)

lemma stays_other: "j \<noteq> i \<Longrightarrow> stays msg (H(i := x)) (j, v) = stays msg H (j, v)"
  by (simp add: stays_def)

lemma filter_delete:
  "filter P (AList.delete i m) = filter (\<lambda>x. P x \<and> fst x \<noteq> i) m"
  by (auto simp: AList.delete_eq intro!: filter_cong)

lemma broadcast_loop_gen:
  assumes "gomap_ok ws" and "\<forall>(i, w) \<in> set ws. ref w = i \<and> chan_live H i"
  shows "broadcast_loop ref msg ws (W, H) =
    Inr (filter (\<lambda>x. case map_of ws (fst x) of None \<Rightarrow> True | Some w \<Rightarrow> stays msg H (fst x, w)) W,
         heap_after msg ws H)"
  using assms
proof (induction ws arbitrary: W H)
  case Nil
  then show ?case by (simp add: heap_after_def)
next
  case (Cons p ws)
  obtain i w where p: "p = (i, w)" by (cases p)
  have i_notin: "map_of ws i = None"
    using Cons.prems(1) p by (auto simp: map_of_eq_None_iff)
  let ?W1 = "if stays msg H (i, w) then W else AList.delete i W"
  let ?H1 = "H(i := map_option (chan_after (msg w)) (H i))"
  have one: "broadcast_one ref msg i w (W, H) = Inr (?W1, ?H1)"
    using Cons.prems(2) p by (intro broadcast_one_ok) auto
  have "ref v = j \<and> chan_live ?H1 j" if "(j, v) \<in> set ws" for j v
  proof -
    from that have "j \<in> fst ` set ws" by force
    with i_notin have "j \<noteq> i" by (auto simp: map_of_eq_None_iff)
    then have "chan_live ?H1 j = chan_live H j" by (simp add: chan_live_def)
    with that Cons.prems(2) show ?thesis by auto
  qed
  then have live: "\<forall>(j, v) \<in> set ws. ref v = j \<and> chan_live ?H1 j" by blast
  have other: "stays msg ?H1 (j, v) = stays msg H (j, v)" if "map_of ws j = Some v" for j v
    using that i_notin by (cases "j = i") (simp_all add: stays_other)
  have filt: "filter (\<lambda>x. case map_of ws (fst x) of None \<Rightarrow> True | Some w \<Rightarrow> stays msg ?H1 (fst x, w)) ?W1
      = filter (\<lambda>x. case map_of (p # ws) (fst x) of None \<Rightarrow> True | Some w \<Rightarrow> stays msg H (fst x, w)) W"
    using i_notin other
    by (auto simp: p filter_delete intro!: filter_cong split: option.splits)
  have heap: "heap_after msg ws ?H1 = heap_after msg (p # ws) H"
    using i_notin by (auto simp: p heap_after_def fun_eq_iff split: option.splits)
  have "broadcast_loop ref msg (p # ws) (W, H) = broadcast_loop ref msg ws (?W1, ?H1)"
    unfolding p broadcast_loop.simps one by simp
  also have "\<dots> = Inr (filter (\<lambda>x. case map_of ws (fst x) of None \<Rightarrow> True
      | Some w \<Rightarrow> stays msg ?H1 (fst x, w)) ?W1, heap_after msg ws ?H1)"
  proof (rule Cons.IH)
    show "gomap_ok ws" using Cons.prems(1) by simp
    show "\<forall>(j, v) \<in> set ws. ref v = j \<and> chan_live ?H1 j" by (rule live)
  qed
  finally show ?case unfolding filt heap .
qed

theorem broadcast_loop_ok:
  assumes "subs_ok ref n W H"
  shows "broadcast_loop ref msg W (W, H) = Inr (filter (stays msg H) W, heap_after msg W H)"
proof -
  have "filter (\<lambda>x. case map_of W (fst x) of None \<Rightarrow> True | Some w \<Rightarrow> stays msg H (fst x, w)) W
      = filter (stays msg H) W"
    using assms by (intro filter_cong) (auto simp: subs_ok_def)
  with assms show ?thesis
    by (subst broadcast_loop_gen) (auto simp: subs_ok_def)
qed

lemma chan_live_after:
  assumes "chan_live H i" and "map_of W i = Some w" and "stays msg H (i, w)"
  shows "chan_live (heap_after msg W H) i"
proof -
  obtain c where c: "H i = Some c" "\<not> chClosed c" "chCap c = watcherBuffer"
    "length (chBuf c) \<le> watcherBuffer"
    using assms(1) by (auto simp: chan_live_def)
  have "heap_after msg W H i = Some (chan_after (msg w) c)"
    using assms(2) c(1) by (simp add: heap_after_def)
  moreover have "\<not> chClosed (chan_after (msg w) c) \<and> chCap (chan_after (msg w) c) = watcherBuffer
      \<and> length (chBuf (chan_after (msg w) c)) \<le> watcherBuffer"
    using assms(3) c by (cases "msg w") (auto simp: stays_def)
  ultimately show ?thesis by (auto simp: chan_live_def)
qed

lemma subs_ok_broadcast:
  assumes "subs_ok ref n W H"
  shows "subs_ok ref n (filter (stays msg H) W) (heap_after msg W H)"
proof -
  have dist: "gomap_ok W" using assms by (simp add: subs_ok_def)
  then have "gomap_ok (filter (stays msg H) W)" by (simp add: distinct_map_filter)
  moreover have "ref w = i \<and> chan_live (heap_after msg W H) i"
    if "(i, w) \<in> set W" "stays msg H (i, w)" for i w
    using that assms dist by (auto simp: subs_ok_def intro!: chan_live_after)
  moreover have "heap_after msg W H i \<noteq> None \<longleftrightarrow> H i \<noteq> None" for i
    by (auto simp: heap_after_def split: option.splits)
  ultimately show ?thesis
    using assms by (auto simp: subs_ok_def)
qed

text \<open>Closing a subscription never closes a channel twice.\<close>

lemma close_sub_ok:
  assumes "subs_ok ref n W H"
  shows "close_sub ref i (W, H) = Inr (AList.delete i W,
    (case map_of W i of None \<Rightarrow> H
     | Some w \<Rightarrow> H(i := map_option (\<lambda>c. c\<lparr>chClosed := True\<rparr>) (H i))))"
proof (cases "map_of W i")
  case None
  then have "i \<notin> fst ` set W" by (simp add: map_of_eq_None_iff)
  then have "AList.delete i W = W" by simp
  with None show ?thesis by (simp add: close_sub_def)
next
  case (Some w)
  from subs_okD [OF assms Some] obtain c where "ref w = i" "H i = Some c" "\<not> chClosed c"
    by (auto simp: chan_live_def)
  with Some show ?thesis by (simp add: close_sub_def)
qed

lemma subs_ok_close:
  assumes "subs_ok ref n W H" and "close_sub ref i (W, H) = Inr (W', H')"
  shows "subs_ok ref n W' H'"
proof -
  have eq: "W' = AList.delete i W" "H' = (case map_of W i of None \<Rightarrow> H
     | Some w \<Rightarrow> H(i := map_option (\<lambda>c. c\<lparr>chClosed := True\<rparr>) (H i)))"
    using assms(2) close_sub_ok [OF assms(1), of i] by auto
  have "ref v = j \<and> chan_live H' j" if "(j, v) \<in> set W'" for j v
  proof -
    from that have "(j, v) \<in> set W" "j \<noteq> i" by (auto simp: eq in_set_delete_iff)
    with assms(1) show ?thesis
      by (auto simp: subs_ok_def eq chan_live_def split: option.splits)
  qed
  moreover have "H' j \<noteq> None \<longleftrightarrow> H j \<noteq> None" for j
    by (auto simp: eq split: option.splits if_splits)
  ultimately show ?thesis
    using assms(1) unfolding subs_ok_def by (auto simp: eq intro: distinct_delete)
qed

end
