(* ===== verification/Fanout.thy ===== *)
theory Fanout
  imports History Subscribers
begin

text \<open>
  Emission of one KV event: it gets its cursor, enters the history ring and is fanned out to
  the live watchers (\<open>emitKVLocked\<close> and \<open>fanoutKVLocked\<close> of \<open>store.go\<close>), and the
  emission of the events of one log entry as a batch (\<open>emit_all\<close>).
\<close>

subsection \<open>The operations\<close>

definition watcher_matches :: "kvWatcher \<Rightarrow> KeyValue \<Rightarrow> bool" where
  "watcher_matches w kv \<longleftrightarrow> \<not> (kwNs w \<noteq> kvNamespace kv \<or> kwKey w \<noteq> '''' \<and> kwKey w \<noteq> kvKey kv)"

definition kv_message :: "WatchEvent \<Rightarrow> kvWatcher \<Rightarrow> WatchEvent option" where
  "kv_message ev w =
    (if \<not> watcher_matches w (weKv ev) then None
     else Some \<lparr>weKind = weKind ev, weKv = cloneKV (weKv ev), weRevision = weRevision ev,
            weClusterRevision = 0\<rparr>)"

definition fanoutKVLocked :: "WatchEvent \<Rightarrow> Store \<Rightarrow> Store go" where
  "fanoutKVLocked ev s =
    go_bind (broadcast_loop kwCh (kv_message ev) (kvWatchers s) (kvWatchers s, kvChans s))
      (\<lambda>(W, H). Inr (s\<lparr>kvWatchers := W, kvChans := H\<rparr>))"

definition emitKVLocked :: "WatchEvent_Kind \<Rightarrow> KeyValue \<Rightarrow> Store \<Rightarrow> Store go" where
  "emitKVLocked kind kv s =
    (let seq = add64 (mul64 (kvRevision kv) subLimit) (sub s);
         s1 = s\<lparr>sub := sub s + 1\<rparr>
     in if sub s1 \<ge> subLimit then Inl PanicSubLimit
        else let ev = \<lparr>evSeq = seq, evKind = kind, evKV = cloneKV kv\<rparr>;
                 s2 = appendEventLocked ev s1
             in fanoutKVLocked \<lparr>weKind = kind, weKv = cloneKV kv, weRevision = seq,
                  weClusterRevision = 0\<rparr> s2)"

subsection \<open>Emission in one piece\<close>

abbreviation watchers_ok :: "Store \<Rightarrow> bool" where
  "watchers_ok s \<equiv> subs_ok kwCh (watcherSeq s) (kvWatchers s) (kvChans s)"

definition toWatchEvent :: "Event \<Rightarrow> WatchEvent" where
  "toWatchEvent ev = \<lparr>weKind = evKind ev, weKv = evKV ev, weRevision = evSeq ev,
     weClusterRevision = 0\<rparr>"

definition event_message :: "Event \<Rightarrow> kvWatcher \<Rightarrow> WatchEvent option" where
  "event_message ev w = (if watcher_matches w (evKV ev) then Some (toWatchEvent ev) else None)"

definition newEvent :: "WatchEvent_Kind \<Rightarrow> KeyValue \<Rightarrow> int \<Rightarrow> Event" where
  "newEvent kind kv n =
    \<lparr>evSeq = add64 (mul64 (kvRevision kv) subLimit) n, evKind = kind, evKV = kv\<rparr>"

definition deliver :: "Event \<Rightarrow> Store \<Rightarrow> Store" where
  "deliver ev s = s\<lparr>kvWatchers := filter (stays (event_message ev) (kvChans s)) (kvWatchers s),
     kvChans := heap_after (event_message ev) (kvWatchers s) (kvChans s)\<rparr>"

definition push :: "Event \<Rightarrow> Store \<Rightarrow> Store" where
  "push ev s = deliver ev (appendEventLocked ev s)"

definition emit_result :: "WatchEvent_Kind \<Rightarrow> KeyValue \<Rightarrow> Store \<Rightarrow> Store" where
  "emit_result kind kv s = push (newEvent kind kv (sub s)) (s\<lparr>sub := sub s + 1\<rparr>)"

lemma kv_message_toWatchEvent: "kv_message (toWatchEvent ev) = event_message ev"
  by (simp add: fun_eq_iff kv_message_def event_message_def toWatchEvent_def)

theorem fanoutKVLocked_ok: "watchers_ok s \<Longrightarrow> fanoutKVLocked (toWatchEvent ev) s = Inr (deliver ev s)"
  by (simp add: fanoutKVLocked_def broadcast_loop_ok kv_message_toWatchEvent deliver_def)

theorem emitKVLocked_ok:
  assumes "watchers_ok s"
  shows "emitKVLocked kind kv s =
    (if sub s + 1 \<ge> subLimit then Inl PanicSubLimit else Inr (emit_result kind kv s))"
proof -
  let ?ev = "newEvent kind kv (sub s)"
  let ?s2 = "appendEventLocked ?ev (s\<lparr>sub := sub s + 1\<rparr>)"
  have "fanoutKVLocked (toWatchEvent ?ev) ?s2 = Inr (emit_result kind kv s)"
    using assms by (simp add: fanoutKVLocked_ok emit_result_def push_def)
  then show ?thesis
    by (simp add: emitKVLocked_def Let_def newEvent_def toWatchEvent_def)
qed

lemma deliver_frame [simp]:
  "kvs (deliver ev s) = kvs s"
  "instances (deliver ev s) = instances s"
  "rev (deliver ev s) = rev s"
  "sub (deliver ev s) = sub s"
  "history (deliver ev s) = history s"
  "head (deliver ev s) = head s"
  "count (deliver ev s) = count s"
  "baselineSeq (deliver ev s) = baselineSeq s"
  "svcWatchers (deliver ev s) = svcWatchers s"
  "watcherSeq (deliver ev s) = watcherSeq s"
  "svcChans (deliver ev s) = svcChans s"
  by (simp_all add: deliver_def)

lemma emit_result_frame [simp]:
  "kvs (emit_result kind kv s) = kvs s"
  "instances (emit_result kind kv s) = instances s"
  "rev (emit_result kind kv s) = rev s"
  "sub (emit_result kind kv s) = sub s + 1"
  "baselineSeq (emit_result kind kv s) = baselineSeq s"
  "svcWatchers (emit_result kind kv s) = svcWatchers s"
  "watcherSeq (emit_result kind kv s) = watcherSeq s"
  "svcChans (emit_result kind kv s) = svcChans s"
  by (simp_all add: emit_result_def push_def)

lemma emit_result_watchers:
  "kvWatchers (emit_result kind kv s)
     = filter (stays (event_message (newEvent kind kv (sub s))) (kvChans s)) (kvWatchers s)"
  "kvChans (emit_result kind kv s)
     = heap_after (event_message (newEvent kind kv (sub s))) (kvWatchers s) (kvChans s)"
  by (simp_all add: emit_result_def push_def deliver_def)

lemma hist_list_emit:
  "hist_ok s \<Longrightarrow> hist_list (emit_result kind kv s)
     = last_n historyCapacity (hist_list s @ [newEvent kind kv (sub s)])"
  using ring.toList_append [of "s\<lparr>sub := sub s + 1\<rparr>" "newEvent kind kv (sub s)"]
  by (simp add: emit_result_def push_def)

lemma hist_ok_emit: "hist_ok s \<Longrightarrow> hist_ok (emit_result kind kv s)"
  using ring.ok_append [of "s\<lparr>sub := sub s + 1\<rparr>" "newEvent kind kv (sub s)"]
  by (simp add: emit_result_def push_def)

lemma watchers_ok_emit: "watchers_ok s \<Longrightarrow> watchers_ok (emit_result kind kv s)"
  by (simp add: emit_result_watchers subs_ok_broadcast)

subsection \<open>Emitting a batch of events\<close>

type_synonym pending = "WatchEvent_Kind \<times> KeyValue"

fun emit_all :: "pending list \<Rightarrow> Store \<Rightarrow> Store" where
  "emit_all [] s = s"
| "emit_all ((kind, kv) # evs) s = emit_all evs (emit_result kind kv s)"

text \<open>The events of one log entry get consecutive cursors, counted from the offset \<open>n\<close>.\<close>

fun number_events :: "int \<Rightarrow> pending list \<Rightarrow> Event list" where
  "number_events n [] = []"
| "number_events n ((kind, kv) # evs) = newEvent kind kv n # number_events (n + 1) evs"

lemma length_number_events [simp]: "length (number_events n evs) = length evs"
  by (induction n evs rule: number_events.induct) auto

lemma number_events_nth:
  "i < length evs \<Longrightarrow> number_events n evs ! i = newEvent (fst (evs ! i)) (snd (evs ! i)) (n + int i)"
proof (induction n evs arbitrary: i rule: number_events.induct)
  case (1 n)
  then show ?case by simp
next
  case (2 n kind kv evs)
  then show ?case by (cases i) (simp_all add: algebra_simps)
qed

lemma emit_all_frame [simp]:
  "kvs (emit_all evs s) = kvs s"
  "instances (emit_all evs s) = instances s"
  "rev (emit_all evs s) = rev s"
  "sub (emit_all evs s) = sub s + int (length evs)"
  "baselineSeq (emit_all evs s) = baselineSeq s"
  "svcWatchers (emit_all evs s) = svcWatchers s"
  "watcherSeq (emit_all evs s) = watcherSeq s"
  "svcChans (emit_all evs s) = svcChans s"
  by (induction evs s rule: emit_all.induct) auto

lemma watchers_ok_emit_all: "watchers_ok s \<Longrightarrow> watchers_ok (emit_all evs s)"
proof (induction evs s rule: emit_all.induct)
  case (2 kind kv evs s)
  then show ?case using watchers_ok_emit [of s kind kv] by simp
qed simp

lemma hist_ok_emit_all: "hist_ok s \<Longrightarrow> hist_ok (emit_all evs s)"
  by (induction evs s rule: emit_all.induct) (auto intro: hist_ok_emit)

lemma hist_list_emit_all:
  "hist_ok s \<Longrightarrow> hist_list (emit_all evs s)
     = last_n historyCapacity (hist_list s @ number_events (sub s) evs)"
proof (induction evs s rule: emit_all.induct)
  case (1 s)
  then show ?case by (simp add: last_n_short hist_ok_count)
next
  case (2 kind kv evs s)
  have "hist_list (emit_all ((kind, kv) # evs) s)
      = last_n historyCapacity (last_n historyCapacity (hist_list s @ [newEvent kind kv (sub s)])
          @ number_events (sub s + 1) evs)"
    using 2 by (simp add: hist_ok_emit hist_list_emit)
  also have "\<dots> = last_n historyCapacity
      (hist_list s @ newEvent kind kv (sub s) # number_events (sub s + 1) evs)"
    using last_n_absorb [of historyCapacity "hist_list s @ [newEvent kind kv (sub s)]"] by simp
  finally show ?case by simp
qed

lemma emit_result_kvs: "emit_result kind kv (s\<lparr>kvs := m\<rparr>) = (emit_result kind kv s)\<lparr>kvs := m\<rparr>"
  by (simp add: emit_result_def push_def deliver_def appendEventLocked_def)

lemma emit_all_kvs: "emit_all evs (s\<lparr>kvs := m\<rparr>) = (emit_all evs s)\<lparr>kvs := m\<rparr>"
  by (induction evs s rule: emit_all.induct) (simp_all add: emit_result_kvs)

end
