(* ===== verification/KVStore.thy ===== *)
theory KVStore
  imports Fanout
begin

text \<open>
  The configuration KV of the state machine: \<open>Get\<close>, \<open>ApplyPut\<close>, \<open>ApplyDelete\<close> and
  \<open>ApplyExpireKeys\<close> of \<open>store.go\<close>, translated with every branch, and the abstract machine
  they implement.

  The abstract machine works on the finite map alone and returns the events it emits. The
  refinement lemmas say that each operation computes the abstract map and emits exactly the
  abstract events, in order (\<open>emit_all\<close>).
\<close>

subsection \<open>The operations\<close>

text \<open>
  The lookup at the head of \<open>ApplyPut\<close> and \<open>ApplyDelete\<close>: an entry that has expired counts as
  absent. \<open>now\<close> is the clock reading of \<open>aliveKV\<close>.
\<close>

definition liveKV :: "int64 \<Rightarrow> mapKey \<Rightarrow> (mapKey, kvEntry) gomap \<Rightarrow> kvEntry option" where
  "liveKV now k m = (case map_of m k of None \<Rightarrow> None
     | Some cur \<Rightarrow> if \<not> aliveKV now cur then None else Some cur)"

definition Get :: "int64 \<Rightarrow> string \<Rightarrow> string \<Rightarrow> Store \<Rightarrow> KeyValue option" where
  "Get now ns key s = (case map_of (kvs s) (ns, key) of None \<Rightarrow> None
     | Some e \<Rightarrow> if \<not> aliveKV now e then None else Some (kvToPB ns key e))"

definition ApplyPut ::
  "int64 \<Rightarrow> int64 \<Rightarrow> PutOp \<Rightarrow> Store \<Rightarrow> (Store \<times> (store_error + KeyValue)) go" where
  "ApplyPut now index op s =
    (let s1 = s\<lparr>rev := index, sub := 0\<rparr>;
         k = (poNamespace op, poKey op);
         cur = liveKV now k (kvs s1)
     in case checkVersion (poExpectedVersion op) (cur \<noteq> None) (curVersion cur) of
          Some err \<Rightarrow> Inr (s1, Inl err)
        | None \<Rightarrow>
            let e = \<lparr>keValue = poValue op, keVersion = add64 (curVersion cur) 1,
                     keRevision = index, keTtlMs = poTtlMs op, keExpireAtMs = poExpireAtMs op\<rparr>;
                s2 = s1\<lparr>kvs := AList.update k e (kvs s1)\<rparr>;
                rec = kvToPB (poNamespace op) (poKey op) e
            in go_bind (emitKVLocked PUT rec s2) (\<lambda>s3. Inr (s3, Inr rec)))"

definition ApplyDelete ::
  "int64 \<Rightarrow> int64 \<Rightarrow> DeleteOp \<Rightarrow> Store \<Rightarrow> (Store \<times> (store_error + bool)) go" where
  "ApplyDelete now index op s =
    (let s1 = s\<lparr>rev := index, sub := 0\<rparr>;
         k = (doNamespace op, doKey op)
     in case liveKV now k (kvs s1) of
          None \<Rightarrow> if doExpectedVersion op > 0 then Inr (s1, Inl ErrCASConflict)
                  else Inr (s1, Inr False)
        | Some cur \<Rightarrow>
            (case checkVersion (doExpectedVersion op) True (keVersion cur) of
               Some err \<Rightarrow> Inr (s1, Inl err)
             | None \<Rightarrow>
                 let s2 = s1\<lparr>kvs := AList.delete k (kvs s1)\<rparr>;
                     rec = (kvToPB (doNamespace op) (doKey op) cur)\<lparr>kvRevision := index\<rparr>
                 in go_bind (emitKVLocked DELETE rec s2) (\<lambda>s3. Inr (s3, Inr True))))"

fun expireKeys_loop :: "int64 \<Rightarrow> ExpireKey list \<Rightarrow> Store \<Rightarrow> Store go" where
  "expireKeys_loop index [] s = Inr s"
| "expireKeys_loop index (item # items) s =
    (let k = (ekNamespace item, ekKey item)
     in case map_of (kvs s) k of
          None \<Rightarrow> expireKeys_loop index items s
        | Some cur \<Rightarrow>
            if keRevision cur \<noteq> ekGuardRevision item then expireKeys_loop index items s
            else let s1 = s\<lparr>kvs := AList.delete k (kvs s)\<rparr>;
                     rec = (kvToPB (ekNamespace item) (ekKey item) cur)\<lparr>kvRevision := index\<rparr>
                 in go_bind (emitKVLocked EXPIRED rec s1) (expireKeys_loop index items))"

definition ApplyExpireKeys :: "int64 \<Rightarrow> ExpireKey list \<Rightarrow> Store \<Rightarrow> Store go" where
  "ApplyExpireKeys index items s = expireKeys_loop index items (s\<lparr>rev := index, sub := 0\<rparr>)"

subsection \<open>The abstract machine\<close>

type_synonym kv_map = "mapKey \<rightharpoonup> kvEntry"

definition live :: "int64 \<Rightarrow> kv_map \<Rightarrow> mapKey \<Rightarrow> kvEntry option" where
  "live now m k = (case m k of None \<Rightarrow> None | Some e \<Rightarrow> if aliveKV now e then Some e else None)"

text \<open>The compare-and-set condition: \<open>-1\<close> (any negative number) is unconditional, \<open>0\<close> wants the
  key absent, a positive number wants that version.\<close>

definition cas_ok :: "int64 \<Rightarrow> kvEntry option \<Rightarrow> bool" where
  "cas_ok expected cur \<longleftrightarrow> expected < 0 \<or> expected = 0 \<and> cur = None
     \<or> expected > 0 \<and> (\<exists>e. cur = Some e \<and> keVersion e = expected)"

definition put_entry :: "int64 \<Rightarrow> PutOp \<Rightarrow> kvEntry option \<Rightarrow> kvEntry" where
  "put_entry index op cur = \<lparr>keValue = poValue op,
     keVersion = add64 (case cur of None \<Rightarrow> 0 | Some e \<Rightarrow> keVersion e) 1,
     keRevision = index, keTtlMs = poTtlMs op, keExpireAtMs = poExpireAtMs op\<rparr>"

definition spec_put :: "int64 \<Rightarrow> int64 \<Rightarrow> PutOp \<Rightarrow> kv_map
    \<Rightarrow> kv_map \<times> pending list \<times> (store_error + KeyValue)" where
  "spec_put now index op m =
    (let k = (poNamespace op, poKey op); cur = live now m k; e = put_entry index op cur;
         rec = kvToPB (poNamespace op) (poKey op) e
     in if cas_ok (poExpectedVersion op) cur then (m(k \<mapsto> e), [(PUT, rec)], Inr rec)
        else (m, [], Inl ErrCASConflict))"

definition spec_delete :: "int64 \<Rightarrow> int64 \<Rightarrow> DeleteOp \<Rightarrow> kv_map
    \<Rightarrow> kv_map \<times> pending list \<times> (store_error + bool)" where
  "spec_delete now index op m =
    (let k = (doNamespace op, doKey op)
     in case live now m k of
          None \<Rightarrow> (m, [], if doExpectedVersion op > 0 then Inl ErrCASConflict else Inr False)
        | Some e \<Rightarrow>
            if cas_ok (doExpectedVersion op) (Some e)
            then (m(k := None),
                  [(DELETE, (kvToPB (doNamespace op) (doKey op) e)\<lparr>kvRevision := index\<rparr>)], Inr True)
            else (m, [], Inl ErrCASConflict))"

fun spec_expire :: "int64 \<Rightarrow> ExpireKey list \<Rightarrow> kv_map \<Rightarrow> kv_map \<times> pending list" where
  "spec_expire index [] m = (m, [])"
| "spec_expire index (item # items) m =
    (let k = (ekNamespace item, ekKey item)
     in case m k of
          None \<Rightarrow> spec_expire index items m
        | Some e \<Rightarrow>
            if keRevision e \<noteq> ekGuardRevision item then spec_expire index items m
            else (let (m', evs) = spec_expire index items (m(k := None))
                  in (m', (EXPIRED, (kvToPB (ekNamespace item) (ekKey item) e)\<lparr>kvRevision := index\<rparr>)
                        # evs)))"

subsection \<open>Refinement\<close>

lemma liveKV_live: "liveKV now k m = live now (map_of m) k"
  by (auto simp: liveKV_def live_def split: option.splits)

lemma checkVersion_cas_ok:
  "checkVersion expected (cur \<noteq> None) (curVersion cur)
    = (if cas_ok expected cur then None else Some ErrCASConflict)"
  "checkVersion expected (\<exists>y. cur = Some y) (curVersion cur)
    = (if cas_ok expected cur then None else Some ErrCASConflict)"
  by (auto simp: checkVersion_def cas_ok_def curVersion_def split: option.splits)

lemma put_entry_cur: "put_entry index op cur = \<lparr>keValue = poValue op,
     keVersion = add64 (curVersion cur) 1,
     keRevision = index, keTtlMs = poTtlMs op, keExpireAtMs = poExpireAtMs op\<rparr>"
  by (simp add: put_entry_def curVersion_def)

theorem ApplyPut_refines:
  assumes "watchers_ok s" and "spec_put now index op (map_of (kvs s)) = (m', evs, r)"
  shows "\<exists>kvs'. ApplyPut now index op s =
      Inr (emit_all evs (s\<lparr>rev := index, sub := 0, kvs := kvs'\<rparr>), r)
    \<and> map_of kvs' = m' \<and> (gomap_ok (kvs s) \<longrightarrow> gomap_ok kvs')"
proof -
  let ?k = "(poNamespace op, poKey op)"
  let ?cur = "live now (map_of (kvs s)) ?k"
  show ?thesis
  proof (cases "cas_ok (poExpectedVersion op) ?cur")
    case True
    let ?e = "put_entry index op ?cur"
    have "ApplyPut now index op s = Inr (emit_all evs
        (s\<lparr>rev := index, sub := 0, kvs := AList.update ?k ?e (kvs s)\<rparr>), r)"
      using True assms
      by (auto simp: ApplyPut_def Let_def liveKV_live checkVersion_cas_ok spec_put_def
          emitKVLocked_ok put_entry_cur subLimit_def)
    moreover have "map_of (AList.update ?k ?e (kvs s)) = m'"
      using True assms(2) by (auto simp: spec_put_def Let_def)
    ultimately show ?thesis by (blast intro: distinct_update)
  next
    case False
    then have "ApplyPut now index op s = Inr (emit_all evs (s\<lparr>rev := index, sub := 0, kvs := kvs s\<rparr>), r)"
      using assms by (auto simp: ApplyPut_def Let_def liveKV_live checkVersion_cas_ok spec_put_def)
    with False assms(2) show ?thesis
      by (intro exI [of _ "kvs s"]) (auto simp: spec_put_def Let_def)
  qed
qed

theorem ApplyDelete_refines:
  assumes "watchers_ok s" and "spec_delete now index op (map_of (kvs s)) = (m', evs, r)"
  shows "\<exists>kvs'. ApplyDelete now index op s =
      Inr (emit_all evs (s\<lparr>rev := index, sub := 0, kvs := kvs'\<rparr>), r)
    \<and> map_of kvs' = m' \<and> (gomap_ok (kvs s) \<longrightarrow> gomap_ok kvs')"
proof -
  let ?k = "(doNamespace op, doKey op)"
  show ?thesis
  proof (cases "live now (map_of (kvs s)) ?k")
    case None
    with assms(2) show ?thesis
      by (intro exI [of _ "kvs s"])
        (auto simp: ApplyDelete_def Let_def liveKV_live spec_delete_def split: if_splits)
  next
    case (Some e)
    have chk: "checkVersion (doExpectedVersion op) True (keVersion e)
        = (if cas_ok (doExpectedVersion op) (Some e) then None else Some ErrCASConflict)"
      using checkVersion_cas_ok [of _ "Some e"] by (simp add: curVersion_def)
    show ?thesis
    proof (cases "cas_ok (doExpectedVersion op) (Some e)")
      case True
      then have "ApplyDelete now index op s = Inr (emit_all evs
          (s\<lparr>rev := index, sub := 0, kvs := AList.delete ?k (kvs s)\<rparr>), r)"
        using Some assms
        by (auto simp: ApplyDelete_def Let_def liveKV_live chk spec_delete_def emitKVLocked_ok
            subLimit_def)
      moreover have "map_of (AList.delete ?k (kvs s)) = m'"
        using True Some assms(2) by (auto simp: spec_delete_def Let_def map_of_AList_delete)
      ultimately show ?thesis by (blast intro: distinct_delete)
    next
      case False
      with Some assms show ?thesis
        by (intro exI [of _ "kvs s"])
          (auto simp: ApplyDelete_def Let_def liveKV_live chk spec_delete_def)
    qed
  qed
qed

text \<open>
  The expiry loop either emits all the events of the abstract loop or panics: the counter
  \<open>sub\<close> may not reach \<open>subLimit\<close>.
\<close>

definition item_hit :: "ExpireKey \<Rightarrow> kv_map \<Rightarrow> kvEntry option" where
  "item_hit item m = (case m (ekNamespace item, ekKey item) of None \<Rightarrow> None
     | Some e \<Rightarrow> if keRevision e = ekGuardRevision item then Some e else None)"

abbreviation expired_event :: "int64 \<Rightarrow> ExpireKey \<Rightarrow> kvEntry \<Rightarrow> KeyValue" where
  "expired_event index item e \<equiv> (kvToPB (ekNamespace item) (ekKey item) e)\<lparr>kvRevision := index\<rparr>"

lemma spec_expire_skip:
  "item_hit item m = None \<Longrightarrow> spec_expire index (item # items) m = spec_expire index items m"
  by (auto simp: item_hit_def Let_def split: option.splits if_splits)

lemma spec_expire_hit:
  "item_hit item m = Some e \<Longrightarrow> spec_expire index (item # items) m =
    (fst (spec_expire index items (m((ekNamespace item, ekKey item) := None))),
     (EXPIRED, expired_event index item e)
       # snd (spec_expire index items (m((ekNamespace item, ekKey item) := None))))"
  by (auto simp: item_hit_def Let_def split: option.splits if_splits prod.splits)

lemma expireKeys_loop_skip:
  "item_hit item (map_of (kvs s)) = None
    \<Longrightarrow> expireKeys_loop index (item # items) s = expireKeys_loop index items s"
  by (auto simp: item_hit_def Let_def split: option.splits if_splits)

lemma expireKeys_loop_hit:
  "item_hit item (map_of (kvs s)) = Some e \<Longrightarrow> expireKeys_loop index (item # items) s =
    go_bind (emitKVLocked EXPIRED (expired_event index item e)
        (s\<lparr>kvs := AList.delete (ekNamespace item, ekKey item) (kvs s)\<rparr>))
      (expireKeys_loop index items)"
  by (auto simp: item_hit_def Let_def split: option.splits if_splits)

declare spec_expire.simps(2) [simp del] expireKeys_loop.simps(2) [simp del]

lemma expireKeys_loop_refines:
  assumes "watchers_ok s" and "spec_expire index items (map_of (kvs s)) = (m', evs)"
  shows "if evs \<noteq> [] \<and> subLimit \<le> sub s + int (length evs)
     then expireKeys_loop index items s = Inl PanicSubLimit
     else \<exists>kvs'. expireKeys_loop index items s = Inr (emit_all evs (s\<lparr>kvs := kvs'\<rparr>))
       \<and> map_of kvs' = m' \<and> (gomap_ok (kvs s) \<longrightarrow> gomap_ok kvs')"
  using assms
proof (induction items arbitrary: s evs)
  case Nil
  then show ?case by (auto intro!: exI [of _ "kvs s"])
next
  case (Cons item items)
  let ?k = "(ekNamespace item, ekKey item)"
  show ?case
  proof (cases "item_hit item (map_of (kvs s))")
    case None
    with Cons show ?thesis by (simp add: spec_expire_skip expireKeys_loop_skip)
  next
    case (Some e)
    let ?s1 = "s\<lparr>kvs := AList.delete ?k (kvs s)\<rparr>"
    let ?s2 = "emit_result EXPIRED (expired_event index item e) ?s1"
    obtain evs1 where evs: "evs = (EXPIRED, expired_event index item e) # evs1"
      and spec1: "spec_expire index items (map_of (kvs ?s2)) = (m', evs1)"
      using Cons.prems(2) Some by (auto simp: spec_expire_hit map_of_AList_delete prod_eq_iff)
    have step: "expireKeys_loop index (item # items) s =
        (if subLimit \<le> sub s + 1 then Inl PanicSubLimit else expireKeys_loop index items ?s2)"
      using Some Cons.prems(1) by (simp add: expireKeys_loop_hit emitKVLocked_ok)
    have "watchers_ok ?s2"
      using Cons.prems(1) by (intro watchers_ok_emit) simp
    note IH = Cons.IH [OF this spec1]
    show ?thesis
    proof (cases "subLimit \<le> sub s + 1 + int (length evs1)")
      case True
      then have "expireKeys_loop index (item # items) s = Inl PanicSubLimit"
        using IH by (cases "evs1 = []") (simp_all add: step)
      with True show ?thesis by (simp add: evs)
    next
      case False
      then obtain kvs' where "expireKeys_loop index items ?s2 = Inr (emit_all evs1 (?s2\<lparr>kvs := kvs'\<rparr>))"
        and "map_of kvs' = m'" and "gomap_ok (kvs ?s2) \<longrightarrow> gomap_ok kvs'"
        using IH by auto
      moreover have "?s2\<lparr>kvs := kvs'\<rparr> = emit_result EXPIRED (expired_event index item e) (s\<lparr>kvs := kvs'\<rparr>)"
        by (simp add: emit_result_kvs)
      ultimately show ?thesis
        using False by (auto simp: step evs intro: distinct_delete)
    qed
  qed
qed

theorem ApplyExpireKeys_refines:
  assumes "watchers_ok s" and "spec_expire index items (map_of (kvs s)) = (m', evs)"
  shows "if int (length evs) \<ge> subLimit then ApplyExpireKeys index items s = Inl PanicSubLimit
     else \<exists>kvs'. ApplyExpireKeys index items s =
           Inr (emit_all evs (s\<lparr>rev := index, sub := 0, kvs := kvs'\<rparr>))
       \<and> map_of kvs' = m' \<and> (gomap_ok (kvs s) \<longrightarrow> gomap_ok kvs')"
  using expireKeys_loop_refines [of "s\<lparr>rev := index, sub := 0\<rparr>" index items m' evs] assms
  by (auto simp: ApplyExpireKeys_def subLimit_def split: if_splits)

subsection \<open>Properties of the abstract machine\<close>

lemma live_Some_iff: "live now m k = Some e \<longleftrightarrow> m k = Some e \<and> aliveKV now e"
  by (auto simp: live_def split: option.splits)

lemma Get_live: "Get now ns key s = map_option (kvToPB ns key) (live now (map_of (kvs s)) (ns, key))"
  by (auto simp: Get_def live_def split: option.splits)

text \<open>Expiry removes a key exactly if some item carries its current revision.\<close>

definition guarded :: "ExpireKey list \<Rightarrow> kv_map \<Rightarrow> mapKey \<Rightarrow> bool" where
  "guarded items m k \<longleftrightarrow> (\<exists>item \<in> set items. k = (ekNamespace item, ekKey item)
     \<and> (\<exists>e. m k = Some e \<and> keRevision e = ekGuardRevision item))"

lemma guarded_Cons_skip: "item_hit item m = None \<Longrightarrow> guarded (item # items) m k = guarded items m k"
  by (auto simp: guarded_def item_hit_def split: option.splits if_splits)

lemma guarded_Cons_hit: "item_hit item m = Some e \<Longrightarrow> guarded (item # items) m k \<longleftrightarrow>
    k = (ekNamespace item, ekKey item) \<or> guarded items (m((ekNamespace item, ekKey item) := None)) k"
  by (auto simp: guarded_def item_hit_def split: option.splits if_splits)

lemma spec_expire_map:
  "fst (spec_expire index items m) k = (if guarded items m k then None else m k)"
proof (induction items arbitrary: m)
  case Nil
  then show ?case by (simp add: guarded_def)
next
  case (Cons item items)
  then show ?case
    by (cases "item_hit item m")
      (simp_all add: spec_expire_skip spec_expire_hit guarded_Cons_skip guarded_Cons_hit del: fun_upd_apply,
        simp)
qed

abbreviation event_key :: "pending \<Rightarrow> mapKey" where
  "event_key p \<equiv> (kvNamespace (snd p), kvKey (snd p))"

lemma spec_expire_keys:
  "distinct (map event_key (snd (spec_expire index items m)))
    \<and> event_key ` set (snd (spec_expire index items m)) = {k. guarded items m k}"
proof (induction items arbitrary: m)
  case Nil
  then show ?case by (simp add: guarded_def)
next
  case (Cons item items)
  let ?k = "(ekNamespace item, ekKey item)"
  show ?case
  proof (cases "item_hit item m")
    case None
    with Cons show ?thesis by (simp add: spec_expire_skip guarded_Cons_skip)
  next
    case (Some e)
    define M where "M = m(?k := None)"
    have "\<not> guarded items M ?k" by (simp add: guarded_def M_def)
    then have "?k \<notin> event_key ` set (snd (spec_expire index items M))"
      using Cons.IH [of M] by simp
    moreover have "{k. guarded (item # items) m k} = insert ?k {k. guarded items M k}"
      unfolding guarded_Cons_hit [OF Some] M_def by auto
    ultimately show ?thesis
      using Cons.IH [of M]
      by (simp add: spec_expire_hit [OF Some] M_def [symmetric] kvToPB_def)
  qed
qed

lemma spec_expire_length: "length (snd (spec_expire index items m)) = card {k. guarded items m k}"
  using spec_expire_keys [of index items m] distinct_card [of "map event_key (snd (spec_expire index items m))"]
  by simp

end
