(* ===== verification/Registry.thy ===== *)
theory Registry
  imports Subscribers
begin

text \<open>
  Service discovery in the state machine: \<open>ApplyRegister\<close>, \<open>ApplyHeartbeat\<close>,
  \<open>ApplyExpireServices\<close>, \<open>Discover\<close>, \<open>GetInstance\<close>, \<open>WatchService\<close> and
  \<open>CloseServiceWatcher\<close> of \<open>store.go\<close> and \<open>helpers.go\<close>, with the fan-out of set changes to
  service watchers.

  Unlike the KV operations these do not reset \<open>sub\<close>: they emit no KV event.
\<close>

subsection \<open>Fan-out of a change\<close>

definition filterInstances :: "string \<Rightarrow> string \<Rightarrow> Instance list \<Rightarrow> Instance list" where
  "filterInstances ns service = filter (\<lambda>x. inNamespace x = ns \<and> inService x = service)"

definition svc_message :: "ServiceChange \<Rightarrow> svcWatcher \<Rightarrow> ServiceChange option" where
  "svc_message c w =
    (let added = filterInstances (swNs w) (swService w) (scAdded c);
         removed = filterInstances (swNs w) (swService w) (scRemoved c)
     in if length added = 0 \<and> length removed = 0 then None
        else Some \<lparr>scAdded = added, scRemoved = removed\<rparr>)"

definition fanoutSvcLocked :: "ServiceChange \<Rightarrow> Store \<Rightarrow> Store go" where
  "fanoutSvcLocked c s =
    go_bind (broadcast_loop swCh (svc_message c) (svcWatchers s) (svcWatchers s, svcChans s))
      (\<lambda>(W, H). Inr (s\<lparr>svcWatchers := W, svcChans := H\<rparr>))"

subsection \<open>Operations\<close>

definition ApplyRegister :: "int64 \<Rightarrow> RegisterOp \<Rightarrow> Store \<Rightarrow> (Store \<times> Instance) go" where
  "ApplyRegister index op s =
    (let s1 = s\<lparr>rev := index\<rparr>;
         k = (roNamespace op, roService op, roInstanceId op);
         existed = (map_of (instances s1) k \<noteq> None);
         e = \<lparr>ieAddress = roAddress op, ieMetadata = cloneMap (roMetadata op),
              ieLeaseTtlMs = roLeaseTtlMs op, ieExpireAtMs = roExpireAtMs op, ieRevision = index\<rparr>;
         s2 = s1\<lparr>instances := AList.update k e (instances s1)\<rparr>;
         inst = instToPB (roNamespace op) (roService op) (roInstanceId op) e
     in if \<not> existed
        then go_bind (fanoutSvcLocked \<lparr>scAdded = [cloneInstance inst], scRemoved = []\<rparr> s2)
               (\<lambda>s3. Inr (s3, inst))
        else Inr (s2, inst))"

definition ApplyHeartbeat ::
  "int64 \<Rightarrow> int64 \<Rightarrow> HeartbeatOp \<Rightarrow> Store \<Rightarrow> (Store \<times> (store_error + Instance)) go" where
  "ApplyHeartbeat now index op s =
    (let s1 = s\<lparr>rev := index\<rparr>;
         k = (hoNamespace op, hoService op, hoInstanceId op)
     in case map_of (instances s1) k of
          None \<Rightarrow> Inr (s1, Inl ErrInstanceNotFound)
        | Some e \<Rightarrow>
            if hoGuardRevision op \<noteq> 0 \<and> ieRevision e \<noteq> hoGuardRevision op \<or> \<not> instAlive now e
            then Inr (s1, Inl ErrInstanceNotFound)
            else let e' = e\<lparr>ieExpireAtMs := hoNewExpireAtMs op, ieRevision := index\<rparr>
                 in Inr (s1\<lparr>instances := AList.update k e' (instances s1)\<rparr>,
                         Inr (instToPB (hoNamespace op) (hoService op) (hoInstanceId op) e')))"

fun expireServices_loop ::
  "int64 \<Rightarrow> ExpireService list \<Rightarrow> (svcKey, instEntry) gomap \<Rightarrow> Instance list
    \<Rightarrow> (svcKey, instEntry) gomap \<times> Instance list" where
  "expireServices_loop index [] m removed = (m, removed)"
| "expireServices_loop index (item # items) m removed =
    (let k = (esNamespace item, esService item, esInstanceId item)
     in case map_of m k of
          None \<Rightarrow> expireServices_loop index items m removed
        | Some e \<Rightarrow>
            if ieRevision e \<noteq> esGuardRevision item then expireServices_loop index items m removed
            else expireServices_loop index items (AList.delete k m)
                   (removed @ [(instToPB (esNamespace item) (esService item) (esInstanceId item) e)
                                 \<lparr>inRevision := index\<rparr>]))"

definition ApplyExpireServices :: "int64 \<Rightarrow> ExpireService list \<Rightarrow> Store \<Rightarrow> Store go" where
  "ApplyExpireServices index items s =
    (let s1 = s\<lparr>rev := index\<rparr>;
         (m, removed) = expireServices_loop index items (instances s1) [];
         s2 = s1\<lparr>instances := m\<rparr>
     in if length removed > 0 then fanoutSvcLocked \<lparr>scAdded = [], scRemoved = removed\<rparr> s2
        else Inr s2)"

text \<open>
  Reading the registry. The loop of \<open>discoverLocked\<close> reads the clock once per entry it looks
  at: \<open>clk k\<close> is the reading taken for the entry \<open>k\<close>.
\<close>

definition discoverLocked ::
  "(svcKey \<Rightarrow> int64) \<Rightarrow> string \<Rightarrow> string \<Rightarrow> Store \<Rightarrow> Instance list" where
  "discoverLocked clk ns service s =
    map (\<lambda>((n, v, iid), e). instToPB n v iid e)
      (filter (\<lambda>((n, v, iid), e). \<not> (n \<noteq> ns \<or> v \<noteq> service \<or> \<not> instAlive (clk (n, v, iid)) e))
        (instances s))"

definition Discover :: "(svcKey \<Rightarrow> int64) \<Rightarrow> string \<Rightarrow> string \<Rightarrow> Store \<Rightarrow> Instance list" where
  "Discover clk ns service s = discoverLocked clk ns service s"

definition GetInstance :: "int64 \<Rightarrow> string \<Rightarrow> string \<Rightarrow> string \<Rightarrow> Store \<Rightarrow> Instance option" where
  "GetInstance now ns service iid s =
    (case map_of (instances s) (ns, service, iid) of
       None \<Rightarrow> None
     | Some e \<Rightarrow> if \<not> instAlive now e then None else Some (instToPB ns service iid e))"

definition WatchService ::
  "(svcKey \<Rightarrow> int64) \<Rightarrow> string \<Rightarrow> string \<Rightarrow> Store \<Rightarrow> Store \<times> int64 \<times> Instance list \<times> chan_ref" where
  "WatchService clk ns service s =
    (let wid = add64 (watcherSeq s) 1;
         w = \<lparr>swNs = ns, swService = service, swCh = wid\<rparr>;
         s1 = s\<lparr>watcherSeq := wid, svcChans := (svcChans s)(wid \<mapsto> make_chan watcherBuffer),
                svcWatchers := AList.update wid w (svcWatchers s)\<rparr>
     in (s1, wid, discoverLocked clk ns service s1, swCh w))"

definition CloseServiceWatcher :: "int64 \<Rightarrow> Store \<Rightarrow> Store go" where
  "CloseServiceWatcher i s =
    go_bind (close_sub swCh i (svcWatchers s, svcChans s))
      (\<lambda>(W, H). Inr (s\<lparr>svcWatchers := W, svcChans := H\<rparr>))"

subsection \<open>Effects in one piece\<close>

abbreviation svc_watchers_ok :: "Store \<Rightarrow> bool" where
  "svc_watchers_ok s \<equiv> subs_ok swCh (watcherSeq s) (svcWatchers s) (svcChans s)"

definition svc_deliver :: "ServiceChange \<Rightarrow> Store \<Rightarrow> Store" where
  "svc_deliver c s = s\<lparr>svcWatchers := filter (stays (svc_message c) (svcChans s)) (svcWatchers s),
     svcChans := heap_after (svc_message c) (svcWatchers s) (svcChans s)\<rparr>"

lemma fanoutSvcLocked_ok: "svc_watchers_ok s \<Longrightarrow> fanoutSvcLocked c s = Inr (svc_deliver c s)"
  by (simp add: fanoutSvcLocked_def broadcast_loop_ok svc_deliver_def)

lemma svc_deliver_frame [simp]:
  "kvs (svc_deliver c s) = kvs s"
  "instances (svc_deliver c s) = instances s"
  "rev (svc_deliver c s) = rev s"
  "sub (svc_deliver c s) = sub s"
  "history (svc_deliver c s) = history s"
  "head (svc_deliver c s) = head s"
  "count (svc_deliver c s) = count s"
  "baselineSeq (svc_deliver c s) = baselineSeq s"
  "kvWatchers (svc_deliver c s) = kvWatchers s"
  "watcherSeq (svc_deliver c s) = watcherSeq s"
  "kvChans (svc_deliver c s) = kvChans s"
  by (simp_all add: svc_deliver_def)

lemma svc_watchers_ok_deliver: "svc_watchers_ok s \<Longrightarrow> svc_watchers_ok (svc_deliver c s)"
  by (simp add: svc_deliver_def subs_ok_broadcast)

definition register_entry :: "int64 \<Rightarrow> RegisterOp \<Rightarrow> instEntry" where
  "register_entry index op = \<lparr>ieAddress = roAddress op, ieMetadata = cloneMap (roMetadata op),
     ieLeaseTtlMs = roLeaseTtlMs op, ieExpireAtMs = roExpireAtMs op, ieRevision = index\<rparr>"

abbreviation register_key :: "RegisterOp \<Rightarrow> svcKey" where
  "register_key op \<equiv> (roNamespace op, roService op, roInstanceId op)"

definition register_store :: "int64 \<Rightarrow> RegisterOp \<Rightarrow> Store \<Rightarrow> Store" where
  "register_store index op s = s\<lparr>rev := index,
     instances := AList.update (register_key op) (register_entry index op) (instances s)\<rparr>"

lemma cloneInstance_instToPB [simp]: "cloneInstance (instToPB ns v i e) = instToPB ns v i e"
  by (simp add: cloneInstance_def instToPB_def)

lemma ApplyRegister_ok:
  assumes "svc_watchers_ok s"
  shows "ApplyRegister index op s =
    Inr (let s2 = register_store index op s;
             inst = instToPB (roNamespace op) (roService op) (roInstanceId op) (register_entry index op)
         in (if map_of (instances s) (register_key op) = None
             then svc_deliver \<lparr>scAdded = [inst], scRemoved = []\<rparr> s2 else s2, inst))"
proof -
  have "svc_watchers_ok (register_store index op s)"
    using assms by (simp add: register_store_def)
  note deliver = fanoutSvcLocked_ok [OF this]
  have "ApplyRegister index op s =
      (let s2 = register_store index op s;
           inst = instToPB (roNamespace op) (roService op) (roInstanceId op) (register_entry index op)
       in if map_of (instances s) (register_key op) = None
          then go_bind (fanoutSvcLocked \<lparr>scAdded = [cloneInstance inst], scRemoved = []\<rparr> s2)
                 (\<lambda>s3. Inr (s3, inst))
          else Inr (s2, inst))"
    unfolding ApplyRegister_def register_store_def register_entry_def Let_def
    by simp
  then show ?thesis by (simp add: Let_def deliver)
qed

lemma expireServices_loop_acc:
  "expireServices_loop index items m removed =
    (let (m', r') = expireServices_loop index items m [] in (m', removed @ r'))"
proof (induction items arbitrary: m removed)
  case Nil
  then show ?case by simp
next
  case (Cons item items)
  let ?k = "(esNamespace item, esService item, esInstanceId item)"
  show ?case
  proof (cases "\<exists>e. map_of m ?k = Some e \<and> ieRevision e = esGuardRevision item")
    case False
    then have "expireServices_loop index (item # items) m r = expireServices_loop index items m r" for r
      by (auto simp: Let_def split: option.splits)
    then show ?thesis using Cons.IH [of m removed] by (simp only:)
  next
    case True
    then obtain e where e: "map_of m ?k = Some e" "ieRevision e = esGuardRevision item" by blast
    let ?r = "(instToPB (esNamespace item) (esService item) (esInstanceId item) e)\<lparr>inRevision := index\<rparr>"
    obtain m' r' where rest: "expireServices_loop index items (AList.delete ?k m) [] = (m', r')"
      by (cases "expireServices_loop index items (AList.delete ?k m) []")
    have "expireServices_loop index (item # items) m acc = (m', acc @ ?r # r')" for acc
    proof -
      have "expireServices_loop index (item # items) m acc
          = expireServices_loop index items (AList.delete ?k m) (acc @ [?r])"
        using e by simp
      also have "\<dots> = (m', acc @ ?r # r')"
        by (subst Cons.IH) (simp add: rest)
      finally show ?thesis .
    qed
    then show ?thesis by simp
  qed
qed

subsection \<open>Facts about the operations\<close>

text \<open>A removal batch: exactly the instances whose revision is the guard's are removed, and each
  removed instance is reported once.\<close>

definition svc_guarded :: "ExpireService list \<Rightarrow> (svcKey \<rightharpoonup> instEntry) \<Rightarrow> svcKey \<Rightarrow> bool" where
  "svc_guarded items m k \<longleftrightarrow> (\<exists>item \<in> set items. k = (esNamespace item, esService item, esInstanceId item)
     \<and> (\<exists>e. m k = Some e \<and> ieRevision e = esGuardRevision item))"

lemma expireServices_loop_map:
  "map_of (fst (expireServices_loop index items m removed)) k
     = (if svc_guarded items (map_of m) k then None else map_of m k)"
proof (induction items arbitrary: m removed)
  case Nil
  then show ?case by (simp add: svc_guarded_def)
next
  case (Cons item items)
  let ?k = "(esNamespace item, esService item, esInstanceId item)"
  show ?case
  proof (cases "\<exists>e. map_of m ?k = Some e \<and> ieRevision e = esGuardRevision item")
    case False
    then have "expireServices_loop index (item # items) m removed = expireServices_loop index items m removed"
      by (auto simp: Let_def split: option.splits)
    moreover have "svc_guarded (item # items) (map_of m) k = svc_guarded items (map_of m) k"
      using False by (auto simp: svc_guarded_def)
    ultimately show ?thesis by (simp add: Cons.IH)
  next
    case True
    then obtain e where e: "map_of m ?k = Some e" "ieRevision e = esGuardRevision item" by blast
    define M where "M = AList.delete ?k m"
    define N where "N = map_of M"
    have N: "N x = (if x = ?k then None else map_of m x)" for x
      by (simp add: N_def M_def map_of_AList_delete)
    have "svc_guarded (item # items) (map_of m) k \<longleftrightarrow> k = ?k \<or> svc_guarded items N k"
      using e by (auto simp: svc_guarded_def N)
    with e N [of k] N [of ?k] show ?thesis
      by (simp add: Cons.IH M_def [symmetric] N_def [symmetric])
  qed
qed

lemma gomap_ok_expireServices:
  "gomap_ok m \<Longrightarrow> gomap_ok (fst (expireServices_loop index items m removed))"
proof (induction items arbitrary: m removed)
  case Nil
  then show ?case by simp
next
  case (Cons item items)
  then show ?case
    by (auto simp: Let_def intro: distinct_delete split: option.splits)
qed

lemma ApplyExpireServices_ok:
  assumes "svc_watchers_ok s" and "expireServices_loop index items (instances s) [] = (m, removed)"
  shows "ApplyExpireServices index items s =
    Inr (if removed = [] then s\<lparr>rev := index, instances := m\<rparr>
         else svc_deliver \<lparr>scAdded = [], scRemoved = removed\<rparr> (s\<lparr>rev := index, instances := m\<rparr>))"
  using assms by (simp add: ApplyExpireServices_def Let_def fanoutSvcLocked_ok)

lemma discoverLocked_mem:
  assumes "gomap_ok (instances s)"
  shows "x \<in> set (discoverLocked clk ns service s) \<longleftrightarrow>
    (\<exists>iid e. map_of (instances s) (ns, service, iid) = Some e
       \<and> instAlive (clk (ns, service, iid)) e \<and> x = instToPB ns service iid e)"
  using assms unfolding discoverLocked_def
  by (force simp: gomap_set_iff [symmetric])

end
