(* ===== verification/Snapshots.thy ===== *)
theory Snapshots
  imports KVStore Registry
begin

text \<open>
  Snapshots of the state machine (\<open>helpers.go\<close>): export, conversion to and from the wire
  format, restore, and the scans for expired entries that the sweeper makes.

  A decoded snapshot may hold a record whose inner message is not set, so the lists of a
  \<open>Snapshot\<close> hold pointers that may be nil; \<open>RestoreSnapshot\<close> dereferences them.
\<close>

subsection \<open>Export and restore\<close>

record Snapshot =
  snapRevision :: int64
  snapKVs :: "KeyValue option list"
  snapInstances :: "Instance option list"

definition ExportSnapshot :: "Store \<Rightarrow> Snapshot" where
  "ExportSnapshot s = \<lparr>snapRevision = rev s,
     snapKVs = map (\<lambda>((ns, key), e). Some (kvToPB ns key e)) (kvs s),
     snapInstances = map (\<lambda>((ns, service, iid), e). Some (instToPB ns service iid e)) (instances s)\<rparr>"

fun restoreKVs :: "KeyValue option list \<Rightarrow> (mapKey, kvEntry) gomap \<Rightarrow> (mapKey, kvEntry) gomap go" where
  "restoreKVs [] m = Inr m"
| "restoreKVs (None # kvl) m = Inl PanicNilDeref"
| "restoreKVs (Some kv # kvl) m = restoreKVs kvl (AList.update (kvNamespace kv, kvKey kv)
     \<lparr>keValue = kvValue kv, keVersion = kvVersion kv, keRevision = kvRevision kv,
      keTtlMs = kvTtlMs kv, keExpireAtMs = kvExpireAtMs kv\<rparr> m)"

fun restoreInstances ::
  "Instance option list \<Rightarrow> (svcKey, instEntry) gomap \<Rightarrow> (svcKey, instEntry) gomap go" where
  "restoreInstances [] m = Inr m"
| "restoreInstances (None # ins) m = Inl PanicNilDeref"
| "restoreInstances (Some i # ins) m = restoreInstances ins
     (AList.update (inNamespace i, inService i, inInstanceId i)
       \<lparr>ieAddress = inAddress i, ieMetadata = cloneMap (inMetadata i),
        ieLeaseTtlMs = inLeaseTtlMs i, ieExpireAtMs = inExpireAtMs i, ieRevision = inRevision i\<rparr> m)"

definition RestoreSnapshot :: "Snapshot \<Rightarrow> Store \<Rightarrow> Store go" where
  "RestoreSnapshot snap s =
    (if snapRevision snap < rev s then Inr s
     else go_bind (restoreKVs (snapKVs snap) []) (\<lambda>kvm.
       go_bind (restoreInstances (snapInstances snap) []) (\<lambda>im.
         Inr (s\<lparr>kvs := kvm, instances := im, rev := snapRevision snap, sub := 0,
                history := Map.empty, head := 0, count := 0,
                baselineSeq := add64 (mul64 (snapRevision snap) subLimit) (subLimit - 1)\<rparr>))))"

subsection \<open>Wire format\<close>

definition SnapshotToProto :: "Snapshot \<Rightarrow> PbSnapshot" where
  "SnapshotToProto snap = \<lparr>snLastIncludedIndex = snapRevision snap, snTerm = 1,
     snKvs = map (\<lambda>kv. \<lparr>recKv = map_option cloneKV kv\<rparr>) (snapKVs snap),
     snInstances = map (\<lambda>i. \<lparr>recInstance = map_option cloneInstance i\<rparr>) (snapInstances snap)\<rparr>"

definition SnapshotFromProto :: "PbSnapshot \<Rightarrow> Snapshot" where
  "SnapshotFromProto p = \<lparr>snapRevision = snLastIncludedIndex p,
     snapKVs = map (\<lambda>r. map_option cloneKV (recKv r)) (snKvs p),
     snapInstances = map (\<lambda>r. map_option cloneInstance (recInstance r)) (snInstances p)\<rparr>"

subsection \<open>Expiry scans\<close>

record ExpiredKV =
  xkNamespace :: string
  xkKey :: string
  xkGuardRevision :: int64

record ExpiredInstance =
  xiNamespace :: string
  xiService :: string
  xiInstanceID :: string
  xiGuardRevision :: int64

definition ScanExpiredKVs :: "int64 \<Rightarrow> Store \<Rightarrow> ExpiredKV list" where
  "ScanExpiredKVs now s =
    map (\<lambda>((ns, key), e). \<lparr>xkNamespace = ns, xkKey = key, xkGuardRevision = keRevision e\<rparr>)
      (filter (\<lambda>(k, e). keExpireAtMs e \<noteq> 0 \<and> keExpireAtMs e \<le> now) (kvs s))"

definition ScanExpiredInstances :: "int64 \<Rightarrow> Store \<Rightarrow> ExpiredInstance list" where
  "ScanExpiredInstances now s =
    map (\<lambda>((ns, service, iid), e). \<lparr>xiNamespace = ns, xiService = service, xiInstanceID = iid,
           xiGuardRevision = ieRevision e\<rparr>)
      (filter (\<lambda>(k, e). ieExpireAtMs e \<noteq> 0 \<and> ieExpireAtMs e \<le> now) (instances s))"

subsection \<open>Facts\<close>

text \<open>The stored metadata are copies made by \<open>cloneMap\<close>, hence maps with distinct keys.\<close>

definition metas_ok :: "(svcKey, instEntry) gomap \<Rightarrow> bool" where
  "metas_ok m \<longleftrightarrow> (\<forall>(k, e) \<in> set m. gomap_ok (ieMetadata e))"

abbreviation metadata_ok :: "Store \<Rightarrow> bool" where
  "metadata_ok s \<equiv> metas_ok (instances s)"

lemma metas_ok_Nil [simp]: "metas_ok []"
  by (simp add: metas_ok_def)

lemma metas_ok_update:
  "gomap_ok m \<Longrightarrow> metas_ok m \<Longrightarrow> gomap_ok (ieMetadata e) \<Longrightarrow> metas_ok (AList.update k e m)"
  by (auto simp: metas_ok_def in_set_update_iff)

lemma metas_ok_delete: "metas_ok m \<Longrightarrow> metas_ok (AList.delete k m)"
  by (auto simp: metas_ok_def in_set_delete_iff)

definition kvRecord_of :: "mapKey \<times> kvEntry \<Rightarrow> KeyValue option" where
  "kvRecord_of = (\<lambda>((ns, key), e). Some (kvToPB ns key e))"

definition instRecord_of :: "svcKey \<times> instEntry \<Rightarrow> Instance option" where
  "instRecord_of = (\<lambda>((ns, service, iid), e). Some (instToPB ns service iid e))"

lemma update_fresh: "k \<notin> fst ` set m \<Longrightarrow> AList.update k v m = m @ [(k, v)]"
  by (induction m) auto

lemma restoreKVs_export:
  "distinct (map fst (acc @ m)) \<Longrightarrow> restoreKVs (map kvRecord_of m) acc = Inr (acc @ m)"
proof (induction m arbitrary: acc)
  case Nil
  then show ?case by simp
next
  case (Cons p m)
  obtain ns key e where p: "p = ((ns, key), e)" by (metis surj_pair)
  have "(ns, key) \<notin> fst ` set acc"
    using Cons.prems p by auto
  with Cons p show ?case
    by (simp add: kvRecord_of_def kvToPB_def update_fresh)
qed

lemma restoreInstances_export:
  "distinct (map fst (acc @ m)) \<Longrightarrow> metas_ok m \<Longrightarrow>
    restoreInstances (map instRecord_of m) acc = Inr (acc @ m)"
proof (induction m arbitrary: acc)
  case Nil
  then show ?case by simp
next
  case (Cons p m)
  obtain ns service iid e where p: "p = ((ns, service, iid), e)" by (metis surj_pair)
  have "(ns, service, iid) \<notin> fst ` set acc"
    using Cons.prems p by auto
  moreover have "gomap_ok (ieMetadata e)" "metas_ok m" using Cons.prems p by (auto simp: metas_ok_def)
  ultimately show ?case
    using Cons p by (simp add: instRecord_of_def instToPB_def update_fresh cloneMap_id)
qed

lemma ExportSnapshot_records: "ExportSnapshot s = \<lparr>snapRevision = rev s,
     snapKVs = map kvRecord_of (kvs s), snapInstances = map instRecord_of (instances s)\<rparr>"
  by (simp add: ExportSnapshot_def kvRecord_of_def instRecord_of_def)

lemma proto_export_id: "SnapshotFromProto (SnapshotToProto (ExportSnapshot s)) = ExportSnapshot s"
  by (auto simp: SnapshotFromProto_def SnapshotToProto_def ExportSnapshot_def split: prod.splits)

text \<open>The store a restore builds from an exported snapshot, on any receiving store.\<close>

definition restored :: "Store \<Rightarrow> Store \<Rightarrow> Store" where
  "restored s t = t\<lparr>kvs := kvs s, instances := instances s, rev := rev s, sub := 0,
     history := Map.empty, head := 0, count := 0,
     baselineSeq := add64 (mul64 (rev s) subLimit) (subLimit - 1)\<rparr>"

lemma RestoreSnapshot_export:
  assumes "gomap_ok (kvs s)" and "gomap_ok (instances s)" and "metadata_ok s" and "rev t \<le> rev s"
  shows "RestoreSnapshot (ExportSnapshot s) t = Inr (restored s t)"
  using assms restoreKVs_export [of "[]" "kvs s"] restoreInstances_export [of "[]" "instances s"]
  by (simp add: RestoreSnapshot_def ExportSnapshot_records restored_def)

lemma restoreKVs_panic: "restoreKVs kvl m = Inl p \<longleftrightarrow> p = PanicNilDeref \<and> None \<in> set kvl"
  by (induction kvl m rule: restoreKVs.induct) auto

lemma restoreInstances_panic: "restoreInstances ins m = Inl p \<longleftrightarrow> p = PanicNilDeref \<and> None \<in> set ins"
  by (induction ins m rule: restoreInstances.induct) auto

lemma gomap_ok_restoreKVs: "restoreKVs kvl m = Inr m' \<Longrightarrow> gomap_ok m \<Longrightarrow> gomap_ok m'"
  by (induction kvl m rule: restoreKVs.induct) (auto intro: distinct_update)

lemma gomap_ok_restoreInstances: "restoreInstances ins m = Inr m' \<Longrightarrow> gomap_ok m \<Longrightarrow> gomap_ok m'"
  by (induction ins m rule: restoreInstances.induct) (auto intro: distinct_update)

lemma restoreInstances_metadata:
  "restoreInstances ins m = Inr m' \<Longrightarrow> gomap_ok m \<Longrightarrow> metas_ok m \<Longrightarrow> metas_ok m'"
  by (induction ins m rule: restoreInstances.induct) (simp_all add: metas_ok_update distinct_update)

lemma mset_map_preimage: "mset ys = image_mset f M \<Longrightarrow> \<exists>xs. mset xs = M \<and> map f xs = ys"
proof (induction ys arbitrary: M)
  case Nil
  then show ?case by simp
next
  case (Cons y ys)
  then obtain x N where "M = add_mset x N" "f x = y" "mset ys = image_mset f N"
    by (metis msed_map_invR mset.simps(2))
  with Cons.IH [of N] show ?case
    by (metis list.simps(9) mset.simps(2))
qed

text \<open>A snapshot whose records come in another order, as another walk over the maps gives it,
  restores the same maps.\<close>

lemma restoreKVs_perm:
  assumes "gomap_ok m" and "mset kvl = mset (map kvRecord_of m)"
  shows "\<exists>m'. restoreKVs kvl [] = Inr m' \<and> gomap_ok m' \<and> map_of m' = map_of m"
proof -
  obtain m2 where m2: "mset m2 = mset m" "kvl = map kvRecord_of m2"
    using mset_map_preimage [of kvl kvRecord_of "mset m"] assms(2) by auto
  then have "gomap_ok m2" using assms(1) by (metis mset_eq_imp_distinct_iff mset_map)
  with m2 assms(1) restoreKVs_export [of "[]" m2] map_of_eq_perm [of m2 m] show ?thesis by simp
qed

end
