(* ===== verification/Applier.thy ===== *)
theory Applier
  imports Snapshots
begin

text \<open>
  The interface between replication and state machine (\<open>internal/repl/repl.go\<close>): the Go
  interface \<open>Applier\<close> is a record of operations over a state, \<open>StoreApplier\<close> is the record
  that calls the store, and \<open>applyOne\<close> dispatches a log entry. \<open>now\<close> is the clock reading of
  the operations that consult the clock.

  The locale \<open>applier\<close> states what the leader and the followers rely on: an entry that fits
  applies without panic and moves the applied index to the index of the entry.
\<close>

subsection \<open>The interface and its implementation\<close>

record 'st Applier =
  AppliedIndex :: "'st \<Rightarrow> int64"
  apPut :: "int64 \<Rightarrow> int64 \<Rightarrow> PutOp \<Rightarrow> 'st \<Rightarrow> ('st \<times> (store_error + KeyValue)) go"
  apDelete :: "int64 \<Rightarrow> int64 \<Rightarrow> DeleteOp \<Rightarrow> 'st \<Rightarrow> ('st \<times> (store_error + bool)) go"
  apRegister :: "int64 \<Rightarrow> RegisterOp \<Rightarrow> 'st \<Rightarrow> ('st \<times> Instance) go"
  apHeartbeat :: "int64 \<Rightarrow> int64 \<Rightarrow> HeartbeatOp \<Rightarrow> 'st \<Rightarrow> ('st \<times> (store_error + Instance)) go"
  apExpireKeys :: "int64 \<Rightarrow> ExpireKey list \<Rightarrow> 'st \<Rightarrow> 'st go"
  apExpireServices :: "int64 \<Rightarrow> ExpireService list \<Rightarrow> 'st \<Rightarrow> 'st go"
  apSnapshot :: "PbSnapshot option \<Rightarrow> 'st \<Rightarrow> 'st go"

definition ApplySnapshot :: "PbSnapshot option \<Rightarrow> Store \<Rightarrow> Store go" where
  "ApplySnapshot snap s = (case snap of None \<Rightarrow> Inl PanicNilDeref
     | Some p \<Rightarrow> RestoreSnapshot (SnapshotFromProto p) s)"

definition StoreApplier :: "Store Applier" where
  "StoreApplier = \<lparr>AppliedIndex = AppliedRevision, apPut = ApplyPut, apDelete = ApplyDelete,
     apRegister = ApplyRegister, apHeartbeat = ApplyHeartbeat, apExpireKeys = ApplyExpireKeys,
     apExpireServices = ApplyExpireServices, apSnapshot = ApplySnapshot\<rparr>"

record Outcome =
  ocKV :: "KeyValue option"
  ocInst :: "Instance option"
  ocFound :: bool
  ocErr :: "store_error option"

definition noOutcome :: Outcome where
  "noOutcome = \<lparr>ocKV = None, ocInst = None, ocFound = False, ocErr = None\<rparr>"

definition putOutcome :: "store_error + KeyValue \<Rightarrow> Outcome" where
  "putOutcome r = (case r of Inl err \<Rightarrow> noOutcome\<lparr>ocErr := Some err\<rparr>
     | Inr kv \<Rightarrow> noOutcome\<lparr>ocKV := Some kv\<rparr>)"

definition deleteOutcome :: "store_error + bool \<Rightarrow> Outcome" where
  "deleteOutcome r = (case r of Inl err \<Rightarrow> noOutcome\<lparr>ocErr := Some err\<rparr>
     | Inr found \<Rightarrow> noOutcome\<lparr>ocFound := found\<rparr>)"

definition heartbeatOutcome :: "store_error + Instance \<Rightarrow> Outcome" where
  "heartbeatOutcome r = (case r of Inl err \<Rightarrow> noOutcome\<lparr>ocErr := Some err\<rparr>
     | Inr i \<Rightarrow> noOutcome\<lparr>ocInst := Some i\<rparr>)"

definition applyOne :: "'st Applier \<Rightarrow> int64 \<Rightarrow> LogEntry \<Rightarrow> 'st \<Rightarrow> ('st \<times> Outcome) go" where
  "applyOne a now e s =
    (case leOp e of
       None \<Rightarrow> Inr (s, noOutcome)
     | Some (LogEntry_Put op) \<Rightarrow>
         go_bind (apPut a now (leIndex e) op s) (\<lambda>(s', r). Inr (s', putOutcome r))
     | Some (LogEntry_Delete op) \<Rightarrow>
         go_bind (apDelete a now (leIndex e) op s) (\<lambda>(s', r). Inr (s', deleteOutcome r))
     | Some (LogEntry_Register op) \<Rightarrow>
         go_bind (apRegister a (leIndex e) op s) (\<lambda>(s', i). Inr (s', noOutcome\<lparr>ocInst := Some i\<rparr>))
     | Some (LogEntry_Heartbeat op) \<Rightarrow>
         go_bind (apHeartbeat a now (leIndex e) op s) (\<lambda>(s', r). Inr (s', heartbeatOutcome r))
     | Some (LogEntry_ExpireKeys items) \<Rightarrow>
         go_bind (apExpireKeys a (leIndex e) items s) (\<lambda>s'. Inr (s', noOutcome))
     | Some (LogEntry_ExpireServices items) \<Rightarrow>
         go_bind (apExpireServices a (leIndex e) items s) (\<lambda>s'. Inr (s', noOutcome)))"

subsection \<open>Cluster configuration\<close>

record Config =
  cfgNodeID :: int32
  cfgLeaderID :: int32
  cfgNodeAddrs :: "(int32, string) gomap"
  cfgBatchWindow :: int64

definition Quorum :: "int \<Rightarrow> int" where
  "Quorum n = go_div n 2 + 1"

text \<open>Two quorums of a cluster share a node.\<close>

lemma Quorum_majority: "0 \<le> n \<Longrightarrow> n < 2 * Quorum n \<and> 2 * (Quorum n - 1) \<le> n"
  by (simp add: Quorum_def go_div_nonneg) presburger

lemma quorums_intersect:
  assumes "finite N" and "A \<subseteq> N" and "B \<subseteq> N"
    and "Quorum (int (card N)) \<le> int (card A)" and "Quorum (int (card N)) \<le> int (card B)"
  shows "A \<inter> B \<noteq> {}"
proof
  assume disjoint: "A \<inter> B = {}"
  have fin: "finite A" "finite B" using assms finite_subset by blast+
  then have "card A + card B = card (A \<union> B)"
    using disjoint by (simp add: card_Un_disjoint)
  also have "\<dots> \<le> card N" using assms by (intro card_mono) auto
  finally have "card A + card B \<le> card N" .
  then show False using Quorum_majority [of "int (card N)"] assms(4,5) by linarith
qed

subsection \<open>Interface: an applier\<close>

text \<open>Entries that follow the index \<open>n\<close> without a gap.\<close>

fun consecutive :: "int64 \<Rightarrow> LogEntry list \<Rightarrow> bool" where
  "consecutive n [] = True"
| "consecutive n (e # es) = (leIndex e = n + 1 \<and> consecutive (n + 1) es)"

lemma consecutive_append [simp]:
  "consecutive n (xs @ ys) = (consecutive n xs \<and> consecutive (n + int (length xs)) ys)"
  by (induction xs arbitrary: n) (simp_all add: algebra_simps)

lemma consecutive_nth: "consecutive n es \<Longrightarrow> i < length es \<Longrightarrow> leIndex (es ! i) = n + 1 + int i"
proof (induction es arbitrary: n i)
  case Nil
  then show ?case by simp
next
  case (Cons e es)
  then show ?case by (cases i) (auto simp: algebra_simps)
qed

lemma consecutive_drop: "consecutive n es \<Longrightarrow> k \<le> length es \<Longrightarrow> consecutive (n + int k) (drop k es)"
  by (metis append_take_drop_id consecutive_append length_take min.absorb2)

text \<open>Entries in log order, each applied at its own clock reading.\<close>

fun apply_all :: "'st Applier \<Rightarrow> (int64 \<times> LogEntry) list \<Rightarrow> 'st \<Rightarrow> ('st \<times> Outcome list) go" where
  "apply_all ap [] s = Inr (s, [])"
| "apply_all ap ((now, e) # es) s =
    go_bind (applyOne ap now e s) (\<lambda>(s', r).
      go_bind (apply_all ap es s') (\<lambda>(s'', rs). Inr (s'', r # rs)))"

lemma apply_all_append:
  "apply_all ap (xs @ ys) s = go_bind (apply_all ap xs s) (\<lambda>(s', rs).
     go_bind (apply_all ap ys s') (\<lambda>(s'', rs'). Inr (s'', rs @ rs')))"
proof (induction xs arbitrary: s)
  case Nil
  show ?case by (cases "apply_all ap ys s") auto
next
  case (Cons p xs)
  obtain now e where p: "p = (now, e)" by (cases p)
  show ?case
  proof (cases "applyOne ap now e s")
    case (Inr q)
    obtain s1 r where q: "q = (s1, r)" by (cases q)
    show ?thesis
    proof (cases "apply_all ap xs s1")
      case (Inr q')
      obtain s2 rs where q': "q' = (s2, rs)" by (cases q')
      show ?thesis
        using Cons.IH [of s1] \<open>applyOne ap now e s = Inr q\<close> Inr
        by (cases "apply_all ap ys s2") (auto simp: p q q')
    qed (use Cons.IH [of s1] Inr p q in simp)
  qed (simp add: p)
qed

locale applier =
  fixes ap :: "'st Applier"
    and ok :: "'st \<Rightarrow> bool"
    and fits :: "LogEntry \<Rightarrow> bool"
  assumes applies: "ok s \<Longrightarrow> fits e \<Longrightarrow> leIndex e = AppliedIndex ap s + 1 \<Longrightarrow>
    \<exists>s' r. applyOne ap now e s = Inr (s', r) \<and> ok s' \<and> AppliedIndex ap s' = leIndex e"
begin

lemma apply_all_ok:
  assumes "ok s" and "\<forall>e\<in>set (map snd es). fits e"
    and "consecutive (AppliedIndex ap s) (map snd es)"
  shows "\<exists>s' rs. apply_all ap es s = Inr (s', rs) \<and> ok s' \<and> length rs = length es
    \<and> AppliedIndex ap s' = AppliedIndex ap s + int (length es)"
  using assms
proof (induction es arbitrary: s)
  case Nil
  then show ?case by simp
next
  case (Cons p es)
  obtain now e where p: "p = (now, e)" by (cases p)
  have idx: "leIndex e = AppliedIndex ap s + 1"
    using Cons.prems(3) p by simp
  obtain s1 r where step: "applyOne ap now e s = Inr (s1, r)" "ok s1" "AppliedIndex ap s1 = leIndex e"
    using applies [OF Cons.prems(1) _ idx] Cons.prems(2) p by fastforce
  have "consecutive (AppliedIndex ap s1) (map snd es)"
    using Cons.prems(3) step idx p by simp
  with Cons.IH [OF step(2)] Cons.prems(2) step p idx show ?case by fastforce
qed

end

end
