(* ===== verification/Watch.thy ===== *)
theory Watch
  imports Fanout
begin

text \<open>
  Subscriptions to KV changes: \<open>WatchKV\<close>, \<open>KVWatcherChan\<close> and \<open>CloseKVWatcher\<close> of
  \<open>store.go\<close>.

  The guarantee of a subscription is stated over the list of all events: what the backlog and
  the channel hand out, followed by what a new subscription from the last delivered cursor
  returns, is the list of matching events after the start cursor, without gaps and without
  duplicates. \<open>stream_from\<close> is that list.
\<close>

subsection \<open>The operations\<close>

text \<open>The copy loop of \<open>WatchKV\<close>, over the ring positions \<open>i = 0, ..., count - 1\<close>.\<close>

fun backlog_loop :: "string \<Rightarrow> string \<Rightarrow> int64 \<Rightarrow> Store \<Rightarrow> nat list \<Rightarrow> WatchEvent list go" where
  "backlog_loop ns key fromSeq s [] = Inr []"
| "backlog_loop ns key fromSeq s (i # is) =
    (case history s ((head s + i) mod historyCapacity) of
       None \<Rightarrow> Inl PanicNilDeref
     | Some ev \<Rightarrow>
         go_bind (backlog_loop ns key fromSeq s is) (\<lambda>rest.
           Inr (if evSeq ev > fromSeq \<and> matchKV ns key ev
                then \<lparr>weKind = evKind ev, weKv = cloneKV (evKV ev), weRevision = evSeq ev,
                      weClusterRevision = 0\<rparr> # rest
                else rest)))"

definition WatchKV ::
  "string \<Rightarrow> string \<Rightarrow> int64 \<Rightarrow> Store \<Rightarrow> (Store \<times> (store_error + int64 \<times> WatchEvent list)) go" where
  "WatchKV ns key fromSeq s =
    go_bind
      (if fromSeq > 0
       then go_bind (if count s > 0 then go_bind (oldestSeq s) (\<lambda>q. Inr (sub64 q 1))
                     else Inr (baselineSeq s))
              (\<lambda>horizon. Inr (fromSeq < horizon))
       else Inr False)
      (\<lambda>compacted.
        if compacted then Inr (s, Inl ErrRevisionCompacted)
        else go_bind (backlog_loop ns key fromSeq s [0..<count s]) (\<lambda>backlog.
          let wid = add64 (watcherSeq s) 1;
              w = \<lparr>kwNs = ns, kwKey = key, kwCh = wid\<rparr>
          in Inr (s\<lparr>watcherSeq := wid, kvChans := (kvChans s)(wid \<mapsto> make_chan watcherBuffer),
                     kvWatchers := AList.update wid w (kvWatchers s)\<rparr>,
                  Inr (wid, backlog))))"

definition KVWatcherChan :: "int64 \<Rightarrow> Store \<Rightarrow> chan_ref option" where
  "KVWatcherChan i s = map_option kwCh (map_of (kvWatchers s) i)"

definition CloseKVWatcher :: "int64 \<Rightarrow> Store \<Rightarrow> Store go" where
  "CloseKVWatcher i s =
    go_bind (close_sub kwCh i (kvWatchers s, kvChans s))
      (\<lambda>(W, H). Inr (s\<lparr>kvWatchers := W, kvChans := H\<rparr>))"

subsection \<open>WatchKV in one piece\<close>

definition stream_from :: "string \<Rightarrow> string \<Rightarrow> int64 \<Rightarrow> Event list \<Rightarrow> WatchEvent list" where
  "stream_from ns key c evs = map toWatchEvent (filter (\<lambda>ev. c < evSeq ev \<and> matchKV ns key ev) evs)"

definition horizon :: "Store \<Rightarrow> int64" where
  "horizon s = (case hist_list s of [] \<Rightarrow> baselineSeq s | e # _ \<Rightarrow> sub64 (evSeq e) 1)"

definition registered :: "string \<Rightarrow> string \<Rightarrow> Store \<Rightarrow> Store" where
  "registered ns key s =
    (let wid = add64 (watcherSeq s) 1
     in s\<lparr>watcherSeq := wid, kvChans := (kvChans s)(wid \<mapsto> make_chan watcherBuffer),
          kvWatchers := AList.update wid \<lparr>kwNs = ns, kwKey = key, kwCh = wid\<rparr> (kvWatchers s)\<rparr>)"

lemma watcher_matches_matchKV: "watcher_matches w (evKV ev) = matchKV (kwNs w) (kwKey w) ev"
  by (auto simp: watcher_matches_def matchKV_def)

lemma backlog_loop_ok:
  assumes "\<forall>i\<in>set is. history s ((head s + i) mod historyCapacity) \<noteq> None"
  shows "backlog_loop ns key c s is =
    Inr (stream_from ns key c (map (\<lambda>i. the (history s ((head s + i) mod historyCapacity))) is))"
  using assms by (induction "is") (auto simp: stream_from_def toWatchEvent_def)

theorem WatchKV_ok:
  assumes "hist_ok s"
  shows "WatchKV ns key c s =
    Inr (if 0 < c \<and> c < horizon s then (s, Inl ErrRevisionCompacted)
         else (registered ns key s,
               Inr (add64 (watcherSeq s) 1, stream_from ns key c (hist_list s))))"
proof -
  have log: "backlog_loop ns key c s [0..<count s] = Inr (stream_from ns key c (hist_list s))"
    using assms by (subst backlog_loop_ok) (auto simp: ring_ok_def ring_list_def)
  have hor: "(if count s > 0 then go_bind (oldestSeq s) (\<lambda>q. Inr (sub64 q 1)) else Inr (baselineSeq s))
      = Inr (horizon s)"
    using assms
    by (cases "hist_list s") (auto simp: horizon_def oldestSeq_ok dest: arg_cong [where f = length])
  show ?thesis
    unfolding WatchKV_def hor log
    by (simp add: registered_def Let_def)
qed

lemma watchers_ok_registered:
  assumes "watchers_ok s" and "is_int64 (watcherSeq s + 1)"
  shows "watchers_ok (registered ns key s)"
  using subs_ok_register [OF assms(1), of "watcherSeq s + 1" "\<lparr>kwNs = ns, kwKey = key, kwCh = watcherSeq s + 1\<rparr>"]
  by (simp add: registered_def Let_def add64_def wrap64_id assms(2))

lemma CloseKVWatcher_ok:
  assumes "watchers_ok s"
  shows "\<exists>s'. CloseKVWatcher i s = Inr s' \<and> watchers_ok s' \<and> map_of (kvWatchers s') i = None"
proof -
  obtain W H where close: "close_sub kwCh i (kvWatchers s, kvChans s) = Inr (W, H)"
    using close_sub_ok [OF assms, of i] by simp
  moreover have "W = AList.delete i (kvWatchers s)"
    using close close_sub_ok [OF assms, of i] by simp
  ultimately show ?thesis
    using subs_ok_close [OF assms close]
    by (simp add: CloseKVWatcher_def map_of_AList_delete)
qed

subsection \<open>What a subscriber receives\<close>

text \<open>
  Several log entries in a row push their events one after the other, \<open>fold push evs\<close>. A
  watcher gets the matching ones in order, as many as fit; when the buffer overflows the
  channel is closed and the watcher is gone.
\<close>

definition events_for :: "kvWatcher \<Rightarrow> Event list \<Rightarrow> WatchEvent list" where
  "events_for w evs = map toWatchEvent (filter (\<lambda>ev. watcher_matches w (evKV ev)) evs)"

lemma push_frame [simp]:
  "watcherSeq (push ev s) = watcherSeq s"
  "baselineSeq (push ev s) = baselineSeq s"
  by (simp_all add: push_def)

lemma push_watchers:
  "kvWatchers (push ev s) = filter (stays (event_message ev) (kvChans s)) (kvWatchers s)"
  "kvChans (push ev s) = heap_after (event_message ev) (kvWatchers s) (kvChans s)"
  by (simp_all add: push_def deliver_def)

lemma watchers_ok_push: "watchers_ok s \<Longrightarrow> watchers_ok (push ev s)"
  by (simp add: push_watchers subs_ok_broadcast)

lemma hist_ok_push: "hist_ok s \<Longrightarrow> hist_ok (push ev s)"
  by (simp add: push_def hist_ok_append)

lemma hist_list_pushes:
  "hist_ok s \<Longrightarrow> hist_list (fold push evs s) = last_n historyCapacity (hist_list s @ evs)
     \<and> hist_ok (fold push evs s)"
proof (induction evs arbitrary: s)
  case Nil
  then show ?case by (simp add: last_n_short hist_ok_count)
next
  case (Cons ev evs)
  have "hist_list (push ev s) = last_n historyCapacity (hist_list s @ [ev])"
    using Cons.prems by (simp add: push_def hist_list_append)
  with Cons.IH [of "push ev s"] Cons.prems show ?case
    using last_n_absorb [of historyCapacity "hist_list s @ [ev]" evs] by (simp add: hist_ok_push)
qed

lemma pushes_unsubscribed:
  "map_of (kvWatchers s) i = None \<Longrightarrow>
    map_of (kvWatchers (fold push evs s)) i = None \<and> kvChans (fold push evs s) i = kvChans s i"
proof (induction evs arbitrary: s)
  case Nil
  then show ?case by simp
next
  case (Cons ev evs)
  have "map_of (kvWatchers (push ev s)) i = None"
    using Cons.prems by (auto simp: push_watchers map_of_eq_None_iff)
  moreover have "kvChans (push ev s) i = kvChans s i"
    using Cons.prems by (simp add: push_watchers heap_after_def)
  ultimately show ?case using Cons.IH by simp
qed

lemma map_of_filter_key:
  assumes "gomap_ok m" and "map_of m i = Some w"
  shows "map_of (filter P m) i = (if P (i, w) then Some w else None)"
  using assms
  by (induction m) (auto simp: map_of_eq_None_iff image_iff dest: map_of_SomeD)

theorem pushes_subscribed:
  assumes "watchers_ok s" and "map_of (kvWatchers s) i = Some w" and "kvChans s i = Some c"
  shows "if length (chBuf c) + length (events_for w evs) \<le> watcherBuffer
     then map_of (kvWatchers (fold push evs s)) i = Some w
       \<and> kvChans (fold push evs s) i = Some (c\<lparr>chBuf := chBuf c @ events_for w evs\<rparr>)
     else map_of (kvWatchers (fold push evs s)) i = None
       \<and> kvChans (fold push evs s) i = Some (c\<lparr>chBuf := chBuf c
             @ take (watcherBuffer - length (chBuf c)) (events_for w evs), chClosed := True\<rparr>)"
  using assms
proof (induction evs arbitrary: s c)
  case Nil
  from subs_okD(2) [OF Nil.prems(1,2)] Nil.prems show ?case
    by (auto simp: events_for_def chan_live_def)
next
  case (Cons ev evs)
  have live: "chCap c = watcherBuffer" "\<not> chClosed c" "length (chBuf c) \<le> watcherBuffer"
    using subs_okD(2) [OF Cons.prems(1,2)] Cons.prems(3) by (auto simp: chan_live_def)
  have tab: "map_of (kvWatchers (push ev s)) i
      = (if stays (event_message ev) (kvChans s) (i, w) then Some w else None)"
    using Cons.prems(1,2) by (simp add: push_watchers map_of_filter_key subs_ok_def)
  have chan: "kvChans (push ev s) i = Some (chan_after (event_message ev w) c)"
    using Cons.prems(2,3) by (simp add: push_watchers heap_after_def)
  consider (skip) "\<not> watcher_matches w (evKV ev)"
    | (room) "watcher_matches w (evKV ev)" "length (chBuf c) < watcherBuffer"
    | (full) "watcher_matches w (evKV ev)" "length (chBuf c) = watcherBuffer"
    using live(3) by linarith
  then show ?case
  proof cases
    case skip
    then have "map_of (kvWatchers (push ev s)) i = Some w" "kvChans (push ev s) i = Some c"
      using tab chan by (simp_all add: stays_def event_message_def)
    from Cons.IH [OF watchers_ok_push [OF Cons.prems(1)] this] skip show ?thesis
      by (simp add: events_for_def)
  next
    case room
    then have "map_of (kvWatchers (push ev s)) i = Some w"
      "kvChans (push ev s) i = Some (c\<lparr>chBuf := chBuf c @ [toWatchEvent ev]\<rparr>)"
      using tab chan live Cons.prems(3) by (simp_all add: stays_def event_message_def)
    from Cons.IH [OF watchers_ok_push [OF Cons.prems(1)] this] room show ?thesis
      by (auto simp: events_for_def take_Cons' Suc_diff_Suc)
  next
    case full
    then have "map_of (kvWatchers (push ev s)) i = None"
      "kvChans (push ev s) i = Some (c\<lparr>chClosed := True\<rparr>)"
      using tab chan live Cons.prems(3) by (simp_all add: stays_def event_message_def)
    with pushes_unsubscribed [of "push ev s" i evs] full show ?thesis
      by (simp add: events_for_def)
  qed
qed

subsection \<open>Resuming a subscription\<close>

text \<open>
  A subscriber and the store interleave: the store publishes events, the goroutine of the
  stream takes what is buffered. \<open>got\<close> is what has been taken so far.
\<close>

datatype watch_act = Publish Event | Receive

fun watch_step :: "chan_ref \<Rightarrow> watch_act \<Rightarrow> Store \<times> WatchEvent list \<Rightarrow> Store \<times> WatchEvent list" where
  "watch_step i (Publish ev) (s, got) = (push ev s, got)"
| "watch_step i Receive (s, got) =
    (case kvChans s i of None \<Rightarrow> (s, got)
     | Some c \<Rightarrow> (case try_recv c of
         Received x c' \<Rightarrow> (s\<lparr>kvChans := (kvChans s)(i \<mapsto> c')\<rparr>, got @ [x])
       | _ \<Rightarrow> (s, got)))"

fun published :: "watch_act list \<Rightarrow> Event list" where
  "published [] = []"
| "published (Publish ev # as) = ev # published as"
| "published (Receive # as) = published as"

definition watch_inv :: "int64 \<Rightarrow> kvWatcher \<Rightarrow> WatchEvent list \<Rightarrow> Store \<times> WatchEvent list \<Rightarrow> bool" where
  "watch_inv i w sent = (\<lambda>(s, got). watchers_ok s \<and> hist_ok s \<and> kwCh w = i \<and>
     (\<exists>c. kvChans s i = Some c \<and>
       (if map_of (kvWatchers s) i = Some w then got @ chBuf c = sent
        else map_of (kvWatchers s) i = None \<and> chClosed c \<and> (\<exists>rest. got @ chBuf c @ rest = sent))))"

lemma watchers_ok_recv:
  assumes ok: "watchers_ok s" and c: "kvChans s i = Some c" and buf: "chBuf c = x # xs"
  shows "watchers_ok (s\<lparr>kvChans := (kvChans s)(i \<mapsto> c\<lparr>chBuf := xs\<rparr>)\<rparr>)"
  using assms by (fastforce simp: subs_ok_def chan_live_def)

lemma stays_matches: "\<not> watcher_matches w (evKV ev) \<Longrightarrow> stays (event_message ev) H (i, w)"
  by (simp add: stays_def event_message_def)

lemma watch_inv_publish:
  assumes inv: "watch_inv i w sent (s, got)"
  shows "watch_inv i w (sent @ events_for w [ev]) (push ev s, got)"
proof -
  obtain c where ok: "watchers_ok s" "hist_ok s" "kwCh w = i" and c: "kvChans s i = Some c"
    and cases: "if map_of (kvWatchers s) i = Some w then got @ chBuf c = sent
        else map_of (kvWatchers s) i = None \<and> chClosed c \<and> (\<exists>rest. got @ chBuf c @ rest = sent)"
    using inv by (auto simp: watch_inv_def)
  note pushed = watchers_ok_push [OF ok(1), of ev] hist_ok_push [OF ok(2), of ev]
  have "\<exists>rest. take n xs @ rest = xs" for n and xs :: "WatchEvent list"
    by (metis append_take_drop_id)
  show ?thesis
  proof (cases "map_of (kvWatchers s) i = Some w")
    case True
    with pushes_subscribed [OF ok(1) True c, of "[ev]"] cases ok(3) pushed \<open>\<And>xs n. \<exists>rest. take n xs @ rest = xs\<close>
    show ?thesis
      by (auto simp: watch_inv_def split: if_splits)
  next
    case False
    with cases have "map_of (kvWatchers s) i = None" by simp
    with pushes_unsubscribed [OF this, of "[ev]"] cases ok(3) c pushed show ?thesis
      by (auto simp: watch_inv_def)
  qed
qed

lemma watch_inv_receive:
  assumes inv: "watch_inv i w sent (s, got)"
  shows "watch_inv i w sent (watch_step i Receive (s, got))"
proof -
  obtain c where ok: "watchers_ok s" "hist_ok s" "kwCh w = i" and c: "kvChans s i = Some c"
    using inv by (auto simp: watch_inv_def)
  show ?thesis
  proof (cases "chBuf c")
    case Nil
    with inv c show ?thesis by (simp add: try_recv_def)
  next
    case (Cons x xs)
    with inv c watchers_ok_recv [OF ok(1) c Cons] show ?thesis
      by (auto simp: try_recv_def watch_inv_def)
  qed
qed

lemma watch_inv_run:
  "watch_inv i w sent st \<Longrightarrow> watch_inv i w (sent @ events_for w (published as)) (fold (watch_step i) as st)"
proof (induction as arbitrary: sent st)
  case Nil
  then show ?case by (simp add: events_for_def)
next
  case (Cons a as)
  obtain s got where st: "st = (s, got)" by (cases st)
  show ?case
  proof (cases a)
    case (Publish ev)
    have "watch_inv i w (sent @ events_for w [ev]) (push ev s, got)"
      using Cons.prems st by (simp add: watch_inv_publish)
    from Cons.IH [OF this] show ?thesis
      by (cases "watcher_matches w (evKV ev)") (simp_all add: Publish st events_for_def)
  next
    case Receive
    have "watch_inv i w sent (watch_step i Receive (s, got))"
      using Cons.prems st by (intro watch_inv_receive) simp
    from Cons.IH [OF this] show ?thesis by (simp add: Receive st)
  qed
qed

text \<open>In a list of strictly increasing cursors, what follows the last delivered one is the rest.\<close>

lemma stream_from_Cons: "stream_from ns key c (ev # evs) =
    (if c < evSeq ev \<and> matchKV ns key ev then toWatchEvent ev # stream_from ns key c evs
     else stream_from ns key c evs)"
  by (simp add: stream_from_def)

lemma stream_from_above: "\<forall>ev\<in>set evs. c < evSeq ev \<and> d < evSeq ev \<Longrightarrow>
    stream_from ns key c evs = stream_from ns key d evs"
  by (induction evs) (auto simp: stream_from_Cons, auto simp: stream_from_def)

lemma stream_resume:
  assumes "sorted_wrt (<) (map evSeq evs)" and "got @ rest = stream_from ns key f evs" and "got \<noteq> []"
  shows "stream_from ns key (weRevision (last got)) evs = rest"
  using assms
proof (induction evs arbitrary: got)
  case Nil
  then show ?case by (simp add: stream_from_def)
next
  case (Cons ev evs)
  have later: "\<forall>x\<in>set evs. evSeq ev < evSeq x" using Cons.prems(1) by simp
  have lower: "evSeq ev \<le> weRevision (last got)" if "got' @ rest' = stream_from ns key f evs"
    "got' \<noteq> []" "last got' = last got" for got' rest'
  proof -
    have "last got \<in> set (stream_from ns key f evs)"
      using that by (metis Un_iff last_in_set set_append)
    then show ?thesis using later by (force simp: stream_from_def toWatchEvent_def)
  qed
  show ?case
  proof (cases "f < evSeq ev \<and> matchKV ns key ev")
    case False
    then have st: "got @ rest = stream_from ns key f evs"
      using Cons.prems(2) by (auto simp: stream_from_Cons)
    with Cons.IH [OF _ st Cons.prems(3)] lower [OF st Cons.prems(3)] Cons.prems(1) show ?thesis
      by (auto simp: stream_from_Cons)
  next
    case True
    then obtain got' where got: "got = toWatchEvent ev # got'" and st: "got' @ rest = stream_from ns key f evs"
      using Cons.prems by (cases got) (auto simp: stream_from_Cons)
    show ?thesis
    proof (cases "got' = []")
      case True
      have "stream_from ns key (evSeq ev) evs = stream_from ns key f evs"
        using later \<open>f < evSeq ev \<and> _\<close> by (intro stream_from_above) auto
      with True got st show ?thesis
        by (simp add: stream_from_Cons toWatchEvent_def)
    next
      case False
      with Cons.IH [OF _ st False] lower [OF st False] Cons.prems(1) got show ?thesis
        by (auto simp: stream_from_Cons)
    qed
  qed
qed

text \<open>A cursor at or above the horizon has everything after it still in the ring.\<close>

lemma stream_from_retained:
  assumes "sorted_wrt (<) (map evSeq evs)" and "\<forall>ev\<in>set evs. 0 < evSeq ev \<and> is_int64 (evSeq ev)"
    and "kept = last_n historyCapacity evs" and "kept \<noteq> []" and "sub64 (evSeq (hd kept)) 1 \<le> c"
  shows "stream_from ns key c kept = stream_from ns key c evs"
proof -
  obtain lost where evs: "evs = lost @ kept"
    using last_n_suffix assms(3) by blast
  obtain e kept' where kept: "kept = e # kept'" using assms(4) by (cases kept) auto
  have "is_int64 (evSeq e - 1)"
    using assms(2) evs kept by (auto simp: is_int64_def)
  then have "evSeq e - 1 \<le> c"
    using assms(5) kept by (simp add: sub64_def wrap64_id)
  moreover have "\<forall>x\<in>set lost. evSeq x < evSeq e"
    using assms(1) evs kept by (auto simp: sorted_wrt_append)
  ultimately have "\<forall>x\<in>set lost. \<not> c < evSeq x" by force
  then show ?thesis by (auto simp: stream_from_def evs filter_empty_conv)
qed

subsection \<open>Opening and resuming\<close>

lemma registered_frame [simp]:
  "history (registered ns key s) = history s"
  "head (registered ns key s) = head s"
  "count (registered ns key s) = count s"
  by (simp_all add: registered_def Let_def)

lemma watch_inv_registered:
  assumes "hist_ok s" and "watchers_ok s" and "is_int64 (watcherSeq s + 1)"
  shows "watch_inv (watcherSeq s + 1) \<lparr>kwNs = ns, kwKey = key, kwCh = watcherSeq s + 1\<rparr> got
    (registered ns key s, got)"
  using watchers_ok_registered [OF assms(2,3), of ns key] assms
  by (simp add: watch_inv_def) (simp add: registered_def Let_def add64_def wrap64_id make_chan_def)

lemma events_for_stream: "\<forall>ev\<in>set evs. c < evSeq ev \<Longrightarrow> events_for w evs = stream_from (kwNs w) (kwKey w) c evs"
  by (induction evs) (auto simp: stream_from_def events_for_def watcher_matches_matchKV)

lemma resume_no_gap:
  assumes ok2: "hist_ok s2" and hist2: "hist_list s2 = last_n historyCapacity evs"
    and sorted: "sorted_wrt (<) (map evSeq evs)"
    and range: "\<forall>ev\<in>set evs. 0 < evSeq ev \<and> is_int64 (evSeq ev)"
    and rest: "got @ rest = stream_from ns key from evs" and "got \<noteq> []"
  shows "\<exists>s3 r. WatchKV ns key (weRevision (last got)) s2 = Inr (s3, r)
     \<and> (r = Inl ErrRevisionCompacted \<or> (\<exists>wid'. r = Inr (wid', rest)))"
proof -
  let ?c = "weRevision (last got)"
  have "stream_from ns key from evs \<noteq> []"
    using rest \<open>got \<noteq> []\<close> by auto
  then have "0 < length evs" by (auto simp: stream_from_def)
  then have "0 < length (hist_list s2)"
    unfolding hist2 by (simp only: length_last_n) (simp add: historyCapacity_pos)
  then have nonempty: "hist_list s2 \<noteq> []" by simp
  have "WatchKV ns key ?c s2 = Inr (s2, Inl ErrRevisionCompacted) \<or>
      WatchKV ns key ?c s2 = Inr (registered ns key s2, Inr (add64 (watcherSeq s2) 1, rest))"
  proof (cases "0 < ?c \<and> ?c < horizon s2")
    case True
    then show ?thesis by (simp add: WatchKV_ok [OF ok2])
  next
    case False
    have "last got \<in> set (stream_from ns key from evs)"
      using rest \<open>got \<noteq> []\<close> by (metis Un_iff last_in_set set_append)
    then have "0 < ?c"
      using range by (auto simp: stream_from_def toWatchEvent_def)
    with False nonempty have "sub64 (evSeq (List.hd (hist_list s2))) 1 \<le> ?c"
      by (simp add: horizon_def split: list.splits)
    from stream_from_retained [OF sorted range hist2 nonempty this, of ns key]
      stream_resume [OF sorted rest \<open>got \<noteq> []\<close>]
    have "stream_from ns key ?c (hist_list s2) = rest" by simp
    with False show ?thesis by (auto simp: WatchKV_ok [OF ok2])
  qed
  then show ?thesis by auto
qed

end
