(* ===== verification/StoreMachine.thy ===== *)
theory StoreMachine
  imports Applier Watch
begin

text \<open>
  The store as one state machine. \<open>abs_of\<close> maps a store to what a replica is meant to agree
  on (the two maps, the revision, the retained events), \<open>spec_apply\<close> is the abstract
  transition of a log entry, and \<open>applyOne_refines\<close> shows that the store implements it.
  \<open>store_inv\<close> is the invariant of every store the operations can reach (\<open>reachable\<close>).
\<close>

subsection \<open>The abstract machine\<close>

record AbsStore =
  absKvs :: kv_map
  absInsts :: "svcKey \<rightharpoonup> instEntry"
  absRev :: int64
  absHist :: "Event list"
  absBase :: int64

definition abs_of :: "Store \<Rightarrow> AbsStore" where
  "abs_of s = \<lparr>absKvs = map_of (kvs s), absInsts = map_of (instances s), absRev = rev s,
     absHist = hist_list s, absBase = baselineSeq s\<rparr>"

definition spec_emit :: "pending list \<Rightarrow> AbsStore \<Rightarrow> AbsStore" where
  "spec_emit evs a = a\<lparr>absHist := last_n historyCapacity (absHist a @ number_events 0 evs)\<rparr>"

definition spec_heartbeat ::
  "int64 \<Rightarrow> int64 \<Rightarrow> HeartbeatOp \<Rightarrow> (svcKey \<rightharpoonup> instEntry)
    \<Rightarrow> (svcKey \<rightharpoonup> instEntry) \<times> (store_error + Instance)" where
  "spec_heartbeat now index op m =
    (let k = (hoNamespace op, hoService op, hoInstanceId op)
     in case m k of
          Some e \<Rightarrow>
            if (hoGuardRevision op = 0 \<or> ieRevision e = hoGuardRevision op) \<and> instAlive now e
            then (let e' = e\<lparr>ieExpireAtMs := hoNewExpireAtMs op, ieRevision := index\<rparr>
                  in (m(k \<mapsto> e'), Inr (instToPB (hoNamespace op) (hoService op) (hoInstanceId op) e')))
            else (m, Inl ErrInstanceNotFound)
        | None \<Rightarrow> (m, Inl ErrInstanceNotFound))"

definition spec_apply :: "int64 \<Rightarrow> LogEntry \<Rightarrow> AbsStore \<Rightarrow> AbsStore \<times> Outcome" where
  "spec_apply now e a =
    (let b = a\<lparr>absRev := leIndex e\<rparr>
     in case leOp e of
       None \<Rightarrow> (a, noOutcome)
     | Some (LogEntry_Put op) \<Rightarrow>
         (let (m, evs, r) = spec_put now (leIndex e) op (absKvs a)
          in (spec_emit evs (b\<lparr>absKvs := m\<rparr>), putOutcome r))
     | Some (LogEntry_Delete op) \<Rightarrow>
         (let (m, evs, r) = spec_delete now (leIndex e) op (absKvs a)
          in (spec_emit evs (b\<lparr>absKvs := m\<rparr>), deleteOutcome r))
     | Some (LogEntry_Register op) \<Rightarrow>
         (let n = register_entry (leIndex e) op
          in (b\<lparr>absInsts := (absInsts a)(register_key op \<mapsto> n)\<rparr>,
              noOutcome\<lparr>ocInst := Some (instToPB (roNamespace op) (roService op) (roInstanceId op) n)\<rparr>))
     | Some (LogEntry_Heartbeat op) \<Rightarrow>
         (let (m, r) = spec_heartbeat now (leIndex e) op (absInsts a)
          in (b\<lparr>absInsts := m\<rparr>, heartbeatOutcome r))
     | Some (LogEntry_ExpireKeys items) \<Rightarrow>
         (let (m, evs) = spec_expire (leIndex e) items (absKvs a)
          in (spec_emit evs (b\<lparr>absKvs := m\<rparr>), noOutcome))
     | Some (LogEntry_ExpireServices items) \<Rightarrow>
         (b\<lparr>absInsts := (\<lambda>k. if svc_guarded items (absInsts a) k then None else absInsts a k)\<rparr>,
          noOutcome))"

text \<open>The entries that do not hit the event limit: fewer than \<open>subLimit\<close> keys expire.\<close>

definition within_limit :: "LogEntry \<Rightarrow> Store \<Rightarrow> bool" where
  "within_limit e s = (case leOp e of
     Some (LogEntry_ExpireKeys items) \<Rightarrow> int (length (snd (spec_expire (leIndex e) items (map_of (kvs s))))) < subLimit
   | _ \<Rightarrow> True)"

subsection \<open>Refinement\<close>

definition tables_ok :: "Store \<Rightarrow> bool" where
  "tables_ok s \<longleftrightarrow> gomap_ok (kvs s) \<and> gomap_ok (instances s) \<and> metadata_ok s \<and> hist_ok s
     \<and> watchers_ok s \<and> svc_watchers_ok s"

lemma tables_okD:
  assumes "tables_ok s"
  shows "gomap_ok (kvs s)" "gomap_ok (instances s)" "metadata_ok s" "hist_ok s" "watchers_ok s"
    "svc_watchers_ok s"
  using assms by (simp_all add: tables_ok_def)

lemma emit_all_result:
  assumes "tables_ok s" and "gomap_ok kvs'" and "map_of kvs' = m'"
  shows "tables_ok (emit_all evs (s\<lparr>rev := index, sub := 0, kvs := kvs'\<rparr>))"
    and "abs_of (emit_all evs (s\<lparr>rev := index, sub := 0, kvs := kvs'\<rparr>))
      = spec_emit evs ((abs_of s)\<lparr>absRev := index, absKvs := m'\<rparr>)"
proof -
  let ?s = "s\<lparr>rev := index, sub := 0, kvs := kvs'\<rparr>"
  have "hist_ok ?s" "watchers_ok ?s" using assms(1) by (simp_all add: tables_ok_def)
  from hist_ok_emit_all [OF this(1), of evs] watchers_ok_emit_all [OF this(2), of evs]
    hist_list_emit_all [OF this(1), of evs] assms
  show "tables_ok (emit_all evs ?s)"
    and "abs_of (emit_all evs ?s) = spec_emit evs ((abs_of s)\<lparr>absRev := index, absKvs := m'\<rparr>)"
    by (simp_all add: tables_ok_def abs_of_def spec_emit_def)
qed

lemma abs_of_sel [simp]:
  "absKvs (abs_of s) = map_of (kvs s)" "absInsts (abs_of s) = map_of (instances s)"
  "absRev (abs_of s) = rev s" "absHist (abs_of s) = hist_list s"
  "absBase (abs_of s) = baselineSeq s"
  by (simp_all add: abs_of_def)

lemma hist_same: "hist_list (svc_deliver c s) = hist_list s"
  by simp

lemma applyOne_put_refines:
  assumes "tables_ok s" and "leOp e = Some (LogEntry_Put op)"
  shows "\<exists>s'. applyOne StoreApplier now e s = Inr (s', snd (spec_apply now e (abs_of s)))
    \<and> abs_of s' = fst (spec_apply now e (abs_of s)) \<and> tables_ok s'"
proof -
  obtain m evs r where spec: "spec_put now (leIndex e) op (map_of (kvs s)) = (m, evs, r)"
    by (metis prod_cases3)
  obtain kvs' where "ApplyPut now (leIndex e) op s =
      Inr (emit_all evs (s\<lparr>rev := leIndex e, sub := 0, kvs := kvs'\<rparr>), r)"
    and "map_of kvs' = m" and "gomap_ok kvs'"
    using ApplyPut_refines [OF tables_okD(5) [OF assms(1)] spec] tables_okD(1) [OF assms(1)] by blast
  with emit_all_result [OF assms(1) this(3,2)] assms(2) spec show ?thesis
    by (simp add: applyOne_def StoreApplier_def spec_apply_def Let_def)
qed

lemma applyOne_delete_refines:
  assumes "tables_ok s" and "leOp e = Some (LogEntry_Delete op)"
  shows "\<exists>s'. applyOne StoreApplier now e s = Inr (s', snd (spec_apply now e (abs_of s)))
    \<and> abs_of s' = fst (spec_apply now e (abs_of s)) \<and> tables_ok s'"
proof -
  obtain m evs r where spec: "spec_delete now (leIndex e) op (map_of (kvs s)) = (m, evs, r)"
    by (metis prod_cases3)
  obtain kvs' where "ApplyDelete now (leIndex e) op s =
      Inr (emit_all evs (s\<lparr>rev := leIndex e, sub := 0, kvs := kvs'\<rparr>), r)"
    and "map_of kvs' = m" and "gomap_ok kvs'"
    using ApplyDelete_refines [OF tables_okD(5) [OF assms(1)] spec] tables_okD(1) [OF assms(1)] by blast
  with emit_all_result [OF assms(1) this(3,2)] assms(2) spec show ?thesis
    by (simp add: applyOne_def StoreApplier_def spec_apply_def Let_def)
qed

lemma applyOne_expireKeys_refines:
  assumes "tables_ok s" and "leOp e = Some (LogEntry_ExpireKeys items)"
  shows "if within_limit e s
    then \<exists>s'. applyOne StoreApplier now e s = Inr (s', snd (spec_apply now e (abs_of s)))
      \<and> abs_of s' = fst (spec_apply now e (abs_of s)) \<and> tables_ok s'
    else applyOne StoreApplier now e s = Inl PanicSubLimit"
proof -
  obtain m evs where spec: "spec_expire (leIndex e) items (map_of (kvs s)) = (m, evs)"
    by (metis surj_pair)
  note ref = ApplyExpireKeys_refines [OF tables_okD(5) [OF assms(1)] spec]
  show ?thesis
  proof (cases "within_limit e s")
    case True
    then obtain kvs' where "ApplyExpireKeys (leIndex e) items s =
        Inr (emit_all evs (s\<lparr>rev := leIndex e, sub := 0, kvs := kvs'\<rparr>))"
      and "map_of kvs' = m" and "gomap_ok kvs'"
      using ref tables_okD(1) [OF assms(1)] assms(2) spec by (auto simp: within_limit_def)
    with emit_all_result [OF assms(1) this(3,2)] assms(2) spec True show ?thesis
      by (simp add: applyOne_def StoreApplier_def spec_apply_def Let_def)
  next
    case False
    with ref assms(2) spec show ?thesis
      by (simp add: applyOne_def StoreApplier_def within_limit_def not_less)
  qed
qed

lemma tables_ok_instances:
  assumes "tables_ok s" and "gomap_ok m" and "metas_ok m"
  shows "tables_ok (s\<lparr>rev := index, instances := m\<rparr>)"
    and "tables_ok (svc_deliver c (s\<lparr>rev := index, instances := m\<rparr>))"
  using assms svc_watchers_ok_deliver [of "s\<lparr>rev := index, instances := m\<rparr>" c]
  by (auto simp: tables_ok_def)

lemma abs_of_instances:
  "abs_of (s\<lparr>rev := index, instances := m\<rparr>) = (abs_of s)\<lparr>absRev := index, absInsts := map_of m\<rparr>"
  "abs_of (svc_deliver c (s\<lparr>rev := index, instances := m\<rparr>))
    = (abs_of s)\<lparr>absRev := index, absInsts := map_of m\<rparr>"
  by (simp_all add: abs_of_def)

lemma applyOne_register_refines:
  assumes "tables_ok s" and "leOp e = Some (LogEntry_Register op)"
  shows "\<exists>s'. applyOne StoreApplier now e s = Inr (s', snd (spec_apply now e (abs_of s)))
    \<and> abs_of s' = fst (spec_apply now e (abs_of s)) \<and> tables_ok s'"
proof -
  let ?m = "AList.update (register_key op) (register_entry (leIndex e) op) (instances s)"
  have "gomap_ok ?m" "metas_ok ?m"
    using tables_okD(2,3) [OF assms(1)]
    by (auto intro!: distinct_update metas_ok_update simp: register_entry_def)
  note ok = tables_ok_instances [OF assms(1) this]
  show ?thesis
    using ApplyRegister_ok [OF tables_okD(6) [OF assms(1)], of "leIndex e" op] assms(2) ok
    by (auto simp: applyOne_def StoreApplier_def spec_apply_def Let_def register_store_def
        abs_of_instances)
qed

lemma applyOne_heartbeat_refines:
  assumes "tables_ok s" and "leOp e = Some (LogEntry_Heartbeat op)"
  shows "\<exists>s'. applyOne StoreApplier now e s = Inr (s', snd (spec_apply now e (abs_of s)))
    \<and> abs_of s' = fst (spec_apply now e (abs_of s)) \<and> tables_ok s'"
proof -
  let ?k = "(hoNamespace op, hoService op, hoInstanceId op)"
  have same: "tables_ok (s\<lparr>rev := leIndex e\<rparr>)" "abs_of (s\<lparr>rev := leIndex e\<rparr>) = (abs_of s)\<lparr>absRev := leIndex e\<rparr>"
    using assms(1) by (auto simp: tables_ok_def abs_of_def)
  show ?thesis
  proof (cases "map_of (instances s) ?k")
    case None
    with same assms(2) show ?thesis
      by (simp add: applyOne_def StoreApplier_def spec_apply_def Let_def ApplyHeartbeat_def
          spec_heartbeat_def abs_of_def)
  next
    case (Some i)
    let ?i = "i\<lparr>ieExpireAtMs := hoNewExpireAtMs op, ieRevision := leIndex e\<rparr>"
    let ?m = "AList.update ?k ?i (instances s)"
    have "gomap_ok (ieMetadata i)"
      using tables_okD(3) [OF assms(1)] map_of_SomeD [OF Some] by (auto simp: metas_ok_def)
    then have "gomap_ok ?m" "metas_ok ?m"
      using tables_okD(2,3) [OF assms(1)]
      by (auto intro!: distinct_update metas_ok_update)
    note ok = tables_ok_instances [OF assms(1) this]
    have abs: "abs_of (s\<lparr>rev := leIndex e, instances := ?m\<rparr>)
        = (abs_of s)\<lparr>absRev := leIndex e, absInsts := (map_of (instances s))(?k \<mapsto> ?i)\<rparr>"
      by (simp add: abs_of_instances)
    have stay: "(abs_of s)\<lparr>absRev := leIndex e, absInsts := map_of (instances s)\<rparr> = (abs_of s)\<lparr>absRev := leIndex e\<rparr>"
      by (simp add: abs_of_def)
    show ?thesis
      using same ok abs stay Some assms(2)
      by (auto simp: applyOne_def StoreApplier_def spec_apply_def Let_def ApplyHeartbeat_def
          spec_heartbeat_def)
  qed
qed

lemma expireServices_metadata:
  "metas_ok m \<Longrightarrow> metas_ok (fst (expireServices_loop index items m removed))"
  by (induction items arbitrary: m removed) (simp_all add: Let_def metas_ok_delete split: option.splits)

lemma applyOne_expireServices_refines:
  assumes "tables_ok s" and "leOp e = Some (LogEntry_ExpireServices items)"
  shows "\<exists>s'. applyOne StoreApplier now e s = Inr (s', snd (spec_apply now e (abs_of s)))
    \<and> abs_of s' = fst (spec_apply now e (abs_of s)) \<and> tables_ok s'"
proof -
  obtain m removed where loop: "expireServices_loop (leIndex e) items (instances s) [] = (m, removed)"
    by (metis surj_pair)
  have "gomap_ok m" "metas_ok m"
    using gomap_ok_expireServices [of "instances s" "leIndex e" items "[]"]
      expireServices_metadata [of "instances s" "leIndex e" items "[]"] loop tables_okD(2,3) [OF assms(1)]
    by (simp_all add:)
  note ok = tables_ok_instances [OF assms(1) this]
  have m: "map_of m = (\<lambda>k. if svc_guarded items (map_of (instances s)) k then None else map_of (instances s) k)"
    using expireServices_loop_map [of "leIndex e" items "instances s" "[]"] loop by (simp add: fun_eq_iff)
  show ?thesis
    using ApplyExpireServices_ok [OF tables_okD(6) [OF assms(1)] loop] assms(2) ok
    by (auto simp: applyOne_def StoreApplier_def spec_apply_def Let_def abs_of_instances m
        cong: if_cong)
qed

theorem applyOne_refines:
  assumes "tables_ok s"
  shows "if within_limit e s
    then \<exists>s'. applyOne StoreApplier now e s = Inr (s', snd (spec_apply now e (abs_of s)))
      \<and> abs_of s' = fst (spec_apply now e (abs_of s)) \<and> tables_ok s'
    else applyOne StoreApplier now e s = Inl PanicSubLimit"
proof (cases "leOp e")
  case None
  with assms show ?thesis by (simp add: applyOne_def spec_apply_def within_limit_def)
next
  case (Some op)
  then show ?thesis
    using applyOne_put_refines [OF assms] applyOne_delete_refines [OF assms]
      applyOne_register_refines [OF assms] applyOne_heartbeat_refines [OF assms]
      applyOne_expireKeys_refines [OF assms] applyOne_expireServices_refines [OF assms]
    by (cases op) (auto simp: within_limit_def)
qed

end
