(* ===== verification/StoreInv.thy ===== *)
theory StoreInv
  imports StoreMachine
begin

text \<open>
  The invariant of the state machine and the stores that can be reached.

  Log indices are bounded by \<open>maxIndex = 2 ^ 51\<close>: the cursor of an event is
  \<open>index * subLimit + offset\<close> in an int64, so this is the point up to which cursors do not wrap.
\<close>

definition maxIndex :: int64 where "maxIndex = 2 ^ 51"

subsection \<open>The invariant on the abstract store\<close>

definition maps_inv :: "AbsStore \<Rightarrow> bool" where
  "maps_inv a \<longleftrightarrow> 0 \<le> absRev a
     \<and> (\<forall>k e. absKvs a k = Some e \<longrightarrow> 1 \<le> keVersion e \<and> keVersion e \<le> keRevision e \<and> keRevision e \<le> absRev a)
     \<and> (\<forall>k e. absInsts a k = Some e \<longrightarrow> 1 \<le> ieRevision e \<and> ieRevision e \<le> absRev a)"

definition cursors_inv :: "AbsStore \<Rightarrow> bool" where
  "cursors_inv a \<longleftrightarrow> sorted_wrt (<) (map evSeq (absHist a))
     \<and> (\<forall>ev\<in>set (absHist a). absBase a < evSeq ev \<and> evSeq ev div subLimit = kvRevision (evKV ev)
          \<and> 1 \<le> kvRevision (evKV ev) \<and> kvRevision (evKV ev) \<le> absRev a)
     \<and> 0 \<le> absBase a \<and> absBase a < (absRev a + 1) * subLimit"

definition abs_inv :: "AbsStore \<Rightarrow> bool" where
  "abs_inv a \<longleftrightarrow> maps_inv a \<and> cursors_inv a \<and> absRev a < maxIndex"

lemma cursors_inv_seq:
  assumes "cursors_inv a" and "ev \<in> set (absHist a)"
  shows "subLimit \<le> evSeq ev" and "evSeq ev < (absRev a + 1) * subLimit"
proof -
  have "1 \<le> evSeq ev div 4096" "evSeq ev div 4096 \<le> absRev a"
    using assms by (auto simp: cursors_inv_def subLimit_def)
  moreover have "evSeq ev = 4096 * (evSeq ev div 4096) + evSeq ev mod 4096" by simp
  moreover have "0 \<le> evSeq ev mod 4096" "evSeq ev mod 4096 < 4096" by simp_all
  moreover have "(absRev a + 1) * 4096 = 4096 * absRev a + 4096" by simp
  ultimately show "subLimit \<le> evSeq ev" "evSeq ev < (absRev a + 1) * subLimit"
    unfolding subLimit_def by linarith+
qed

subsection \<open>The cursors of one entry\<close>

lemma newEvent_seq:
  assumes "0 \<le> kvRevision kv" and "kvRevision kv < maxIndex" and "0 \<le> n" and "n < subLimit"
  shows "evSeq (newEvent kind kv n) = kvRevision kv * subLimit + n"
proof -
  have range: "is_int64 (kvRevision kv * 4096)" "is_int64 (kvRevision kv * 4096 + n)"
    using assms by (auto simp: is_int64_def maxIndex_def subLimit_def)
  then show ?thesis
    by (simp add: newEvent_def add64_def mul64_def subLimit_def wrap64_id)
qed

lemma newEvent_kv [simp]: "evKV (newEvent kind kv n) = kv"
  by (simp add: newEvent_def)

lemma number_events_inv:
  assumes "\<forall>p\<in>set evs. kvRevision (snd p) = index" and "0 \<le> index" and "index < maxIndex"
    and "0 \<le> n" and "n + int (length evs) \<le> subLimit"
  shows "sorted_wrt (<) (map evSeq (number_events n evs))
    \<and> (\<forall>ev\<in>set (number_events n evs). kvRevision (evKV ev) = index
       \<and> index * subLimit + n \<le> evSeq ev \<and> evSeq ev < (index + 1) * subLimit)"
  using assms
proof (induction n evs rule: number_events.induct)
  case (1 n)
  then show ?case by simp
next
  case (2 n kind kv evs)
  have seq: "evSeq (newEvent kind kv n) = index * subLimit + n"
    using 2 by (subst newEvent_seq) auto
  have "sorted_wrt (<) (map evSeq (number_events (n + 1) evs))
      \<and> (\<forall>ev\<in>set (number_events (n + 1) evs). kvRevision (evKV ev) = index
         \<and> index * subLimit + (n + 1) \<le> evSeq ev \<and> evSeq ev < (index + 1) * subLimit)"
    using 2 by simp
  with seq 2 show ?case by (fastforce simp: algebra_simps)
qed

lemma sorted_last_n: "sorted_wrt (<) (map f xs) \<Longrightarrow> sorted_wrt (<) (map f (last_n n xs))"
  by (metis last_n_suffix map_append sorted_wrt_append)

lemma set_last_n: "x \<in> set (last_n n xs) \<Longrightarrow> x \<in> set xs"
  by (metis Un_iff last_n_suffix set_append)

lemma cursors_inv_emit:
  assumes inv: "cursors_inv a" and "\<forall>p\<in>set evs. kvRevision (snd p) = index"
    and idx: "0 \<le> absRev a" "absRev a < index" "index < maxIndex" and "int (length evs) \<le> subLimit"
  shows "cursors_inv (spec_emit evs (a\<lparr>absRev := index, absKvs := m\<rparr>))"
proof -
  let ?new = "number_events 0 evs"
  note new = number_events_inv [of evs index 0]
  have old: "evSeq ev < index * subLimit" if "ev \<in> set (absHist a)" for ev
    using cursors_inv_seq(2) [OF inv that] idx by (auto simp: subLimit_def)
  have sorted: "sorted_wrt (<) (map evSeq (absHist a @ ?new))"
    using inv new assms(2-6) old by (force simp: cursors_inv_def sorted_wrt_append)
  have base: "absBase a < index * subLimit" "0 \<le> absBase a"
    using inv idx by (auto simp: cursors_inv_def subLimit_def)
  have each: "absBase a < evSeq ev \<and> evSeq ev div subLimit = kvRevision (evKV ev)
      \<and> 1 \<le> kvRevision (evKV ev) \<and> kvRevision (evKV ev) \<le> index"
    if "ev \<in> set (absHist a @ ?new)" for ev
  proof (cases "ev \<in> set (absHist a)")
    case True
    with inv idx show ?thesis by (auto simp: cursors_inv_def)
  next
    case False
    with that have "kvRevision (evKV ev) = index" "index * subLimit \<le> evSeq ev"
      "evSeq ev < (index + 1) * subLimit"
      using new assms(2-6) by auto
    then show ?thesis using base idx unfolding subLimit_def by auto
  qed
  show ?thesis
    using sorted_last_n [OF sorted] each base idx
    by (auto simp: cursors_inv_def spec_emit_def subLimit_def dest!: set_last_n)
qed

lemma cursors_inv_cong:
  "absHist b = absHist a \<Longrightarrow> absBase b = absBase a \<Longrightarrow> absRev a \<le> absRev b \<Longrightarrow> cursors_inv a \<Longrightarrow> cursors_inv b"
  by (auto simp: cursors_inv_def subLimit_def)

subsection \<open>Entries preserve the invariant\<close>

lemma maps_inv_kvs:
  assumes "maps_inv a" and "absRev a < index" and "\<forall>k e. m k = Some e \<longrightarrow>
    absKvs a k = Some e \<or> 1 \<le> keVersion e \<and> keVersion e \<le> keRevision e \<and> keRevision e \<le> index"
  shows "maps_inv (spec_emit evs (a\<lparr>absRev := index, absKvs := m\<rparr>))"
  using assms unfolding maps_inv_def spec_emit_def by fastforce

lemma maps_inv_insts:
  assumes "maps_inv a" and "absRev a < index" and "\<forall>k e. m k = Some e \<longrightarrow>
    absInsts a k = Some e \<or> 1 \<le> ieRevision e \<and> ieRevision e \<le> index"
  shows "maps_inv (a\<lparr>absRev := index, absInsts := m\<rparr>)"
  using assms unfolding maps_inv_def by fastforce

lemma spec_put_inv:
  assumes "maps_inv a" and "absRev a < index" and "index < maxIndex"
    and "spec_put now index op (absKvs a) = (m, evs, r)"
  shows "\<forall>k e. m k = Some e \<longrightarrow>
      absKvs a k = Some e \<or> 1 \<le> keVersion e \<and> keVersion e \<le> keRevision e \<and> keRevision e \<le> index"
    and "(\<forall>p\<in>set evs. kvRevision (snd p) = index) \<and> length evs \<le> 1"
proof -
  let ?k = "(poNamespace op, poKey op)"
  let ?e = "put_entry index op (live now (absKvs a) ?k)"
  have "1 \<le> keVersion ?e \<and> keVersion ?e \<le> index"
  proof (cases "live now (absKvs a) ?k")
    case None
    then show ?thesis
      using assms(1,2) by (simp add: put_entry_def add64_def wrap64_def maps_inv_def)
  next
    case (Some e)
    then have "1 \<le> keVersion e" "keVersion e \<le> absRev a"
      using assms(1) unfolding live_Some_iff maps_inv_def by fastforce+
    moreover from this assms(2,3) have "is_int64 (keVersion e + 1)"
      by (auto simp: is_int64_def maxIndex_def)
    ultimately show ?thesis
      using Some assms(2) by (simp add: put_entry_def add64_def wrap64_id)
  qed
  moreover have "keRevision ?e = index" by (simp add: put_entry_def)
  ultimately show "\<forall>k e. m k = Some e \<longrightarrow>
      absKvs a k = Some e \<or> 1 \<le> keVersion e \<and> keVersion e \<le> keRevision e \<and> keRevision e \<le> index"
    and "(\<forall>p\<in>set evs. kvRevision (snd p) = index) \<and> length evs \<le> 1"
    using assms(4) by (auto simp: spec_put_def Let_def kvToPB_def split: if_splits)
qed

lemma spec_delete_inv:
  assumes "spec_delete now index op m0 = (m, evs, r)"
  shows "\<forall>k e. m k = Some e \<longrightarrow> m0 k = Some e"
    and "(\<forall>p\<in>set evs. kvRevision (snd p) = index) \<and> length evs \<le> 1"
  using assms by (auto simp: spec_delete_def Let_def split: if_splits option.splits)

lemma spec_expire_inv:
  "(\<forall>k e. fst (spec_expire index items m) k = Some e \<longrightarrow> m k = Some e)
    \<and> (\<forall>p\<in>set (snd (spec_expire index items m)). kvRevision (snd p) = index)"
proof (induction items arbitrary: m)
  case Nil
  then show ?case by simp
next
  case (Cons item items)
  show ?case
  proof (cases "item_hit item m")
    case None
    with Cons show ?thesis by (simp add: spec_expire_skip)
  next
    case (Some e)
    define M where "M = m((ekNamespace item, ekKey item) := None)"
    have "\<And>k x. M k = Some x \<Longrightarrow> m k = Some x" by (auto simp: M_def split: if_splits)
    with Cons.IH [of M] show ?thesis
      by (auto simp: spec_expire_hit [OF Some] M_def [symmetric])
  qed
qed

lemma spec_apply_inv_emit:
  assumes "abs_inv a" and "absRev a < index" and "index < maxIndex"
    and "\<forall>p\<in>set evs. kvRevision (snd p) = index" and "int (length evs) \<le> subLimit"
    and "\<forall>k e. m k = Some e \<longrightarrow>
      absKvs a k = Some e \<or> 1 \<le> keVersion e \<and> keVersion e \<le> keRevision e \<and> keRevision e \<le> index"
  shows "abs_inv (spec_emit evs (a\<lparr>absRev := index, absKvs := m\<rparr>))"
proof -
  have "maps_inv a" "cursors_inv a" "0 \<le> absRev a"
    using assms(1) by (simp_all add: abs_inv_def maps_inv_def)
  with maps_inv_kvs [OF this(1) assms(2,6)] cursors_inv_emit [OF this(2) assms(4) this(3) assms(2,3,5)]
  show ?thesis
    using assms(3) unfolding abs_inv_def by (simp add: spec_emit_def)
qed

lemma spec_apply_inv_insts:
  assumes "abs_inv a" and "absRev a < index" and "index < maxIndex"
    and "\<forall>k e. m k = Some e \<longrightarrow> absInsts a k = Some e \<or> 1 \<le> ieRevision e \<and> ieRevision e \<le> index"
  shows "abs_inv (a\<lparr>absRev := index, absInsts := m\<rparr>)"
  using maps_inv_insts [OF _ assms(2,4)] assms(1-3) cursors_inv_cong [of "a\<lparr>absRev := index, absInsts := m\<rparr>" a]
  by (simp add: abs_inv_def)

definition abs_within :: "LogEntry \<Rightarrow> AbsStore \<Rightarrow> bool" where
  "abs_within e a = (case leOp e of
     Some (LogEntry_ExpireKeys items) \<Rightarrow> int (length (snd (spec_expire (leIndex e) items (absKvs a)))) < subLimit
   | _ \<Rightarrow> True)"

lemma within_limit_abs: "within_limit e s = abs_within e (abs_of s)"
  by (simp add: within_limit_def abs_within_def split: option.splits LogEntry_Op.splits)

lemma spec_heartbeat_inv:
  assumes "spec_heartbeat now index op m0 = (m, r)"
  shows "\<forall>k e. m k = Some e \<longrightarrow> m0 k = Some e \<or> ieRevision e = index"
  using assms by (auto simp: spec_heartbeat_def Let_def split: if_splits option.splits)

theorem spec_apply_inv:
  assumes inv: "abs_inv a" and idx: "absRev a < leIndex e" "leIndex e < maxIndex"
    and "abs_within e a"
  shows "abs_inv (fst (spec_apply now e a))"
proof -
  have maps: "maps_inv a" and pos: "1 \<le> leIndex e"
    using inv idx by (auto simp: abs_inv_def maps_inv_def)
  consider "leOp e = None" | (put) op where "leOp e = Some (LogEntry_Put op)"
    | (delete) op where "leOp e = Some (LogEntry_Delete op)"
    | (register) op where "leOp e = Some (LogEntry_Register op)"
    | (heartbeat) op where "leOp e = Some (LogEntry_Heartbeat op)"
    | (keys) items where "leOp e = Some (LogEntry_ExpireKeys items)"
    | (services) items where "leOp e = Some (LogEntry_ExpireServices items)"
    by (metis LogEntry_Op.exhaust option.exhaust)
  then show ?thesis
  proof cases
    case 1
    with inv show ?thesis by (simp add: spec_apply_def)
  next
    case put
    obtain m evs r where spec: "spec_put now (leIndex e) op (absKvs a) = (m, evs, r)"
      by (metis prod_cases3)
    have "abs_inv (spec_emit evs (a\<lparr>absRev := leIndex e, absKvs := m\<rparr>))"
      using spec_put_inv [OF maps idx spec] by (intro spec_apply_inv_emit [OF inv idx]) (auto simp: subLimit_def)
    with put spec show ?thesis by (simp add: spec_apply_def Let_def)
  next
    case delete
    obtain m evs r where spec: "spec_delete now (leIndex e) op (absKvs a) = (m, evs, r)"
      by (metis prod_cases3)
    have "abs_inv (spec_emit evs (a\<lparr>absRev := leIndex e, absKvs := m\<rparr>))"
      using spec_delete_inv [OF spec] by (intro spec_apply_inv_emit [OF inv idx]) (auto simp: subLimit_def)
    with delete spec show ?thesis by (simp add: spec_apply_def Let_def)
  next
    case register
    have "abs_inv (a\<lparr>absRev := leIndex e,
        absInsts := (absInsts a)(register_key op \<mapsto> register_entry (leIndex e) op)\<rparr>)"
      using pos by (intro spec_apply_inv_insts [OF inv idx]) (auto simp: register_entry_def)
    with register show ?thesis by (simp add: spec_apply_def Let_def)
  next
    case heartbeat
    obtain m r where spec: "spec_heartbeat now (leIndex e) op (absInsts a) = (m, r)"
      by (metis surj_pair)
    have "abs_inv (a\<lparr>absRev := leIndex e, absInsts := m\<rparr>)"
      using spec_heartbeat_inv [OF spec] pos by (intro spec_apply_inv_insts [OF inv idx]) fastforce
    with heartbeat spec show ?thesis by (simp add: spec_apply_def Let_def)
  next
    case keys
    obtain m evs where spec: "spec_expire (leIndex e) items (absKvs a) = (m, evs)"
      by (metis surj_pair)
    have "abs_inv (spec_emit evs (a\<lparr>absRev := leIndex e, absKvs := m\<rparr>))"
      using spec_expire_inv [of "leIndex e" items "absKvs a"] spec assms(4) keys
      by (intro spec_apply_inv_emit [OF inv idx]) (auto simp: abs_within_def)
    with keys spec show ?thesis by (simp add: spec_apply_def Let_def)
  next
    case services
    have "abs_inv (a\<lparr>absRev := leIndex e,
        absInsts := (\<lambda>k. if svc_guarded items (absInsts a) k then None else absInsts a k)\<rparr>)"
      by (intro spec_apply_inv_insts [OF inv idx]) (auto split: if_splits)
    with services show ?thesis by (simp add: spec_apply_def Let_def)
  qed
qed

end
