(* ===== verification/StoreReach.thy ===== *)
theory StoreReach
  imports StoreInv
begin

text \<open>
  The stores a process can be in: a new store, changed by log entries at increasing indices,
  by snapshots exported from another such store, by opening and closing subscriptions and by
  the receives of the stream goroutines. \<open>reachable_inv\<close> gives the invariant for all of them,
  and the properties of the state machine are stated over it.
\<close>

definition store_inv :: "Store \<Rightarrow> bool" where
  "store_inv s \<longleftrightarrow> tables_ok s \<and> abs_inv (abs_of s)"

definition recv_kv :: "chan_ref \<Rightarrow> Store \<Rightarrow> Store" where
  "recv_kv i s = (case kvChans s i of None \<Rightarrow> s
     | Some c \<Rightarrow> (case try_recv c of Received x c' \<Rightarrow> s\<lparr>kvChans := (kvChans s)(i \<mapsto> c')\<rparr> | _ \<Rightarrow> s))"

definition recv_svc :: "chan_ref \<Rightarrow> Store \<Rightarrow> Store" where
  "recv_svc i s = (case svcChans s i of None \<Rightarrow> s
     | Some c \<Rightarrow> (case try_recv c of Received x c' \<Rightarrow> s\<lparr>svcChans := (svcChans s)(i \<mapsto> c')\<rparr> | _ \<Rightarrow> s))"

inductive reachable :: "Store \<Rightarrow> bool" where
  init: "reachable New"
| apply_entry: "reachable s \<Longrightarrow> rev s < leIndex e \<Longrightarrow> leIndex e < maxIndex \<Longrightarrow>
    applyOne StoreApplier now e s = Inr (s', r) \<Longrightarrow> reachable s'"
| restore: "reachable s \<Longrightarrow> reachable t \<Longrightarrow>
    ApplySnapshot (Some (SnapshotToProto (ExportSnapshot t))) s = Inr s' \<Longrightarrow> reachable s'"
| watch: "reachable s \<Longrightarrow> is_int64 (watcherSeq s + 1) \<Longrightarrow> WatchKV ns key c s = Inr (s', r) \<Longrightarrow> reachable s'"
| unwatch: "reachable s \<Longrightarrow> CloseKVWatcher i s = Inr s' \<Longrightarrow> reachable s'"
| watch_service: "reachable s \<Longrightarrow> is_int64 (watcherSeq s + 1) \<Longrightarrow>
    WatchService clk ns service s = (s', r) \<Longrightarrow> reachable s'"
| unwatch_service: "reachable s \<Longrightarrow> CloseServiceWatcher i s = Inr s' \<Longrightarrow> reachable s'"
| receive: "reachable s \<Longrightarrow> reachable (recv_kv i s)"
| receive_service: "reachable s \<Longrightarrow> reachable (recv_svc i s)"

subsection \<open>Each step keeps the invariant\<close>

text \<open>Subscriptions are not part of what replicas agree on.\<close>

lemma abs_of_frame [simp]:
  "abs_of (s\<lparr>kvWatchers := W\<rparr>) = abs_of s"
  "abs_of (s\<lparr>kvChans := H\<rparr>) = abs_of s"
  "abs_of (s\<lparr>svcWatchers := V\<rparr>) = abs_of s"
  "abs_of (s\<lparr>svcChans := G\<rparr>) = abs_of s"
  "abs_of (s\<lparr>watcherSeq := n\<rparr>) = abs_of s"
  by (simp_all add: abs_of_def)

lemma abs_of_registered [simp]: "abs_of (registered ns key s) = abs_of s"
  by (simp add: registered_def Let_def abs_of_def)

lemma store_inv_New: "store_inv New"
  by (simp add: store_inv_def tables_ok_def abs_inv_def maps_inv_def cursors_inv_def abs_of_def
      New_def subs_ok_def maxIndex_def subLimit_def)

lemma store_inv_apply:
  assumes "store_inv s" and "rev s < leIndex e" and "leIndex e < maxIndex"
    and "applyOne StoreApplier now e s = Inr (s', r)"
  shows "store_inv s' \<and> within_limit e s \<and> abs_of s' = fst (spec_apply now e (abs_of s))
    \<and> r = snd (spec_apply now e (abs_of s))"
proof -
  have ok: "tables_ok s" "abs_inv (abs_of s)" using assms(1) by (auto simp: store_inv_def)
  have lim: "within_limit e s" and "abs_of s' = fst (spec_apply now e (abs_of s))" "tables_ok s'"
    "r = snd (spec_apply now e (abs_of s))"
    using applyOne_refines [OF ok(1), of e now] assms(4) by (auto split: if_splits)
  moreover have "abs_inv (fst (spec_apply now e (abs_of s)))"
    using lim assms(2,3) by (intro spec_apply_inv [OF ok(2)]) (auto simp: within_limit_abs)
  ultimately show ?thesis by (simp add: store_inv_def)
qed

lemma store_inv_restore:
  assumes "store_inv s" and "store_inv t"
    and "ApplySnapshot (Some (SnapshotToProto (ExportSnapshot t))) s = Inr s'"
  shows "store_inv s'"
proof (cases "rev t < rev s")
  case True
  have "snapRevision (ExportSnapshot t) = rev t" by (simp add: ExportSnapshot_def)
  with True assms show ?thesis
    by (simp add: ApplySnapshot_def proto_export_id RestoreSnapshot_def)
next
  case False
  have "s' = restored t s"
    using assms False RestoreSnapshot_export [of t s]
    by (simp add: ApplySnapshot_def proto_export_id store_inv_def tables_ok_def)
  moreover have "is_int64 (rev t * subLimit)" "is_int64 (rev t * subLimit + (subLimit - 1))"
    "0 \<le> rev t"
    using assms(2) by (auto simp: store_inv_def abs_inv_def maps_inv_def maxIndex_def is_int64_def subLimit_def)
  then have "add64 (mul64 (rev t) subLimit) (subLimit - 1) = rev t * subLimit + (subLimit - 1)" "0 \<le> rev t"
    by (simp_all add: add64_def mul64_def wrap64_id)
  ultimately show ?thesis
    using assms(1,2)
    by (simp add: store_inv_def tables_ok_def abs_inv_def maps_inv_def cursors_inv_def abs_of_def
        restored_def subLimit_def)
qed

lemma subs_ok_counter: "subs_ok ref n W H \<Longrightarrow> n \<le> n' \<Longrightarrow> subs_ok ref n' W H"
  unfolding subs_ok_def by force

lemma store_inv_watch:
  assumes "store_inv s" and "is_int64 (watcherSeq s + 1)" and "WatchKV ns key c s = Inr (s', r)"
  shows "store_inv s'"
proof -
  have ok: "hist_ok s" "watchers_ok s" "svc_watchers_ok s" using assms(1) by (auto simp: store_inv_def tables_ok_def)
  then consider "s' = s" | "s' = registered ns key s"
    using assms(3) WatchKV_ok [OF ok(1), of ns key c] by (auto split: if_splits)
  then show ?thesis
  proof cases
    case 2
    note new = watchers_ok_registered [OF ok(2) assms(2), of ns key]
    have "svc_watchers_ok (registered ns key s)"
      using ok(3) assms(2) by (auto simp: registered_def Let_def add64_def wrap64_id intro: subs_ok_counter)
    moreover have "kvs s' = kvs s" "instances s' = instances s" by (simp_all add: 2 registered_def Let_def)
    ultimately show ?thesis
      using assms(1) new by (simp add: store_inv_def tables_ok_def 2)
  qed (simp add: assms)
qed

lemma store_inv_unwatch:
  assumes "store_inv s" and "CloseKVWatcher i s = Inr s'"
  shows "store_inv s'"
proof -
  have ok: "watchers_ok s" using assms(1) by (auto simp: store_inv_def tables_ok_def)
  obtain W H where close: "close_sub kwCh i (kvWatchers s, kvChans s) = Inr (W, H)"
    and s': "s' = s\<lparr>kvWatchers := W, kvChans := H\<rparr>"
    using assms(2) by (auto simp: CloseKVWatcher_def go_bind_Inr_iff)
  from assms(1) subs_ok_close [OF ok close] show ?thesis
    by (simp add: store_inv_def tables_ok_def s')
qed

lemma store_inv_watch_service:
  assumes "store_inv s" and "is_int64 (watcherSeq s + 1)" and "WatchService clk ns service s = (s', r)"
  shows "store_inv s'"
proof -
  have ok: "watchers_ok s" "svc_watchers_ok s" using assms(1) by (auto simp: store_inv_def tables_ok_def)
  let ?w = "\<lparr>swNs = ns, swService = service, swCh = watcherSeq s + 1\<rparr>"
  have s': "s' = s\<lparr>watcherSeq := watcherSeq s + 1,
      svcChans := (svcChans s)(watcherSeq s + 1 \<mapsto> make_chan watcherBuffer),
      svcWatchers := AList.update (watcherSeq s + 1) ?w (svcWatchers s)\<rparr>"
    using assms(2,3) by (auto simp: WatchService_def Let_def add64_def wrap64_id)
  from assms(1) subs_ok_register [OF ok(2), of "watcherSeq s + 1" ?w]
    subs_ok_counter [OF ok(1), of "watcherSeq s + 1"] show ?thesis
    by (simp add: store_inv_def tables_ok_def s')
qed

lemma store_inv_unwatch_service:
  assumes "store_inv s" and "CloseServiceWatcher i s = Inr s'"
  shows "store_inv s'"
proof -
  have ok: "svc_watchers_ok s" using assms(1) by (auto simp: store_inv_def tables_ok_def)
  obtain W H where close: "close_sub swCh i (svcWatchers s, svcChans s) = Inr (W, H)"
    and s': "s' = s\<lparr>svcWatchers := W, svcChans := H\<rparr>"
    using assms(2) by (auto simp: CloseServiceWatcher_def go_bind_Inr_iff)
  from assms(1) subs_ok_close [OF ok close] show ?thesis
    by (simp add: store_inv_def tables_ok_def s')
qed

lemma subs_ok_recv:
  assumes ok: "subs_ok ref n W H" and c: "H i = Some c" and buf: "chBuf c = x # xs"
  shows "subs_ok ref n W (H(i \<mapsto> c\<lparr>chBuf := xs\<rparr>))"
  using assms by (fastforce simp: subs_ok_def chan_live_def)

lemma store_inv_receive:
  assumes "store_inv s"
  shows "store_inv (recv_kv i s)" and "store_inv (recv_svc i s)"
proof -
  have ok: "watchers_ok s" "svc_watchers_ok s" using assms(1) by (auto simp: store_inv_def tables_ok_def)
  show "store_inv (recv_kv i s)"
  proof (cases "\<exists>c x xs. kvChans s i = Some c \<and> chBuf c = x # xs")
    case True
    then obtain c x xs where c: "kvChans s i = Some c" "chBuf c = x # xs" by blast
    from assms subs_ok_recv [OF ok(1) c] show ?thesis
      by (simp add: store_inv_def tables_ok_def recv_kv_def try_recv_def c)
  next
    case False
    then have "recv_kv i s = s"
      by (auto simp: recv_kv_def try_recv_def split: option.splits list.splits)
    with assms show ?thesis by simp
  qed
  show "store_inv (recv_svc i s)"
  proof (cases "\<exists>c x xs. svcChans s i = Some c \<and> chBuf c = x # xs")
    case True
    then obtain c x xs where c: "svcChans s i = Some c" "chBuf c = x # xs" by blast
    from assms subs_ok_recv [OF ok(2) c] show ?thesis
      by (simp add: store_inv_def tables_ok_def recv_svc_def try_recv_def c)
  next
    case False
    then have "recv_svc i s = s"
      by (auto simp: recv_svc_def try_recv_def split: option.splits list.splits)
    with assms show ?thesis by simp
  qed
qed

lemma reachable_inv: "reachable s \<Longrightarrow> store_inv s"
proof (induction rule: reachable.induct)
  case (apply_entry s e now s' r)
  then show ?case using store_inv_apply by blast
qed (auto intro: store_inv_New store_inv_restore store_inv_watch store_inv_unwatch
    store_inv_watch_service store_inv_unwatch_service store_inv_receive)

end
