(* ===== verification/StoreProps.thy ===== *)
theory StoreProps
  imports StoreReach
begin

text \<open>
  The properties of the state machine: refinement, cursors, compare-and-set, expiry guards,
  agreement of replicas and its limits, snapshots and subscriptions. Each is followed by a
  concrete instance of its hypotheses.
\<close>

subsection \<open>The store as an applier\<close>

definition store_fits :: "LogEntry \<Rightarrow> bool" where
  "store_fits e \<longleftrightarrow> leIndex e < maxIndex \<and> (case leOp e of None \<Rightarrow> False
     | Some (LogEntry_ExpireKeys items) \<Rightarrow> int (length items) < subLimit | _ \<Rightarrow> True)"

lemma spec_expire_shorter: "length (snd (spec_expire index items m)) \<le> length items"
proof (induction items arbitrary: m)
  case (Cons item items)
  then show ?case
    by (cases "item_hit item m") (simp_all add: spec_expire_skip spec_expire_hit le_SucI)
qed simp

lemma store_fits_within: "store_fits e \<Longrightarrow> within_limit e s \<and> leOp e \<noteq> None"
  using spec_expire_shorter
  by (auto simp: store_fits_def within_limit_def split: option.splits LogEntry_Op.splits
      intro: le_less_trans [OF of_nat_mono])

lemma spec_apply_rev: "leOp e \<noteq> None \<Longrightarrow> absRev (fst (spec_apply now e a)) = leIndex e"
  by (cases "leOp e") (auto simp: spec_apply_def Let_def spec_emit_def split: LogEntry_Op.splits prod.splits)

lemma applyOne_store_inv:
  assumes "store_inv s" and "within_limit e s" and "rev s < leIndex e" and "leIndex e < maxIndex"
  shows "\<exists>s'. applyOne StoreApplier now e s = Inr (s', snd (spec_apply now e (abs_of s)))
    \<and> store_inv s' \<and> abs_of s' = fst (spec_apply now e (abs_of s))"
proof -
  obtain s' where "applyOne StoreApplier now e s = Inr (s', snd (spec_apply now e (abs_of s)))"
    using applyOne_refines [of s e now] assms(1,2) by (auto simp: store_inv_def)
  with store_inv_apply [OF assms(1,3,4) this] show ?thesis by auto
qed

lemma store_applies:
  assumes s: "store_inv s" and e: "store_fits e" and idx: "leIndex e = AppliedIndex StoreApplier s + 1"
  shows "\<exists>s' r. applyOne StoreApplier now e s = Inr (s', r) \<and> store_inv s'
      \<and> AppliedIndex StoreApplier s' = leIndex e"
proof -
  from idx have "rev s < leIndex e" by (simp add: StoreApplier_def AppliedRevision_def)
  moreover have fit: "within_limit e s" "leOp e \<noteq> None" "leIndex e < maxIndex"
    using store_fits_within [OF e] e by (auto simp: store_fits_def)
  ultimately obtain s' r where
    step: "applyOne StoreApplier now e s = Inr (s', r)" "store_inv s'" "abs_of s' = fst (spec_apply now e (abs_of s))"
    using applyOne_store_inv [OF s fit(1), of now] by auto
  moreover have "rev s' = leIndex e"
    using step(3) spec_apply_rev [OF fit(2), of now "abs_of s"] abs_of_sel(3) [of s'] by simp
  ultimately show ?thesis
    by (auto simp: StoreApplier_def AppliedRevision_def)
qed

subsection \<open>A store to look at\<close>

text \<open>An entry that creates the key \<open>k\<close> of namespace \<open>a\<close>, and the store it makes of a new one.\<close>

definition create_entry :: "int64 \<Rightarrow> int64 \<Rightarrow> LogEntry" where
  "create_entry index expireAt = \<lparr>leIndex = index, leTerm = 1, leOp = Some (LogEntry_Put
     \<lparr>poNamespace = ''a'', poKey = ''k'', poValue = ''v'', poTtlMs = 0, poExpireAtMs = expireAt,
      poExpectedVersion = 0\<rparr>)\<rparr>"

definition store1 :: Store where
  "store1 = (case applyOne StoreApplier 0 (create_entry 1 1000) New of Inr (s, r) \<Rightarrow> s | Inl p \<Rightarrow> New)"

definition entry1 :: kvEntry where
  "entry1 = \<lparr>keValue = ''v'', keVersion = 1, keRevision = 1, keTtlMs = 0, keExpireAtMs = 1000\<rparr>"

lemma abs_of_New: "abs_of New = \<lparr>absKvs = Map.empty, absInsts = Map.empty, absRev = 0, absHist = [], absBase = 0\<rparr>"
  by (simp add: abs_of_def New_def)

lemma New_sel [simp]: "rev New = 0" "kvs New = []" "instances New = []" "watcherSeq New = 0"
  by (simp_all add: New_def)

lemma store1_facts:
  "reachable store1" "rev store1 = 1" "watcherSeq store1 = 0"
  "map_of (kvs store1) = Map.empty((''a'', ''k'') \<mapsto> entry1)"
  "hist_list store1 = [\<lparr>evSeq = 4096, evKind = PUT, evKV = kvToPB ''a'' ''k'' entry1\<rparr>]"
proof -
  have one: "add64 0 1 = 1" and seq: "add64 (mul64 1 subLimit) 0 = 4096"
    by (simp_all add: add64_def mul64_def wrap64_def subLimit_def)
  obtain s r where step: "applyOne StoreApplier 0 (create_entry 1 1000) New = Inr (s, r)"
    and abs: "abs_of s = fst (spec_apply 0 (create_entry 1 1000) (abs_of New))"
    using applyOne_store_inv [OF store_inv_New, of "create_entry 1 1000" 0]
    by (auto simp: within_limit_def create_entry_def maxIndex_def)
  have s: "store1 = s" by (simp add: store1_def step)
  show "reachable store1"
    unfolding s by (rule reachable.apply_entry [OF reachable.init _ _ step])
      (simp_all add: create_entry_def maxIndex_def)
  have spec: "fst (spec_apply 0 (create_entry 1 1000) (abs_of New)) = \<lparr>absKvs = Map.empty((''a'', ''k'') \<mapsto> entry1),
      absInsts = Map.empty, absRev = 1,
      absHist = [\<lparr>evSeq = 4096, evKind = PUT, evKV = kvToPB ''a'' ''k'' entry1\<rparr>], absBase = 0\<rparr>"
    by (simp add: spec_apply_def create_entry_def abs_of_New spec_put_def live_def cas_ok_def put_entry_def
        spec_emit_def newEvent_def kvToPB_def entry1_def last_n_def historyCapacity_def one seq Let_def)
  show "rev store1 = 1" "map_of (kvs store1) = Map.empty((''a'', ''k'') \<mapsto> entry1)"
    "hist_list store1 = [\<lparr>evSeq = 4096, evKind = PUT, evKV = kvToPB ''a'' ''k'' entry1\<rparr>]"
    using abs_of_sel [of s] unfolding abs spec s by simp_all
  let ?op = "\<lparr>poNamespace = ''a'', poKey = ''k'', poValue = ''v'', poTtlMs = 0, poExpireAtMs = 1000,
      poExpectedVersion = 0\<rparr>"
  obtain m evs r' where put: "spec_put 0 1 ?op (map_of (kvs New)) = (m, evs, r')"
    by (metis prod_cases3)
  have "watchers_ok New" using store_inv_New by (simp add: store_inv_def tables_ok_def)
  from ApplyPut_refines [OF this put] obtain kvs' where
    "ApplyPut 0 1 ?op New = Inr (emit_all evs (New\<lparr>rev := 1, sub := 0, kvs := kvs'\<rparr>), r')" by auto
  with step have "s = emit_all evs (New\<lparr>rev := 1, sub := 0, kvs := kvs'\<rparr>)"
    by (auto simp: applyOne_def StoreApplier_def create_entry_def)
  then show "watcherSeq store1 = 0" by (simp add: s)
qed

subsection \<open>Refinement and cursors\<close>

lemma sorted_le_last: "sorted_wrt (<) (map f xs) \<Longrightarrow> x \<in> set xs \<Longrightarrow> f x \<le> (f (last xs) :: int)"
proof (induction xs)
  case (Cons y ys)
  then show ?case using last_in_set [of ys] by (cases "x = y") (auto intro: less_imp_le)
qed simp

text \<open>C2: The store implements the abstract machine. On every store that can be reached, applying
  a log entry gives the abstract result and the abstract next state (maps, revision, retained
  events with their cursors), and the next store is reachable again; the only exception is a
  batch in which 4096 or more keys expire, which panics.\<close>

theorem store_refines_spec:
  assumes "reachable s" and "rev s < leIndex e" and "leIndex e < maxIndex"
  shows "if within_limit e s
    then \<exists>s'. applyOne StoreApplier now e s = Inr (s', snd (spec_apply now e (abs_of s)))
      \<and> abs_of s' = fst (spec_apply now e (abs_of s)) \<and> reachable s'
    else applyOne StoreApplier now e s = Inl PanicSubLimit"
proof -
  have inv: "store_inv s" using assms(1) by (rule reachable_inv)
  show ?thesis
  proof (cases "within_limit e s")
    case True
    with applyOne_store_inv [OF inv True assms(2,3), of now] reachable.apply_entry [OF assms] show ?thesis
      by auto
  next
    case False
    with applyOne_refines [of s e now] inv show ?thesis by (simp add: store_inv_def)
  qed
qed

theorem store_refines_spec_witness:
  "\<exists>s'. applyOne StoreApplier 0 (create_entry 2 0) store1 = Inr (s', snd (spec_apply 0 (create_entry 2 0) (abs_of store1)))
    \<and> abs_of s' = fst (spec_apply 0 (create_entry 2 0) (abs_of store1)) \<and> reachable s'"
  using store_refines_spec [OF store1_facts(1), of "create_entry 2 0" 0]
  by (simp add: store1_facts create_entry_def maxIndex_def within_limit_def)

text \<open>Event cursors are strictly increasing over the retained history, every cursor lies in the
  range of the log index that the event carries, and \<open>CurrentEventSeq\<close> returns the largest.\<close>

theorem event_cursors_increase:
  assumes "reachable s"
  shows "sorted_wrt (<) (map evSeq (hist_list s))
    \<and> (\<forall>ev\<in>set (hist_list s). evSeq ev div subLimit = kvRevision (evKV ev)
         \<and> 1 \<le> kvRevision (evKV ev) \<and> kvRevision (evKV ev) \<le> rev s)
    \<and> (\<exists>c. CurrentEventSeq s = Inr c \<and> c < (rev s + 1) * subLimit \<and> (\<forall>ev\<in>set (hist_list s). evSeq ev \<le> c))"
proof -
  have inv: "cursors_inv (abs_of s)" "hist_ok s" "maps_inv (abs_of s)" "rev s < maxIndex"
    using reachable_inv [OF assms] by (auto simp: store_inv_def abs_inv_def tables_ok_def)
  have sorted: "sorted_wrt (<) (map evSeq (hist_list s))"
    using inv(1) by (simp add: cursors_inv_def)
  let ?c = "if hist_list s = [] then baselineSeq s else evSeq (last (hist_list s))"
  have "evSeq ev \<le> ?c" if "ev \<in> set (hist_list s)" for ev
    using that sorted_le_last [OF sorted that] by (auto simp del: ring_list_Nil_iff)
  moreover have "?c < (rev s + 1) * subLimit"
  proof (cases "hist_list s = []")
    case True
    with inv(1) show ?thesis by (simp add: cursors_inv_def)
  next
    case False
    then have "last (hist_list s) \<in> set (absHist (abs_of s))" by (simp del: ring_list_Nil_iff)
    with cursors_inv_seq(2) [OF inv(1) this] False show ?thesis by simp
  qed
  moreover have "CurrentEventSeq s = Inr ?c" using CurrentEventSeq_ok [OF inv(2)] by simp
  moreover have "\<forall>ev\<in>set (hist_list s). evSeq ev div subLimit = kvRevision (evKV ev)
      \<and> 1 \<le> kvRevision (evKV ev) \<and> kvRevision (evKV ev) \<le> rev s"
    using inv(1) by (simp add: cursors_inv_def)
  ultimately show ?thesis using sorted by blast
qed

theorem event_cursors_increase_witness:
  "\<exists>c. CurrentEventSeq store1 = Inr c \<and> 4096 \<le> c \<and> c < 8192"
  using event_cursors_increase [OF store1_facts(1)]
  by (auto simp: store1_facts subLimit_def)

subsection \<open>Compare-and-set\<close>

definition version_of :: "kvEntry option \<Rightarrow> int64" where
  "version_of cur = (case cur of None \<Rightarrow> 0 | Some e \<Rightarrow> keVersion e)"

lemma version_step:
  assumes "store_inv s" and "live now (map_of (kvs s)) k = cur"
  shows "add64 (version_of cur) 1 = version_of cur + 1"
proof (cases cur)
  case None
  then show ?thesis by (simp add: version_of_def add64_def wrap64_def)
next
  case (Some e)
  with assms have "map_of (kvs s) k = Some e" by (simp add: live_Some_iff)
  moreover have "maps_inv (abs_of s)" "rev s < maxIndex"
    using assms(1) by (auto simp: store_inv_def abs_inv_def)
  ultimately have "1 \<le> keVersion e" "keVersion e < maxIndex"
    unfolding maps_inv_def by fastforce+
  then have "is_int64 (keVersion e + 1)" by (auto simp: is_int64_def maxIndex_def)
  then show ?thesis using Some by (simp add: version_of_def add64_def wrap64_id)
qed

lemma newEvent_at:
  assumes "0 \<le> index" and "index < maxIndex" and "kvRevision kv = index"
  shows "newEvent kind kv 0 = \<lparr>evSeq = EventSeq index, evKind = kind, evKV = kv\<rparr>"
proof -
  have "is_int64 (index * subLimit)"
    using assms by (auto simp: is_int64_def maxIndex_def subLimit_def)
  then show ?thesis
    using assms(3) by (simp add: newEvent_def add64_def mul64_def EventSeq_def wrap64_id)
qed

lemma store_inv_rev: "store_inv s \<Longrightarrow> 0 \<le> rev s"
  by (simp add: store_inv_def abs_inv_def maps_inv_def)

lemma hist_list_short: "store_inv s \<Longrightarrow> last_n historyCapacity (hist_list s) = hist_list s"
  by (rule last_n_short) (auto simp: store_inv_def tables_ok_def intro: hist_ok_count)

lemma ApplyPut_branches:
  assumes "reachable s" and "rev s < index" and "index < maxIndex"
    and "cur = live now (map_of (kvs s)) (poNamespace op, poKey op)"
  shows "if cas_ok (poExpectedVersion op) cur
    then \<exists>s' rec. ApplyPut now index op s = Inr (s', Inr rec) \<and> rev s' = index
      \<and> rec = \<lparr>kvNamespace = poNamespace op, kvKey = poKey op, kvValue = poValue op,
               kvVersion = version_of cur + 1, kvRevision = index, kvTtlMs = poTtlMs op,
               kvExpireAtMs = poExpireAtMs op\<rparr>
      \<and> (\<forall>t ns key. Get t ns key s' =
           (if (ns, key) = (poNamespace op, poKey op)
            then if poExpireAtMs op = 0 \<or> t < poExpireAtMs op then Some rec else None
            else Get t ns key s))
      \<and> hist_list s' = last_n historyCapacity
           (hist_list s @ [\<lparr>evSeq = EventSeq index, evKind = PUT, evKV = rec\<rparr>])
    else \<exists>s'. ApplyPut now index op s = Inr (s', Inl ErrCASConflict) \<and> rev s' = index
      \<and> (\<forall>t ns key. Get t ns key s' = Get t ns key s) \<and> hist_list s' = hist_list s"
proof -
  have inv: "store_inv s" using assms(1) by (rule reachable_inv)
  then have wok: "watchers_ok s" and hok: "hist_ok s" by (auto simp: store_inv_def tables_ok_def)
  have pos: "0 \<le> index" using store_inv_rev [OF inv] assms(2) by simp
  obtain m evs r where spec: "spec_put now index op (map_of (kvs s)) = (m, evs, r)"
    by (metis prod_cases3)
  obtain kvs' where put: "ApplyPut now index op s =
      Inr (emit_all evs (s\<lparr>rev := index, sub := 0, kvs := kvs'\<rparr>), r)" and kvs': "map_of kvs' = m"
    using ApplyPut_refines [OF wok spec] by blast
  let ?s' = "emit_all evs (s\<lparr>rev := index, sub := 0, kvs := kvs'\<rparr>)"
  have hist: "hist_list ?s' = last_n historyCapacity (hist_list s @ number_events 0 evs)"
    using hist_list_emit_all [of "s\<lparr>rev := index, sub := 0, kvs := kvs'\<rparr>" evs] hok by simp
  show ?thesis
  proof (cases "cas_ok (poExpectedVersion op) cur")
    case True
    let ?e = "put_entry index op cur"
    let ?rec = "kvToPB (poNamespace op) (poKey op) ?e"
    have res: "m = (map_of (kvs s))((poNamespace op, poKey op) \<mapsto> ?e)" "evs = [(PUT, ?rec)]" "r = Inr ?rec"
      using spec True assms(4) by (auto simp: spec_put_def Let_def)
    have ver: "keVersion ?e = version_of cur + 1"
      using version_step [OF inv assms(4) [symmetric]] by (simp add: put_entry_def version_of_def)
    have "newEvent PUT ?rec 0 = \<lparr>evSeq = EventSeq index, evKind = PUT, evKV = ?rec\<rparr>"
      using pos assms(3) by (intro newEvent_at) (simp_all add: kvToPB_def put_entry_def)
    with True put hist res ver show ?thesis
      by (auto simp: Get_live kvs' live_def aliveKV_def kvToPB_def put_entry_def)
  next
    case False
    then have "m = map_of (kvs s)" "evs = []" "r = Inl ErrCASConflict"
      using spec assms(4) by (auto simp: spec_put_def Let_def)
    with False put kvs' show ?thesis by (simp add: Get_live)
  qed
qed

text \<open>C18: \<open>ApplyPut\<close> on every branch. If the expected version fits the live entry, the key gets
  the value with the old version plus one (1 for a new or an expired key) and the log index as
  revision, every other key is untouched, and one PUT event is appended whose cursor is
  \<open>EventSeq index\<close>. Otherwise the result is \<open>ErrCASConflict\<close> and neither a key nor the history
  changes. It never panics.\<close>

theorem ApplyPut_cas:
  assumes "reachable s" and "rev s < index" and "index < maxIndex"
    and "cur = live now (map_of (kvs s)) (poNamespace op, poKey op)"
  shows "if cas_ok (poExpectedVersion op) cur
    then \<exists>s' rec. ApplyPut now index op s = Inr (s', Inr rec) \<and> rev s' = index
      \<and> rec = \<lparr>kvNamespace = poNamespace op, kvKey = poKey op, kvValue = poValue op,
               kvVersion = version_of cur + 1, kvRevision = index, kvTtlMs = poTtlMs op,
               kvExpireAtMs = poExpireAtMs op\<rparr>
      \<and> (\<forall>t ns key. Get t ns key s' =
           (if (ns, key) = (poNamespace op, poKey op)
            then if poExpireAtMs op = 0 \<or> t < poExpireAtMs op then Some rec else None
            else Get t ns key s))
      \<and> hist_list s' = last_n historyCapacity
           (hist_list s @ [\<lparr>evSeq = EventSeq index, evKind = PUT, evKV = rec\<rparr>])
    else \<exists>s'. ApplyPut now index op s = Inr (s', Inl ErrCASConflict) \<and> rev s' = index
      \<and> (\<forall>t ns key. Get t ns key s' = Get t ns key s) \<and> hist_list s' = hist_list s"
  using ApplyPut_branches [OF assms] .

theorem ApplyPut_cas_witness:
  "\<exists>s' rec. ApplyPut 0 2 \<lparr>poNamespace = ''a'', poKey = ''k'', poValue = ''w'', poTtlMs = 0, poExpireAtMs = 0,
      poExpectedVersion = 1\<rparr> store1 = Inr (s', Inr rec) \<and> kvVersion rec = 2 \<and> Get 5 ''a'' ''k'' s' = Some rec"
  using ApplyPut_cas [OF store1_facts(1) _ _ refl, where index = 2 and now = 0 and
    op = "\<lparr>poNamespace = ''a'', poKey = ''k'', poValue = ''w'', poTtlMs = 0, poExpireAtMs = 0, poExpectedVersion = 1\<rparr>"]
  by (auto simp: store1_facts live_def aliveKV_def entry1_def cas_ok_def maxIndex_def version_of_def)

text \<open>C19: \<open>ApplyDelete\<close> on every branch: deleting a live key with a fitting version removes just
  that key and appends one DELETE event that keeps the version and carries the log index;
  deleting an absent (or expired) key is an idempotent no-op unless a positive version was
  expected; a wrong version is a conflict and changes nothing.\<close>

theorem ApplyDelete_cas:
  assumes "reachable s" and "rev s < index" and "index < maxIndex"
    and "cur = live now (map_of (kvs s)) (doNamespace op, doKey op)"
  shows "\<exists>s' r. ApplyDelete now index op s = Inr (s', r) \<and> rev s' = index \<and>
    (case cur of
       Some e \<Rightarrow>
         if cas_ok (doExpectedVersion op) cur
         then r = Inr True
           \<and> (\<forall>t ns key. Get t ns key s' = (if (ns, key) = (doNamespace op, doKey op) then None
                                             else Get t ns key s))
           \<and> hist_list s' = last_n historyCapacity (hist_list s @
               [\<lparr>evSeq = EventSeq index, evKind = DELETE,
                 evKV = (kvToPB (doNamespace op) (doKey op) e)\<lparr>kvRevision := index\<rparr>\<rparr>])
         else r = Inl ErrCASConflict \<and> (\<forall>t ns key. Get t ns key s' = Get t ns key s)
           \<and> hist_list s' = hist_list s
     | None \<Rightarrow> r = (if doExpectedVersion op > 0 then Inl ErrCASConflict else Inr False)
         \<and> (\<forall>t ns key. Get t ns key s' = Get t ns key s) \<and> hist_list s' = hist_list s)"
proof -
  have inv: "store_inv s" using assms(1) by (rule reachable_inv)
  then have wok: "watchers_ok s" and hok: "hist_ok s" by (auto simp: store_inv_def tables_ok_def)
  have pos: "0 \<le> index" using store_inv_rev [OF inv] assms(2) by simp
  obtain m evs r where spec: "spec_delete now index op (map_of (kvs s)) = (m, evs, r)"
    by (metis prod_cases3)
  obtain kvs' where del: "ApplyDelete now index op s =
      Inr (emit_all evs (s\<lparr>rev := index, sub := 0, kvs := kvs'\<rparr>), r)" and kvs': "map_of kvs' = m"
    using ApplyDelete_refines [OF wok spec] by blast
  let ?s' = "emit_all evs (s\<lparr>rev := index, sub := 0, kvs := kvs'\<rparr>)"
  have hist: "hist_list ?s' = last_n historyCapacity (hist_list s @ number_events 0 evs)"
    using hist_list_emit_all [of "s\<lparr>rev := index, sub := 0, kvs := kvs'\<rparr>" evs] hok by simp
  show ?thesis
  proof (cases "\<exists>e. cur = Some e \<and> cas_ok (doExpectedVersion op) cur")
    case True
    then obtain e where e: "cur = Some e" "cas_ok (doExpectedVersion op) (Some e)" by auto
    let ?rec = "(kvToPB (doNamespace op) (doKey op) e)\<lparr>kvRevision := index\<rparr>"
    have res: "m = (map_of (kvs s))((doNamespace op, doKey op) := None)" "evs = [(DELETE, ?rec)]" "r = Inr True"
      using spec e assms(4) by (auto simp: spec_delete_def Let_def)
    have "newEvent DELETE ?rec 0 = \<lparr>evSeq = EventSeq index, evKind = DELETE, evKV = ?rec\<rparr>"
      using pos assms(3) by (intro newEvent_at) simp_all
    with e del hist res show ?thesis
      by (auto simp: Get_live kvs' live_def)
  next
    case False
    then have "m = map_of (kvs s)" "evs = []" "r = (case cur of Some e \<Rightarrow> Inl ErrCASConflict
        | None \<Rightarrow> if doExpectedVersion op > 0 then Inl ErrCASConflict else Inr False)"
      using spec assms(4) by (auto simp: spec_delete_def Let_def split: option.splits if_splits)
    with False del kvs' show ?thesis by (auto simp: Get_live split: option.splits)
  qed
qed

theorem ApplyDelete_cas_witness:
  "\<exists>s'. ApplyDelete 0 2 \<lparr>doNamespace = ''a'', doKey = ''k'', doExpectedVersion = 1\<rparr> store1 = Inr (s', Inr True)
    \<and> Get 5 ''a'' ''k'' s' = None"
  using ApplyDelete_cas [OF store1_facts(1) _ _ refl, where index = 2 and now = 0 and
    op = "\<lparr>doNamespace = ''a'', doKey = ''k'', doExpectedVersion = 1\<rparr>"]
  by (auto simp: store1_facts live_def aliveKV_def entry1_def cas_ok_def maxIndex_def)

text \<open>Several puts in log order, each with its clock reading and index.\<close>

fun apply_puts :: "(int64 \<times> int64 \<times> PutOp) list \<Rightarrow> Store \<Rightarrow> (Store \<times> (store_error + KeyValue) list) go" where
  "apply_puts [] s = Inr (s, [])"
| "apply_puts ((now, index, op) # ps) s =
    go_bind (ApplyPut now index op s) (\<lambda>(s', r).
      go_bind (apply_puts ps s') (\<lambda>(s'', rs). Inr (s'', r # rs)))"

definition contenders :: "string \<Rightarrow> string \<Rightarrow> int64 \<Rightarrow> (int64 \<times> int64 \<times> PutOp) list \<Rightarrow> bool" where
  "contenders ns key v ps \<longleftrightarrow> (\<forall>(now, index, op)\<in>set ps. poNamespace op = ns \<and> poKey op = key
     \<and> poExpectedVersion op = v \<and> poExpireAtMs op = 0)"

lemma add64_1_neq: "add64 v 1 \<noteq> v"
proof
  assume "add64 v 1 = v"
  then have "(v + 1 + 2 ^ 63) mod 2 ^ 64 - 2 ^ 63 = v" by (simp add: add64_def wrap64_def)
  then have "(v + 2 ^ 63 + 1) mod 2 ^ 64 = v + 2 ^ 63" by (simp add: algebra_simps)
  moreover from this have "0 \<le> v + 2 ^ 63" "v + 2 ^ 63 < 2 ^ 64"
    by (metis pos_mod_sign zero_less_numeral zero_less_power, metis pos_mod_bound zero_less_numeral zero_less_power)
  ultimately show False
    by (cases "v + 2 ^ 63 = 2 ^ 64 - 1") auto
qed

lemma apply_puts_lost:
  assumes "watchers_ok s" and "contenders ns key v ps" and "0 \<le> v"
    and "map_of (kvs s) (ns, key) = Some e" and "keExpireAtMs e = 0" and "v \<noteq> keVersion e"
  shows "\<exists>s'. apply_puts ps s = Inr (s', replicate (length ps) (Inl ErrCASConflict))"
  using assms
proof (induction ps arbitrary: s)
  case Nil
  then show ?case by simp
next
  case (Cons p ps)
  obtain now index op where p: "p = (now, index, op)" by (metis prod_cases3)
  have op: "poNamespace op = ns" "poKey op = key" "poExpectedVersion op = v"
    using Cons.prems(2) p by (auto simp: contenders_def)
  have "live now (map_of (kvs s)) (ns, key) = Some e"
    using Cons.prems(4,5) by (simp add: live_def aliveKV_def)
  moreover have "\<not> cas_ok v (Some e)"
    using Cons.prems(3,6) by (auto simp: cas_ok_def)
  ultimately have "spec_put now index op (map_of (kvs s)) = (map_of (kvs s), [], Inl ErrCASConflict)"
    by (simp add: spec_put_def Let_def op)
  from ApplyPut_refines [OF Cons.prems(1) this] obtain kvs' where
    step: "ApplyPut now index op s = Inr (s\<lparr>rev := index, sub := 0, kvs := kvs'\<rparr>, Inl ErrCASConflict)"
      and kvs': "map_of kvs' = map_of (kvs s)" by auto
  have "\<exists>s'. apply_puts ps (s\<lparr>rev := index, sub := 0, kvs := kvs'\<rparr>)
      = Inr (s', replicate (length ps) (Inl ErrCASConflict))"
    using Cons.prems kvs' by (intro Cons.IH) (auto simp: contenders_def)
  then show ?case by (auto simp: p step)
qed

text \<open>A contended compare-and-set has at most one winner: of any number of puts to one key that
  expect the same version (0 for a create), applied in log order at any clock readings, at most
  one succeeds, and if the first one finds the expected version it is the winner and all the
  others get \<open>ErrCASConflict\<close>.\<close>

theorem cas_single_winner:
  assumes "reachable s" and "contenders ns key v ps" and "0 \<le> v"
  shows "\<exists>s' rs. apply_puts ps s = Inr (s', rs) \<and> length rs = length ps
    \<and> length (filter (\<lambda>r. \<not> isl r) rs) \<le> 1
    \<and> (ps \<noteq> [] \<longrightarrow> cas_ok v (live (fst (List.hd ps)) (map_of (kvs s)) (ns, key)) \<longrightarrow>
        (\<exists>kv. rs = Inr kv # replicate (length ps - 1) (Inl ErrCASConflict)))"
proof -
  have "watchers_ok s" using reachable_inv [OF assms(1)] by (simp add: store_inv_def tables_ok_def)
  then show ?thesis using assms(2)
  proof (induction ps arbitrary: s)
    case Nil
    then show ?case by simp
  next
    case (Cons p ps)
    obtain now index op where p: "p = (now, index, op)" by (metis prod_cases3)
    have op: "poNamespace op = ns" "poKey op = key" "poExpectedVersion op = v" "poExpireAtMs op = 0"
      and rest: "contenders ns key v ps"
      using Cons.prems(2) p by (auto simp: contenders_def)
    let ?cur = "live now (map_of (kvs s)) (ns, key)"
    obtain m evs r where spec: "spec_put now index op (map_of (kvs s)) = (m, evs, r)"
      by (metis prod_cases3)
    from ApplyPut_refines [OF Cons.prems(1) this] obtain kvs' where
      step: "ApplyPut now index op s = Inr (emit_all evs (s\<lparr>rev := index, sub := 0, kvs := kvs'\<rparr>), r)"
        and kvs': "map_of kvs' = m" by auto
    let ?s1 = "emit_all evs (s\<lparr>rev := index, sub := 0, kvs := kvs'\<rparr>)"
    have wok: "watchers_ok ?s1"
      using watchers_ok_emit_all [of "s\<lparr>rev := index, sub := 0, kvs := kvs'\<rparr>" evs] Cons.prems(1) by simp
    show ?case
    proof (cases "cas_ok v ?cur")
      case True
      let ?e = "put_entry index op ?cur"
      have m: "m (ns, key) = Some ?e" and r: "r = Inr (kvToPB ns key ?e)"
        using spec True by (auto simp: spec_put_def Let_def op)
      have "v \<noteq> keVersion ?e"
      proof (cases ?cur)
        case None
        with True assms(3) add64_1_neq [of 0] show ?thesis by (auto simp: cas_ok_def put_entry_def)
      next
        case (Some e)
        with True assms(3) add64_1_neq [of v] show ?thesis by (auto simp: cas_ok_def put_entry_def)
      qed
      with apply_puts_lost [OF wok rest assms(3), of ?e] kvs' m op(4) obtain s2 where
        "apply_puts ps ?s1 = Inr (s2, replicate (length ps) (Inl ErrCASConflict))"
        by (auto simp: put_entry_def)
      then show ?thesis by (auto simp: p step r)
    next
      case False
      then have "r = Inl ErrCASConflict" using spec by (simp add: spec_put_def Let_def op)
      with Cons.IH [OF wok rest] False show ?thesis by (auto simp: p step)
    qed
  qed
qed

theorem cas_single_winner_witness:
  "\<exists>s' kv. apply_puts [(0, 2, \<lparr>poNamespace = ''a'', poKey = ''k'', poValue = ''x'', poTtlMs = 0, poExpireAtMs = 0,
       poExpectedVersion = 1\<rparr>), (0, 3, \<lparr>poNamespace = ''a'', poKey = ''k'', poValue = ''y'', poTtlMs = 0,
       poExpireAtMs = 0, poExpectedVersion = 1\<rparr>)] store1 = Inr (s', [Inr kv, Inl ErrCASConflict])"
  using cas_single_winner [OF store1_facts(1), of "''a''" "''k''" 1
    "[(0, 2, \<lparr>poNamespace = ''a'', poKey = ''k'', poValue = ''x'', poTtlMs = 0, poExpireAtMs = 0,
       poExpectedVersion = 1\<rparr>), (0, 3, \<lparr>poNamespace = ''a'', poKey = ''k'', poValue = ''y'', poTtlMs = 0,
       poExpireAtMs = 0, poExpectedVersion = 1\<rparr>)]"]
  by (auto simp: contenders_def store1_facts live_def aliveKV_def entry1_def cas_ok_def)

subsection \<open>Expiry\<close>

definition expire_items :: "ExpiredKV list \<Rightarrow> ExpireKey list" where
  "expire_items = map (\<lambda>x. \<lparr>ekNamespace = xkNamespace x, ekKey = xkKey x, ekGuardRevision = xkGuardRevision x\<rparr>)"

lemma scan_guarded:
  assumes "gomap_ok (kvs s)"
  shows "guarded (expire_items (ScanExpiredKVs now s)) m k \<longleftrightarrow>
    (\<exists>e e'. map_of (kvs s) k = Some e \<and> keExpireAtMs e \<noteq> 0 \<and> keExpireAtMs e \<le> now
       \<and> m k = Some e' \<and> keRevision e' = keRevision e)"
  using assms
  by (cases k) (force simp: guarded_def expire_items_def ScanExpiredKVs_def gomap_set_iff [symmetric])

text \<open>The expiry guard. If the sweeper scans a store and the batch it builds is applied later,
  to any later store, then a key is removed exactly if it was expired at the scan and still has
  the revision it had there: a key that was written in between survives with its new value, and
  so does every key that had not expired.\<close>

theorem expire_spares_refreshed:
  assumes "reachable s" and "reachable t" and "rev t < index" and "index < maxIndex"
    and "items = expire_items (ScanExpiredKVs now s)"
    and "card {k. guarded items (map_of (kvs t)) k} < 4096"
  shows "\<exists>t'. ApplyExpireKeys index items t = Inr t' \<and> reachable t' \<and> rev t' = index
    \<and> (\<forall>k. map_of (kvs t') k =
         (if \<exists>e e'. map_of (kvs s) k = Some e \<and> keExpireAtMs e \<noteq> 0 \<and> keExpireAtMs e \<le> now
               \<and> map_of (kvs t) k = Some e' \<and> keRevision e' = keRevision e
          then None else map_of (kvs t) k))"
proof -
  have ok: "gomap_ok (kvs s)" "watchers_ok t"
    using reachable_inv [OF assms(1)] reachable_inv [OF assms(2)] by (auto simp: store_inv_def tables_ok_def)
  obtain m evs where spec: "spec_expire index items (map_of (kvs t)) = (m, evs)"
    by (metis surj_pair)
  have "int (length evs) < subLimit"
    using spec_expire_length [of index items "map_of (kvs t)"] spec assms(6) by (simp add: subLimit_def)
  then obtain kvs' where step: "ApplyExpireKeys index items t =
      Inr (emit_all evs (t\<lparr>rev := index, sub := 0, kvs := kvs'\<rparr>))" and kvs': "map_of kvs' = m"
    using ApplyExpireKeys_refines [OF ok(2) spec] by auto
  have "applyOne StoreApplier 0 \<lparr>leIndex = index, leTerm = 1, leOp = Some (LogEntry_ExpireKeys items)\<rparr> t
      = Inr (emit_all evs (t\<lparr>rev := index, sub := 0, kvs := kvs'\<rparr>), noOutcome)"
    by (simp add: applyOne_def StoreApplier_def step)
  from reachable.apply_entry [OF assms(2) _ _ this] assms(3,4)
  have "reachable (emit_all evs (t\<lparr>rev := index, sub := 0, kvs := kvs'\<rparr>))" by simp
  moreover have "m k = (if guarded items (map_of (kvs t)) k then None else map_of (kvs t) k)" for k
    using spec_expire_map [of index items "map_of (kvs t)" k] spec by simp
  moreover note scan_guarded [OF ok(1), of now "map_of (kvs t)", folded assms(5)]
  moreover have same: "kvs (emit_all evs (t\<lparr>rev := index, sub := 0, kvs := kvs'\<rparr>)) = kvs'" by simp
  ultimately have final: "map_of (kvs (emit_all evs (t\<lparr>rev := index, sub := 0, kvs := kvs'\<rparr>))) k =
         (if \<exists>e e'. map_of (kvs s) k = Some e \<and> keExpireAtMs e \<noteq> 0 \<and> keExpireAtMs e \<le> now
               \<and> map_of (kvs t) k = Some e' \<and> keRevision e' = keRevision e
          then None else map_of (kvs t) k)" for k
    by (simp only: kvs' same)
  from step \<open>reachable (emit_all evs _)\<close> final show ?thesis
    by (intro exI [of _ "emit_all evs (t\<lparr>rev := index, sub := 0, kvs := kvs'\<rparr>)"] conjI allI) simp_all
qed

theorem expire_spares_refreshed_witness:
  "\<exists>t'. ApplyExpireKeys 2 (expire_items (ScanExpiredKVs 1000 store1)) store1 = Inr t'
    \<and> map_of (kvs t') (''a'', ''k'') = None"
proof -
  have "{k. guarded (expire_items (ScanExpiredKVs 1000 store1)) (map_of (kvs store1)) k} \<subseteq> {(''a'', ''k'')}"
    by (auto simp: guarded_def store1_facts split: if_splits)
  then have "card {k. guarded (expire_items (ScanExpiredKVs 1000 store1)) (map_of (kvs store1)) k} \<le> 1"
    using card_mono [of "{(''a'', ''k'')}"] by fastforce
  then show ?thesis
    using expire_spares_refreshed [OF store1_facts(1,1), of 2 _ 1000] by (auto simp: store1_facts maxIndex_def entry1_def)
qed

end
