(* ===== verification/ReplicaProps.thy ===== *)
theory ReplicaProps
  imports StoreProps
begin

text \<open>
  Agreement of replicas and snapshots: when replicas that apply the same log agree, when they
  do not, and what a snapshot carries over.
\<close>

subsection \<open>Same log, different clocks\<close>

definition same_data :: "AbsStore \<Rightarrow> AbsStore \<Rightarrow> bool" where
  "same_data a b \<longleftrightarrow> absKvs a = absKvs b \<and> absInsts a = absInsts b \<and> absRev a = absRev b"

definition no_expiry :: "AbsStore \<Rightarrow> bool" where
  "no_expiry a \<longleftrightarrow> (\<forall>k e. absKvs a k = Some e \<longrightarrow> keExpireAtMs e = 0)
     \<and> (\<forall>k e. absInsts a k = Some e \<longrightarrow> ieExpireAtMs e = 0)"

definition no_expiry_entry :: "LogEntry \<Rightarrow> bool" where
  "no_expiry_entry e \<longleftrightarrow> (case leOp e of
     Some (LogEntry_Put op) \<Rightarrow> poExpireAtMs op = 0
   | Some (LogEntry_Register op) \<Rightarrow> roExpireAtMs op = 0
   | Some (LogEntry_Heartbeat op) \<Rightarrow> hoNewExpireAtMs op = 0
   | _ \<Rightarrow> True)"

lemma no_expiryD:
  "no_expiry a \<Longrightarrow> absKvs a k = Some e \<Longrightarrow> keExpireAtMs e = 0"
  "no_expiry a \<Longrightarrow> absInsts a i = Some x \<Longrightarrow> ieExpireAtMs x = 0"
  unfolding no_expiry_def by blast+

lemma live_no_expiry: "no_expiry a \<Longrightarrow> live now (absKvs a) k = absKvs a k"
  by (auto simp: live_def aliveKV_def dest: no_expiryD(1) split: option.splits)

lemma spec_put_agree:
  assumes "no_expiry a" and "poExpireAtMs op = 0"
  shows "spec_put now index op (absKvs a) = spec_put now' index op (absKvs a)"
    and "spec_put now index op (absKvs a) = (m, evs, r) \<Longrightarrow> m k = Some e \<Longrightarrow> keExpireAtMs e = 0"
  using assms by (auto simp: spec_put_def Let_def live_no_expiry put_entry_def dest: no_expiryD split: if_splits)

lemma spec_delete_agree:
  assumes "no_expiry a"
  shows "spec_delete now index op (absKvs a) = spec_delete now' index op (absKvs a)"
    and "spec_delete now index op (absKvs a) = (m, evs, r) \<Longrightarrow> m k = Some e \<Longrightarrow> keExpireAtMs e = 0"
  using assms by (auto simp: spec_delete_def Let_def live_no_expiry dest: no_expiryD split: if_splits option.splits)

lemma spec_heartbeat_agree:
  assumes "no_expiry a" and "hoNewExpireAtMs op = 0"
  shows "spec_heartbeat now index op (absInsts a) = spec_heartbeat now' index op (absInsts a)"
    and "spec_heartbeat now index op (absInsts a) = (m, r) \<Longrightarrow> m k = Some e \<Longrightarrow> ieExpireAtMs e = 0"
  using assms
  by (auto simp: spec_heartbeat_def Let_def instAlive_def dest: no_expiryD split: if_splits option.splits)

lemma spec_expire_no_expiry:
  assumes "no_expiry a" and "spec_expire index items (absKvs a) = (m, evs)" and "m k = Some e"
  shows "keExpireAtMs e = 0"
proof -
  have "absKvs a k = Some e"
    using spec_expire_inv [of index items "absKvs a"] assms(2,3) by (metis fst_conv)
  with assms(1) show ?thesis by (rule no_expiryD)
qed

lemma spec_emit_data [simp]:
  "absKvs (spec_emit evs a) = absKvs a" "absInsts (spec_emit evs a) = absInsts a"
  "absRev (spec_emit evs a) = absRev a"
  by (simp_all add: spec_emit_def)

lemma spec_apply_agree:
  assumes same: "same_data a b" and a: "no_expiry a" and e: "no_expiry_entry e"
  shows "same_data (fst (spec_apply now e a)) (fst (spec_apply now' e b))
    \<and> snd (spec_apply now e a) = snd (spec_apply now' e b)
    \<and> no_expiry (fst (spec_apply now e a))"
proof -
  have eq: "absKvs b = absKvs a" "absInsts b = absInsts a" "absRev b = absRev a"
    using same by (simp_all add: same_data_def)
  show ?thesis
  proof (cases "leOp e")
    case None
    with same a show ?thesis by (simp add: spec_apply_def)
  next
    case (Some x)
    show ?thesis
    proof (cases x)
      case (LogEntry_Put op)
      obtain m evs r where spec: "spec_put now (leIndex e) op (absKvs a) = (m, evs, r)"
        by (metis prod_cases3)
      have op: "poExpireAtMs op = 0" using e Some LogEntry_Put by (simp add: no_expiry_entry_def)
      have spec': "spec_put now' (leIndex e) op (absKvs a) = (m, evs, r)"
        using spec_put_agree(1) [OF a op] spec by metis
      have "no_expiry (a\<lparr>absRev := leIndex e, absKvs := m\<rparr>)"
        using a spec_put_agree(2) [OF a op spec] by (auto simp: no_expiry_def simp del: split_paired_All)
      with spec spec' Some LogEntry_Put eq show ?thesis
        by (simp add: spec_apply_def Let_def same_data_def no_expiry_def)
    next
      case (LogEntry_Delete op)
      obtain m evs r where spec: "spec_delete now (leIndex e) op (absKvs a) = (m, evs, r)"
        by (metis prod_cases3)
      have spec': "spec_delete now' (leIndex e) op (absKvs a) = (m, evs, r)"
        using spec_delete_agree(1) [OF a] spec by metis
      have "no_expiry (a\<lparr>absRev := leIndex e, absKvs := m\<rparr>)"
        using a spec_delete_agree(2) [OF a spec] by (auto simp: no_expiry_def simp del: split_paired_All)
      with spec spec' Some LogEntry_Delete eq show ?thesis
        by (simp add: spec_apply_def Let_def same_data_def no_expiry_def)
    next
      case (LogEntry_Register op)
      with Some a e eq show ?thesis
        by (auto simp: spec_apply_def Let_def same_data_def no_expiry_def no_expiry_entry_def
            register_entry_def)
    next
      case (LogEntry_Heartbeat op)
      obtain m r where spec: "spec_heartbeat now (leIndex e) op (absInsts a) = (m, r)"
        by (metis surj_pair)
      have op: "hoNewExpireAtMs op = 0" using e Some LogEntry_Heartbeat by (simp add: no_expiry_entry_def)
      have spec': "spec_heartbeat now' (leIndex e) op (absInsts a) = (m, r)"
        using spec_heartbeat_agree(1) [OF a op] spec by metis
      have "no_expiry (a\<lparr>absRev := leIndex e, absInsts := m\<rparr>)"
        using a spec_heartbeat_agree(2) [OF a op spec] by (auto simp: no_expiry_def simp del: split_paired_All)
      with spec spec' Some LogEntry_Heartbeat eq show ?thesis
        by (simp add: spec_apply_def Let_def same_data_def)
    next
      case (LogEntry_ExpireKeys items)
      obtain m evs where spec: "spec_expire (leIndex e) items (absKvs a) = (m, evs)"
        by (metis surj_pair)
      have "no_expiry (a\<lparr>absRev := leIndex e, absKvs := m\<rparr>)"
        using a spec_expire_no_expiry [OF a spec] by (auto simp: no_expiry_def simp del: split_paired_All)
      with spec Some LogEntry_ExpireKeys eq show ?thesis
        by (simp add: spec_apply_def Let_def same_data_def no_expiry_def)
    next
      case (LogEntry_ExpireServices items)
      with Some a eq show ?thesis
        by (auto simp: spec_apply_def Let_def same_data_def no_expiry_def)
    qed
  qed
qed

text \<open>Replicas that start with the same maps and apply the same log agree, on every map entry
  and on every result reported to a client, whatever their clocks read and whatever watchers,
  history or snapshots they have, as long as no entry carries an expiry time.\<close>

theorem replicas_agree:
  assumes "reachable s" and "reachable t" and "same_data (abs_of s) (abs_of t)"
    and "no_expiry (abs_of s)" and "consecutive (rev s) es" and "rev s + int (length es) < maxIndex"
    and "\<forall>e\<in>set es. leOp e \<noteq> None \<and> no_expiry_entry e"
    and "length cs = length es" and "length ds = length es"
  shows "case apply_all StoreApplier (zip cs es) s of
      Inl p \<Rightarrow> apply_all StoreApplier (zip ds es) t = Inl p
    | Inr (s', rs) \<Rightarrow> \<exists>t'. apply_all StoreApplier (zip ds es) t = Inr (t', rs)
        \<and> same_data (abs_of s') (abs_of t')"
  using assms
proof (induction es arbitrary: s t cs ds)
  case Nil
  then show ?case by simp
next
  case (Cons e es)
  obtain now cs' now' ds' where c: "cs = now # cs'" "ds = now' # ds'"
    using Cons.prems(8,9) by (metis length_Suc_conv)
  have inv: "store_inv s" "store_inv t" using Cons.prems(1,2) reachable_inv by blast+
  have idx: "rev s < leIndex e" "rev t < leIndex e" "leIndex e < maxIndex"
    using Cons.prems(3,5,6) by (auto simp: same_data_def)
  have lim: "within_limit e s = within_limit e t"
    using Cons.prems(3) by (simp add: same_data_def within_limit_def split: option.splits LogEntry_Op.splits)
  show ?case
  proof (cases "within_limit e s")
    case False
    with lim applyOne_refines [of s e now] applyOne_refines [of t e now'] inv show ?thesis
      by (simp add: c store_inv_def)
  next
    case True
    obtain s1 t1 where s1: "applyOne StoreApplier now e s = Inr (s1, snd (spec_apply now e (abs_of s)))"
        "abs_of s1 = fst (spec_apply now e (abs_of s))"
      and t1: "applyOne StoreApplier now' e t = Inr (t1, snd (spec_apply now' e (abs_of t)))"
        "abs_of t1 = fst (spec_apply now' e (abs_of t))"
      using applyOne_store_inv [OF inv(1) True idx(1,3), of now]
        applyOne_store_inv [OF inv(2) _ idx(2,3), of now'] True lim by auto
    have reach: "reachable s1" "reachable t1"
      using reachable.apply_entry [OF Cons.prems(1) idx(1,3) s1(1)]
        reachable.apply_entry [OF Cons.prems(2) idx(2,3) t1(1)] by auto
    have "no_expiry_entry e" and op: "leOp e \<noteq> None" using Cons.prems(7) by auto
    note agree = spec_apply_agree [OF Cons.prems(3,4) this(1), of now now', folded s1(2) t1(2)]
    have rev1: "rev s1 = rev s + 1"
      using spec_apply_rev [OF op, of now "abs_of s"] s1(2) abs_of_sel(3) [of s1] Cons.prems(5) by simp
    have "case apply_all StoreApplier (zip cs' es) s1 of
        Inl p \<Rightarrow> apply_all StoreApplier (zip ds' es) t1 = Inl p
      | Inr (s', rs) \<Rightarrow> \<exists>t'. apply_all StoreApplier (zip ds' es) t1 = Inr (t', rs)
          \<and> same_data (abs_of s') (abs_of t')"
      using Cons.prems agree c rev1 by (intro Cons.IH [OF reach]) auto
    with s1(1) t1(1) agree show ?thesis
      by (auto simp: c split: sum.splits)
  qed
qed

theorem replicas_agree_witness:
  "case apply_all StoreApplier (zip [0, 0] [create_entry 1 0, create_entry 2 0]) New of
      Inl p \<Rightarrow> apply_all StoreApplier (zip [5, 9] [create_entry 1 0, create_entry 2 0]) New = Inl p
    | Inr (s, rs) \<Rightarrow> \<exists>t. apply_all StoreApplier (zip [5, 9] [create_entry 1 0, create_entry 2 0]) New = Inr (t, rs)
        \<and> same_data (abs_of s) (abs_of t)"
  by (rule replicas_agree [OF reachable.init reachable.init])
    (simp_all add: no_expiry_def same_data_def create_entry_def no_expiry_entry_def maxIndex_def)

lemma create_run:
  "\<exists>s'. apply_all StoreApplier [(0, create_entry 1 1000), (now, create_entry 2 0)] New = Inr (s',
     [putOutcome (Inr \<lparr>kvNamespace = ''a'', kvKey = ''k'', kvValue = ''v'', kvVersion = 1, kvRevision = 1,
        kvTtlMs = 0, kvExpireAtMs = 1000\<rparr>),
      if now < 1000 then putOutcome (Inl ErrCASConflict)
      else putOutcome (Inr \<lparr>kvNamespace = ''a'', kvKey = ''k'', kvValue = ''v'', kvVersion = 1,
             kvRevision = 2, kvTtlMs = 0, kvExpireAtMs = 0\<rparr>)])
   \<and> absKvs (abs_of s') (''a'', ''k'') = Some (if now < 1000
       then \<lparr>keValue = ''v'', keVersion = 1, keRevision = 1, keTtlMs = 0, keExpireAtMs = 1000\<rparr>
       else \<lparr>keValue = ''v'', keVersion = 1, keRevision = 2, keTtlMs = 0, keExpireAtMs = 0\<rparr>)"
proof -
  have one: "add64 0 1 = 1" by (simp add: add64_def wrap64_def)
  have inv: "store_inv New" by (rule store_inv_New)
  obtain s1 where s1: "applyOne StoreApplier 0 (create_entry 1 1000) New
      = Inr (s1, snd (spec_apply 0 (create_entry 1 1000) (abs_of New)))"
    "store_inv s1" "abs_of s1 = fst (spec_apply 0 (create_entry 1 1000) (abs_of New))"
    using applyOne_store_inv [OF inv, of "create_entry 1 1000" 0]
    by (auto simp: within_limit_def create_entry_def New_def maxIndex_def)
  have rev1: "rev s1 = 1"
    using spec_apply_rev [of "create_entry 1 1000" 0 "abs_of New"] s1(3) abs_of_sel(3) [of s1]
    by (simp add: create_entry_def)
  obtain s2 where s2: "applyOne StoreApplier now (create_entry 2 0) s1
      = Inr (s2, snd (spec_apply now (create_entry 2 0) (abs_of s1)))"
    "abs_of s2 = fst (spec_apply now (create_entry 2 0) (abs_of s1))"
    using applyOne_store_inv [OF s1(2), of "create_entry 2 0" now] rev1
    by (auto simp: within_limit_def create_entry_def maxIndex_def)
  have kvs1: "absKvs (abs_of s1) = Map.empty((''a'', ''k'') \<mapsto>
      \<lparr>keValue = ''v'', keVersion = 1, keRevision = 1, keTtlMs = 0, keExpireAtMs = 1000\<rparr>)"
    unfolding s1(3)
    by (simp add: spec_apply_def create_entry_def Let_def spec_put_def live_def cas_ok_def put_entry_def
        New_def one)
  have res1: "snd (spec_apply 0 (create_entry 1 1000) (abs_of New)) = putOutcome (Inr
      \<lparr>kvNamespace = ''a'', kvKey = ''k'', kvValue = ''v'', kvVersion = 1, kvRevision = 1,
        kvTtlMs = 0, kvExpireAtMs = 1000\<rparr>)"
    by (simp add: spec_apply_def create_entry_def Let_def spec_put_def live_def cas_ok_def put_entry_def
        New_def one kvToPB_def)
  define s1kvs where "s1kvs = map_of (kvs s1)"
  have s1kvs: "s1kvs = Map.empty((''a'', ''k'') \<mapsto>
      \<lparr>keValue = ''v'', keVersion = 1, keRevision = 1, keTtlMs = 0, keExpireAtMs = 1000\<rparr>)"
    using kvs1 by (simp add: s1kvs_def)
  have run2: "snd (spec_apply now (create_entry 2 0) (abs_of s1)) = (if now < 1000 then putOutcome (Inl ErrCASConflict)
      else putOutcome (Inr \<lparr>kvNamespace = ''a'', kvKey = ''k'', kvValue = ''v'', kvVersion = 1,
             kvRevision = 2, kvTtlMs = 0, kvExpireAtMs = 0\<rparr>))"
    "absKvs (abs_of s2) (''a'', ''k'') = Some (if now < 1000
       then \<lparr>keValue = ''v'', keVersion = 1, keRevision = 1, keTtlMs = 0, keExpireAtMs = 1000\<rparr>
       else \<lparr>keValue = ''v'', keVersion = 1, keRevision = 2, keTtlMs = 0, keExpireAtMs = 0\<rparr>)"
    unfolding s2(2)
    by (simp_all add: spec_apply_def create_entry_def Let_def spec_put_def live_def cas_ok_def put_entry_def
        aliveKV_def one kvToPB_def s1kvs_def [symmetric] s1kvs spec_emit_def)
  show ?thesis
    using s1(1) s2(1) run2 by (auto simp: res1)
qed


subsection \<open>Snapshots\<close>



end
