(* ===== verification/RegistryProps.thy ===== *)
theory RegistryProps
  imports StoreProps
begin

text \<open>The properties of service discovery: registration, leases, expiry and reads.\<close>

definition reg_outcome :: "int64 \<Rightarrow> RegisterOp \<Rightarrow> Instance" where
  "reg_outcome index op = \<lparr>inNamespace = roNamespace op, inService = roService op,
     inInstanceId = roInstanceId op, inAddress = roAddress op, inMetadata = cloneMap (roMetadata op),
     inLeaseTtlMs = roLeaseTtlMs op, inExpireAtMs = roExpireAtMs op, inRevision = index\<rparr>"

lemma GetInstance_map: "GetInstance now ns service iid s =
    (case map_of (instances s) (ns, service, iid) of
       Some e \<Rightarrow> if instAlive now e then Some (instToPB ns service iid e) else None | None \<Rightarrow> None)"
  by (simp add: GetInstance_def split: option.splits)

lemma inst_step:
  assumes "reachable s" and "rev s < index" and "index < maxIndex"
    and "leOp e = Some op" "leIndex e = index" "\<forall>items. op \<noteq> LogEntry_ExpireKeys items"
  shows "\<exists>s'. applyOne StoreApplier now e s = Inr (s', snd (spec_apply now e (abs_of s)))
    \<and> reachable s' \<and> abs_of s' = fst (spec_apply now e (abs_of s))"
proof -
  have "within_limit e s" using assms(4,6) by (auto simp: within_limit_def split: LogEntry_Op.splits)
  from applyOne_store_inv [OF reachable_inv [OF assms(1)] this, of now] assms(2,3,5)
  obtain s' where "applyOne StoreApplier now e s = Inr (s', snd (spec_apply now e (abs_of s)))"
    "abs_of s' = fst (spec_apply now e (abs_of s))" by auto
  with reachable.apply_entry [OF assms(1)] assms(2,3,5) show ?thesis by blast
qed

text \<open>Registration. \<open>ApplyRegister\<close> always succeeds, makes the instance visible with the given
  address, metadata and lease until its expiry time, under the log index as revision, replaces
  an earlier registration of the same id, and leaves every other instance and every key alone.\<close>

theorem register_visible:
  assumes "reachable s" and "rev s < index" and "index < maxIndex"
  shows "\<exists>s'. ApplyRegister index op s = Inr (s', reg_outcome index op) \<and> reachable s' \<and> rev s' = index
    \<and> (\<forall>now ns service iid. GetInstance now ns service iid s' =
         (if (ns, service, iid) = register_key op
          then if roExpireAtMs op = 0 \<or> now < roExpireAtMs op then Some (reg_outcome index op) else None
          else GetInstance now ns service iid s))
    \<and> (\<forall>now ns key. Get now ns key s' = Get now ns key s) \<and> hist_list s' = hist_list s"
proof -
  let ?e = "\<lparr>leIndex = index, leTerm = 1, leOp = Some (LogEntry_Register op)\<rparr>"
  obtain s' where step: "applyOne StoreApplier 0 ?e s = Inr (s', snd (spec_apply 0 ?e (abs_of s)))"
    and reach: "reachable s'" and abs: "abs_of s' = fst (spec_apply 0 ?e (abs_of s))"
    using inst_step [OF assms, of ?e] by auto
  have fields: "map_of (kvs s') = map_of (kvs s)" "rev s' = index" "hist_list s' = hist_list s"
    "map_of (instances s') = (map_of (instances s))(register_key op \<mapsto> register_entry index op)"
    using abs abs_of_sel [of s'] by (simp_all add: spec_apply_def Let_def)
  obtain i where "ApplyRegister index op s = Inr (s', i)"
    using step by (auto simp: applyOne_def StoreApplier_def go_bind_Inr_iff)
  moreover from this have "i = instToPB (roNamespace op) (roService op) (roInstanceId op) (register_entry index op)"
    using ApplyRegister_ok [of s index op] reachable_inv [OF assms(1)]
    by (auto simp: store_inv_def tables_ok_def Let_def)
  moreover have "instToPB (roNamespace op) (roService op) (roInstanceId op) (register_entry index op)
      = reg_outcome index op"
    by (simp add: instToPB_def register_entry_def reg_outcome_def)
  ultimately show ?thesis
    using reach fields
    by (auto simp: GetInstance_map Get_live instAlive_def)
      (simp_all add: register_entry_def)
qed

definition register_op :: RegisterOp where
  "register_op = \<lparr>roNamespace = ''a'', roService = ''s'', roInstanceId = ''i'', roAddress = ''h:1'',
     roMetadata = [], roLeaseTtlMs = 0, roExpireAtMs = 1000\<rparr>"

theorem register_visible_witness:
  "\<exists>s'. ApplyRegister 2 register_op store1 = Inr (s', reg_outcome 2 register_op)
    \<and> GetInstance 999 ''a'' ''s'' ''i'' s' = Some (reg_outcome 2 register_op)
    \<and> GetInstance 1000 ''a'' ''s'' ''i'' s' = None"
  using register_visible [OF store1_facts(1), of 2 register_op]
  by (auto simp: store1_facts maxIndex_def register_op_def)

definition store2 :: Store where
  "store2 = (case ApplyRegister 1 register_op New of Inr (s, r) \<Rightarrow> s | Inl p \<Rightarrow> New)"

lemma store2_facts:
  "reachable store2" "rev store2 = 1" "map_of (instances store2) (''a'', ''s'', ''i'') = Some (register_entry 1 register_op)"
proof -
  let ?e = "\<lparr>leIndex = 1, leTerm = 1, leOp = Some (LogEntry_Register register_op)\<rparr>"
  obtain s' where step: "applyOne StoreApplier 0 ?e New = Inr (s', snd (spec_apply 0 ?e (abs_of New)))"
    and reach: "reachable s'" and abs: "abs_of s' = fst (spec_apply 0 ?e (abs_of New))"
    using inst_step [OF reachable.init, of 1 ?e] by (auto simp: maxIndex_def)
  have fields: "rev s' = 1" "map_of (instances s') = Map.empty(register_key register_op \<mapsto> register_entry 1 register_op)"
    using abs abs_of_sel [of s'] by (simp_all add: spec_apply_def Let_def)
  obtain i where "ApplyRegister 1 register_op New = Inr (s', i)"
    using step by (auto simp: applyOne_def StoreApplier_def go_bind_Inr_iff)
  then have "store2 = s'" by (simp add: store2_def)
  with reach fields show "reachable store2" "rev store2 = 1"
    "map_of (instances store2) (''a'', ''s'', ''i'') = Some (register_entry 1 register_op)"
    by (simp_all add: register_op_def)
qed

text \<open>C27: Leases. \<open>ApplyHeartbeat\<close> succeeds exactly if the instance is registered, its revision is the
  guard (or the guard is 0) and its lease has not run out at the clock of the replica; then it
  gets the new expiry time and the log index as revision and nothing else changes. Otherwise it
  reports \<open>ErrInstanceNotFound\<close> and no instance changes: a heartbeat never revives an expired or
  replaced registration.\<close>

theorem heartbeat_guarded:
  assumes "reachable s" and "rev s < index" and "index < maxIndex"
    and "k = (hoNamespace op, hoService op, hoInstanceId op)"
  shows "\<exists>s' r. ApplyHeartbeat now index op s = Inr (s', r) \<and> reachable s' \<and> rev s' = index
    \<and> (\<forall>t ns key. Get t ns key s' = Get t ns key s)
    \<and> (if \<exists>e. map_of (instances s) k = Some e
            \<and> (hoGuardRevision op = 0 \<or> ieRevision e = hoGuardRevision op) \<and> instAlive now e
       then \<exists>e e'. map_of (instances s) k = Some e
         \<and> e' = e\<lparr>ieExpireAtMs := hoNewExpireAtMs op, ieRevision := index\<rparr>
         \<and> r = Inr (instToPB (hoNamespace op) (hoService op) (hoInstanceId op) e')
         \<and> map_of (instances s') = (map_of (instances s))(k \<mapsto> e')
       else r = Inl ErrInstanceNotFound \<and> map_of (instances s') = map_of (instances s))"
proof -
  let ?e = "\<lparr>leIndex = index, leTerm = 1, leOp = Some (LogEntry_Heartbeat op)\<rparr>"
  obtain s' where step: "applyOne StoreApplier now ?e s = Inr (s', snd (spec_apply now ?e (abs_of s)))"
    and reach: "reachable s'" and abs: "abs_of s' = fst (spec_apply now ?e (abs_of s))"
    using inst_step [OF assms(1-3), of ?e] by auto
  obtain m r where spec: "spec_heartbeat now index op (map_of (instances s)) = (m, r)"
    by (metis surj_pair)
  have fields: "map_of (kvs s') = map_of (kvs s)" "rev s' = index" "map_of (instances s') = m"
    using abs abs_of_sel [of s'] spec by (simp_all add: spec_apply_def Let_def)
  obtain q where q: "ApplyHeartbeat now index op s = Inr (s', q)" "heartbeatOutcome q = heartbeatOutcome r"
    using step spec by (auto simp: applyOne_def StoreApplier_def go_bind_Inr_iff spec_apply_def Let_def)
  have "q = r"
    using q(2) by (auto simp: heartbeatOutcome_def noOutcome_def split: sum.splits)
  with q(1) reach fields spec show ?thesis
    by (auto simp: Get_live spec_heartbeat_def Let_def assms(4) split: option.splits if_splits)
qed

theorem heartbeat_guarded_witness:
  "\<exists>s' r. ApplyHeartbeat 999 2 \<lparr>hoNamespace = ''a'', hoService = ''s'', hoInstanceId = ''i'',
      hoGuardRevision = 1, hoNewExpireAtMs = 2000\<rparr> store2 = Inr (s', Inr r)
    \<and> map_of (instances s') (''a'', ''s'', ''i'') =
        Some ((register_entry 1 register_op)\<lparr>ieExpireAtMs := 2000, ieRevision := 2\<rparr>)"
  using heartbeat_guarded [OF store2_facts(1) _ _ refl, where index = 2 and now = 999 and
    op = "\<lparr>hoNamespace = ''a'', hoService = ''s'', hoInstanceId = ''i'', hoGuardRevision = 1, hoNewExpireAtMs = 2000\<rparr>"]
  by (auto simp: store2_facts maxIndex_def instAlive_def register_entry_def register_op_def)

text \<open>\<open>Discover\<close> returns each live instance of the service once and nothing else.\<close>

theorem discover_exact:
  assumes "reachable s"
  shows "distinct (map inInstanceId (Discover clk ns service s))
    \<and> set (Discover clk ns service s) =
        {x. \<exists>iid. GetInstance (clk (ns, service, iid)) ns service iid s = Some x}"
proof -
  have ok: "gomap_ok (instances s)"
    using reachable_inv [OF assms] by (simp add: store_inv_def tables_ok_def)
  let ?m = "filter (\<lambda>((n, v, iid), e). \<not> (n \<noteq> ns \<or> v \<noteq> service \<or> \<not> instAlive (clk (n, v, iid)) e))
      (instances s)"
  have "distinct ?m" using ok by (simp add: distinct_map)
  moreover have "inj_on (\<lambda>x. inInstanceId (case x of ((n, v, iid), e) \<Rightarrow> instToPB n v iid e)) (set ?m)"
    using ok by (auto simp: inj_on_def instToPB_def dest: eq_key_imp_eq_value)
  ultimately have "distinct (map inInstanceId (discoverLocked clk ns service s))"
    by (simp add: discoverLocked_def distinct_map o_def split_def)
  moreover have "set (discoverLocked clk ns service s) =
      {x. \<exists>iid. GetInstance (clk (ns, service, iid)) ns service iid s = Some x}"
    unfolding set_eq_iff discoverLocked_mem [OF ok] by (auto simp: GetInstance_map split: option.splits)
  ultimately show ?thesis by (simp add: Discover_def)
qed

theorem discover_exact_witness:
  "\<exists>x\<in>set (Discover (\<lambda>_. 999) ''a'' ''s'' store2). GetInstance 999 ''a'' ''s'' ''i'' store2 = Some x"
proof -
  have "GetInstance 999 ''a'' ''s'' ''i'' store2 \<noteq> None"
    by (simp add: GetInstance_map store2_facts instAlive_def register_entry_def register_op_def)
  then show ?thesis
    using discover_exact [OF store2_facts(1), of "\<lambda>_. 999" "''a''" "''s''"] by auto
qed

end
