(* ===== verification/Broadcaster.thy ===== *)
theory Broadcaster
  imports Prelude
begin

text \<open>
  The broadcaster of \<open>internal/repl/broadcaster.go\<close>: every subscriber has a channel of capacity
  one that holds at most one pending signal. It replaces a shared channel, so that one
  subscriber cannot take the signal of another.
\<close>

record broadcaster =
  bcSubs :: "(int64, unit chan) gomap"
  bcSeq :: int64

definition newBroadcaster :: broadcaster where
  "newBroadcaster = \<lparr>bcSubs = [], bcSeq = 0\<rparr>"

definition subscribe :: "broadcaster \<Rightarrow> broadcaster \<times> int64" where
  "subscribe b = (let wid = add64 (bcSeq b) 1
     in (b\<lparr>bcSeq := wid, bcSubs := AList.update wid (make_chan 1) (bcSubs b)\<rparr>, wid))"

definition unsubscribe :: "int64 \<Rightarrow> broadcaster \<Rightarrow> broadcaster" where
  "unsubscribe i b = b\<lparr>bcSubs := AList.delete i (bcSubs b)\<rparr>"

text \<open>The loop of \<open>notify\<close>, with the non-blocking send.\<close>

fun notify_loop :: "(int64, unit chan) gomap \<Rightarrow> (int64, unit chan) gomap go" where
  "notify_loop [] = Inr []"
| "notify_loop ((i, ch) # subs) =
    (case try_send () (Some ch) of
       Sent ch' \<Rightarrow> go_bind (notify_loop subs) (\<lambda>rest. Inr ((i, ch') # rest))
     | WouldBlock \<Rightarrow> go_bind (notify_loop subs) (\<lambda>rest. Inr ((i, ch) # rest))
     | SendPanics p \<Rightarrow> Inl p)"

definition notify :: "broadcaster \<Rightarrow> broadcaster go" where
  "notify b = go_bind (notify_loop (bcSubs b)) (\<lambda>subs. Inr (b\<lparr>bcSubs := subs\<rparr>))"

text \<open>The receive of a subscriber: takes the pending signal, if there is one.\<close>

definition take_signal :: "int64 \<Rightarrow> broadcaster \<Rightarrow> (broadcaster \<times> bool)" where
  "take_signal i b = (case map_of (bcSubs b) i of
     None \<Rightarrow> (b, False)
   | Some ch \<Rightarrow> (case try_recv ch of
       Received u ch' \<Rightarrow> (b\<lparr>bcSubs := AList.update i ch' (bcSubs b)\<rparr>, True)
     | _ \<Rightarrow> (b, False)))"

definition pending :: "int64 \<Rightarrow> broadcaster \<Rightarrow> bool" where
  "pending i b \<longleftrightarrow> (\<exists>ch. map_of (bcSubs b) i = Some ch \<and> chBuf ch \<noteq> [])"

subsection \<open>Invariant and guarantees\<close>

definition bc_ok :: "broadcaster \<Rightarrow> bool" where
  "bc_ok b \<longleftrightarrow> gomap_ok (bcSubs b)
     \<and> (\<forall>(i, ch) \<in> set (bcSubs b). i \<le> bcSeq b \<and> \<not> chClosed ch \<and> chCap ch = 1 \<and> length (chBuf ch) \<le> 1)"

definition signalled :: "unit chan \<Rightarrow> unit chan" where
  "signalled ch = ch\<lparr>chBuf := [()]\<rparr>"

lemma bc_ok_new: "bc_ok newBroadcaster"
  by (simp add: bc_ok_def newBroadcaster_def)

lemma notify_loop_ok:
  "\<forall>(i, ch) \<in> set subs. \<not> chClosed ch \<and> chCap ch = 1 \<and> length (chBuf ch) \<le> 1 \<Longrightarrow>
    notify_loop subs = Inr (map (\<lambda>(i, ch). (i, signalled ch)) subs)"
proof (induction subs)
  case Nil
  then show ?case by simp
next
  case (Cons p subs)
  obtain i ch where p: "p = (i, ch)" by (cases p)
  have ch: "\<not> chClosed ch" "chCap ch = 1" "length (chBuf ch) \<le> 1" using Cons.prems p by auto
  have "chBuf ch = [] \<or> chBuf ch = [()]"
    using ch(3) by (cases "chBuf ch") auto
  with Cons ch p show ?case by (auto simp: signalled_def)
qed

lemma notify_ok:
  assumes "bc_ok b"
  shows "notify b = Inr (b\<lparr>bcSubs := map (\<lambda>(i, ch). (i, signalled ch)) (bcSubs b)\<rparr>)"
  using assms notify_loop_ok [of "bcSubs b"] by (fastforce simp: notify_def bc_ok_def)

lemma bc_ok_notify: "bc_ok b \<Longrightarrow> notify b = Inr b' \<Longrightarrow> bc_ok b'"
  by (fastforce simp: notify_ok bc_ok_def signalled_def comp_def split_def)

lemma bc_ok_subscribe: "bc_ok b \<Longrightarrow> is_int64 (bcSeq b + 1) \<Longrightarrow> bc_ok (fst (subscribe b))"
  by (fastforce simp: bc_ok_def subscribe_def Let_def add64_def wrap64_id make_chan_def in_set_update_iff
      intro!: distinct_update)

lemma bc_ok_unsubscribe: "bc_ok b \<Longrightarrow> bc_ok (unsubscribe i b)"
  by (auto simp: bc_ok_def unsubscribe_def in_set_delete_iff intro!: distinct_delete)

lemma bc_ok_take: "bc_ok b \<Longrightarrow> bc_ok (fst (take_signal i b))"
proof -
  assume ok: "bc_ok b"
  show ?thesis
  proof (cases "map_of (bcSubs b) i")
    case (Some ch)
    then have "(i, ch) \<in> set (bcSubs b)" by (rule map_of_SomeD)
    with ok Some show ?thesis
      by (fastforce simp: take_signal_def try_recv_def bc_ok_def in_set_update_iff
          intro!: distinct_update split: list.splits)
  qed (simp add: take_signal_def ok)
qed

lemma notify_pending:
  assumes "bc_ok b" and "notify b = Inr b'" and "i \<in> fst ` set (bcSubs b)"
  shows "pending i b'"
proof -
  obtain ch where "map_of (bcSubs b) i = Some ch"
    using assms(3) by (metis map_of_eq_None_iff not_None_eq)
  moreover have "map_of (map (\<lambda>(i, ch). (i, signalled ch)) m) i = map_option signalled (map_of m i)" for m
    by (induction m) auto
  ultimately show ?thesis
    using assms(1,2) by (auto simp: notify_ok pending_def signalled_def)
qed

end
