(* ===== verification/Leader.thy ===== *)
theory Leader
  imports Applier Broadcaster
begin

text \<open>
  The replicator of the leader (\<open>internal/repl/leader.go\<close>): the log window, the quorum commit
  with application in log order, the waiting proposals, the snapshot at the truncation point and
  what a follower needs to catch up.

  \<open>Leader\<close> has the fields of the Go struct. The applier the leader holds (\<open>ap\<close>) is the record of
  operations \<open>ldAp\<close> and the current state \<open>ldState\<close>. A waiter holds the address of its result
  channel, which the proposing goroutine shares; the channels live in \<open>resChans\<close> under the log
  index of the proposal. Every critical section under \<open>mu\<close> is one definition. Log indices are
  plain \<open>int\<close>: they count log entries held in memory.
\<close>

subsection \<open>Errors, constants and state\<close>

datatype ctx_err = DeadlineExceeded | Canceled

datatype go_error =
    ErrStore store_error
  | ErrNoQuorum
  | ErrNotLeader
  | ErrCtx ctx_err
  | ErrOther string

definition retainEntries :: int where "retainEntries = 10000"

record 'st Leader =
  ldCfg :: Config
  ldAp :: "'st Applier"
  ldState :: 'st
  ldLog :: "LogEntry list"
  compactIndex :: int64
  savedSnap :: "PbSnapshot option"
  waiters :: "(int64, chan_ref) gomap"
  resChans :: "chan_ref \<rightharpoonup> Outcome chan"
  ldCommit :: int64
  ldApplied :: int64
  ldMatch :: "(int32, int64) gomap"
  wakeCh :: "unit chan"
  ping :: broadcaster
  stopChClosed :: bool
  stopped :: bool
  exportSnapshot :: "('st \<Rightarrow> PbSnapshot) option"

definition NewLeader :: "Config \<Rightarrow> 'st Applier \<Rightarrow> 'st \<Rightarrow> 'st Leader" where
  "NewLeader cfg ap st = \<lparr>ldCfg = cfg, ldAp = ap, ldState = st, ldLog = [], compactIndex = 0,
     savedSnap = None, waiters = [], resChans = Map.empty, ldCommit = 0, ldApplied = 0, ldMatch = [],
     wakeCh = make_chan 1, ping = newBroadcaster, stopChClosed = False, stopped = False,
     exportSnapshot = None\<rparr>"

definition SetSnapshotExporter :: "('st \<Rightarrow> PbSnapshot) \<Rightarrow> 'st Leader \<Rightarrow> 'st Leader" where
  "SetSnapshotExporter f l = l\<lparr>exportSnapshot := Some f\<rparr>"

definition Stop :: "'st Leader \<Rightarrow> 'st Leader go" where
  "Stop l = (if stopped l then Inr l
     else if stopChClosed l then Inl PanicCloseOfClosed
     else Inr (l\<lparr>stopped := True, stopChClosed := True\<rparr>))"

definition wake :: "'st Leader \<Rightarrow> 'st Leader go" where
  "wake l = (case try_send () (Some (wakeCh l)) of
     Sent c \<Rightarrow> Inr (l\<lparr>wakeCh := c\<rparr>) | WouldBlock \<Rightarrow> Inr l | SendPanics p \<Rightarrow> Inl p)"

definition notifyReplicators :: "'st Leader \<Rightarrow> 'st Leader go" where
  "notifyReplicators l = go_bind (notify (ping l)) (\<lambda>b. Inr (l\<lparr>ping := b\<rparr>))"

definition SubscribeEntries :: "'st Leader \<Rightarrow> 'st Leader \<times> int64" where
  "SubscribeEntries l = (let (b, i) = subscribe (ping l) in (l\<lparr>ping := b\<rparr>, i))"

definition UnsubscribeEntries :: "int64 \<Rightarrow> 'st Leader \<Rightarrow> 'st Leader" where
  "UnsubscribeEntries i l = l\<lparr>ping := unsubscribe i (ping l)\<rparr>"

definition LastIndex :: "'st Leader \<Rightarrow> int64" where
  "LastIndex l = compactIndex l + int (length (ldLog l))"

definition CommittedIndex :: "'st Leader \<Rightarrow> int64" where
  "CommittedIndex l = ldCommit l"

definition MatchOf :: "int32 \<Rightarrow> 'st Leader \<Rightarrow> int64" where
  "MatchOf i l = (case map_of (ldMatch l) i of None \<Rightarrow> 0 | Some n \<Rightarrow> n)"

subsection \<open>Proposals\<close>

text \<open>The first half of \<open>Propose\<close>, up to the select: the entry gets its index, a waiter is
  registered and the loops are signalled.\<close>

definition Propose :: "LogEntry \<Rightarrow> 'st Leader \<Rightarrow> ('st Leader \<times> (go_error + int64)) go" where
  "Propose e l =
    (if stopped l then Inr (l, Inl ErrNotLeader)
     else let index = compactIndex l + int (length (ldLog l)) + 1;
              e' = e\<lparr>leIndex := index, leTerm := 1\<rparr>;
              l1 = l\<lparr>resChans := (resChans l)(index \<mapsto> make_chan 1),
                     waiters := AList.update index index (waiters l), ldLog := ldLog l @ [e']\<rparr>
          in go_bind (wake l1) (\<lambda>l2. go_bind (notifyReplicators l2) (\<lambda>l3. Inr (l3, Inr index))))"

text \<open>The select at the end of \<open>Propose\<close>. None: the chosen case is not ready.\<close>

datatype propose_case = CaseResult | CaseCtxDone ctx_err | CaseStopped

definition propose_select ::
  "propose_case \<Rightarrow> int64 \<Rightarrow> 'st Leader \<Rightarrow> ('st Leader \<times> (go_error + Outcome)) option" where
  "propose_select c index l = (case c of
     CaseResult \<Rightarrow> (case resChans l index of None \<Rightarrow> None
       | Some ch \<Rightarrow> (case try_recv ch of
           Received r ch' \<Rightarrow> Some (l\<lparr>resChans := (resChans l)(index \<mapsto> ch')\<rparr>, Inr r)
         | RecvClosed \<Rightarrow> Some (l, Inr noOutcome)
         | RecvEmpty \<Rightarrow> None))
   | CaseCtxDone err \<Rightarrow> Some (l\<lparr>waiters := AList.delete index (waiters l)\<rparr>, Inl (ErrCtx err))
   | CaseStopped \<Rightarrow> if stopChClosed l then Some (l, Inl ErrNotLeader) else None)"

subsection \<open>Commit and application\<close>

definition votes :: "'st Leader \<Rightarrow> int64 \<Rightarrow> int" where
  "votes l i = 1 + int (length (filter (\<lambda>(nid, addr). nid \<noteq> cfgNodeID (ldCfg l) \<and> MatchOf nid l \<ge> i)
     (cfgNodeAddrs (ldCfg l))))"

definition needVotes :: "'st Leader \<Rightarrow> int" where
  "needVotes l = Quorum (int (length (cfgNodeAddrs (ldCfg l))))"

text \<open>The search for the largest index that can be committed, from the end of the log down.\<close>

function find_commit :: "(int64 \<Rightarrow> bool) \<Rightarrow> int64 \<Rightarrow> int64 \<Rightarrow> int64" where
  "find_commit enough i commit =
    (if i > commit then if enough i then i else find_commit enough (i - 1) commit else commit)"
  by auto

termination
  by (relation "measure (\<lambda>(enough, i, commit). nat (i - commit))") auto

declare find_commit.simps [simp del]

type_synonym signals = "(chan_ref \<times> Outcome) list"

text \<open>The application loop. \<open>clk idx\<close> is the clock reading while the entry \<open>idx\<close> is applied.\<close>

function apply_range :: "(int64 \<Rightarrow> int64) \<Rightarrow> int64 \<Rightarrow> int64 \<Rightarrow> 'st Leader \<Rightarrow> signals
    \<Rightarrow> ('st Leader \<times> signals) go" where
  "apply_range clk idx newCommit l sigs =
    (if idx \<le> newCommit
     then go_bind (slice_at (ldLog l) (idx - 1 - compactIndex l)) (\<lambda>e.
       go_bind (applyOne (ldAp l) (clk idx) e (ldState l)) (\<lambda>(st, res).
         let l1 = l\<lparr>ldState := st, ldApplied := idx\<rparr>
         in case map_of (waiters l1) idx of
              Some ch \<Rightarrow> apply_range clk (idx + 1) newCommit
                          (l1\<lparr>waiters := AList.delete idx (waiters l1)\<rparr>) (sigs @ [(ch, res)])
            | None \<Rightarrow> apply_range clk (idx + 1) newCommit l1 sigs))
     else Inr (l, sigs))"
  by auto

termination
  by (relation "measure (\<lambda>(clk, idx, newCommit, l, sigs). nat (newCommit + 1 - idx))") auto

declare apply_range.simps [simp del]

definition compactLocked :: "'st Leader \<Rightarrow> 'st Leader go" where
  "compactLocked l =
    (if int (length (ldLog l)) \<le> retainEntries \<or> ldCommit l \<le> compactIndex l then Inr l
     else let cut = ldCommit l;
              l1 = (case exportSnapshot l of None \<Rightarrow> l | Some f \<Rightarrow> l\<lparr>savedSnap := Some (f (ldState l))\<rparr>)
          in go_bind (slice_from (ldLog l) (cut - compactIndex l)) (\<lambda>rest.
               Inr (l1\<lparr>ldLog := rest, compactIndex := cut\<rparr>)))"

text \<open>One turn of \<open>commitLoop\<close> under the lock.\<close>

definition commit_pass :: "(int64 \<Rightarrow> int64) \<Rightarrow> 'st Leader \<Rightarrow> ('st Leader \<times> signals) go" where
  "commit_pass clk l =
    (let lastIndex = compactIndex l + int (length (ldLog l));
         newCommit = find_commit (\<lambda>i. votes l i \<ge> needVotes l) lastIndex (ldCommit l)
     in if newCommit > ldCommit l
        then go_bind (apply_range clk (ldCommit l + 1) newCommit l []) (\<lambda>(l1, sigs).
               go_bind (compactLocked (l1\<lparr>ldCommit := newCommit\<rparr>)) (\<lambda>l2. Inr (l2, sigs)))
        else Inr (l, []))"

text \<open>After the lock is released the results are sent, a blocking send each. None: the loop blocks
  on a channel that is nil or full.\<close>

fun send_signals :: "signals \<Rightarrow> (chan_ref \<rightharpoonup> Outcome chan) \<Rightarrow> (chan_ref \<rightharpoonup> Outcome chan) option go" where
  "send_signals [] H = Inr (Some H)"
| "send_signals ((ch, res) # sigs) H =
    (case try_send res (H ch) of
       Sent c \<Rightarrow> send_signals sigs (H(ch \<mapsto> c))
     | WouldBlock \<Rightarrow> Inr None
     | SendPanics p \<Rightarrow> Inl p)"

text \<open>A turn of \<open>commitLoop\<close>: the receive from \<open>wakeCh\<close>, the critical section, the results.\<close>

definition commitLoop_turn :: "(int64 \<Rightarrow> int64) \<Rightarrow> 'st Leader \<Rightarrow> 'st Leader option go" where
  "commitLoop_turn clk l =
    (case try_recv (wakeCh l) of
       Received u c \<Rightarrow>
         go_bind (commit_pass clk (l\<lparr>wakeCh := c\<rparr>)) (\<lambda>(l', sigs).
           go_bind (send_signals sigs (resChans l')) (\<lambda>sent.
             Inr (map_option (\<lambda>H. l'\<lparr>resChans := H\<rparr>) sent)))
     | _ \<Rightarrow> Inr None)"

subsection \<open>Followers\<close>

definition FollowerAck :: "int32 \<Rightarrow> int64 \<Rightarrow> 'st Leader \<Rightarrow> 'st Leader go" where
  "FollowerAck i index l =
    wake (if index > MatchOf i l then l\<lparr>ldMatch := AList.update i index (ldMatch l)\<rparr> else l)"

definition FollowerReset :: "int32 \<Rightarrow> 'st Leader \<Rightarrow> 'st Leader go" where
  "FollowerReset i l = wake (l\<lparr>ldMatch := AList.update i 0 (ldMatch l)\<rparr>)"

definition Catchup :: "int64 \<Rightarrow> 'st Leader \<Rightarrow> (PbSnapshot option \<times> LogEntry list) go" where
  "Catchup followerLast l =
    (let firstKept = compactIndex l + 1
     in if followerLast \<ge> firstKept
        then go_bind (slice_from (ldLog l) (followerLast - compactIndex l)) (\<lambda>es. Inr (None, es))
        else if compactIndex l = 0 then Inr (None, ldLog l)
        else let snap = savedSnap l;
                 snap' = (case (snap, exportSnapshot l) of
                   (None, Some f) \<Rightarrow> Some (f (ldState l)) | _ \<Rightarrow> snap)
             in Inr (snap', ldLog l))"

definition EntriesAfter :: "int64 \<Rightarrow> 'st Leader \<Rightarrow> (LogEntry list \<times> bool) go" where
  "EntriesAfter followerLast l =
    (if followerLast < compactIndex l then Inr ([], False)
     else go_bind (slice_from (ldLog l) (followerLast - compactIndex l)) (\<lambda>es. Inr (es, True)))"

definition HasQuorumPeers :: "'st Leader \<Rightarrow> bool" where
  "HasQuorumPeers l =
    (1 + int (length (filter (\<lambda>(nid, addr). nid \<noteq> cfgNodeID (ldCfg l) \<and> MatchOf nid l > 0)
       (cfgNodeAddrs (ldCfg l)))) \<ge> needVotes l)"

end
