(* ===== verification/LeaderInv.thy ===== *)
theory LeaderInv
  imports Leader
begin

text \<open>
  The leader in one piece: what a turn of the commit loop computes, the invariant of the leader
  and its preservation by every operation. The lemmas about application are proved in the locale
  \<open>applier\<close>, so they hold for any state machine that honours the interface.
\<close>

subsection \<open>The search for the commit index\<close>

lemma find_commit_spec:
  assumes "commit \<le> i"
  shows "commit \<le> find_commit ok i commit \<and> find_commit ok i commit \<le> i
    \<and> (find_commit ok i commit = commit \<or> ok (find_commit ok i commit))
    \<and> (\<forall>j. find_commit ok i commit < j \<and> j \<le> i \<longrightarrow> \<not> ok j)"
  using assms
proof (induction ok i commit rule: find_commit.induct)
  case (1 ok i commit)
  show ?case
  proof (cases "i > commit \<and> \<not> ok i")
    case True
    with 1 have "commit \<le> find_commit ok (i - 1) commit \<and> find_commit ok (i - 1) commit \<le> i - 1
      \<and> (find_commit ok (i - 1) commit = commit \<or> ok (find_commit ok (i - 1) commit))
      \<and> (\<forall>j. find_commit ok (i - 1) commit < j \<and> j \<le> i - 1 \<longrightarrow> \<not> ok j)" by simp
    moreover have "find_commit ok i commit = find_commit ok (i - 1) commit"
      using True by (subst find_commit.simps) simp
    ultimately show ?thesis
      using True by (metis dual_order.order_iff_strict zle_diff1_eq)
  next
    case False
    then have "find_commit ok i commit = i"
      using 1(2) by (subst find_commit.simps) auto
    with False 1(2) show ?thesis by auto
  qed
qed

subsection \<open>The application loop\<close>

definition log_range :: "int64 \<Rightarrow> int64 \<Rightarrow> 'st Leader \<Rightarrow> LogEntry list" where
  "log_range idx n l = take (nat (n + 1 - idx)) (drop (nat (idx - 1 - compactIndex l)) (ldLog l))"

fun signals_for :: "(int64, chan_ref) gomap \<Rightarrow> int64 \<Rightarrow> Outcome list \<Rightarrow> signals" where
  "signals_for W idx [] = []"
| "signals_for W idx (r # rs) =
    (case map_of W idx of Some ch \<Rightarrow> [(ch, r)] | None \<Rightarrow> []) @ signals_for W (idx + 1) rs"

fun clocked :: "(int64 \<Rightarrow> int64) \<Rightarrow> int64 \<Rightarrow> LogEntry list \<Rightarrow> (int64 \<times> LogEntry) list" where
  "clocked clk idx [] = []"
| "clocked clk idx (e # es) = (clk idx, e) # clocked clk (idx + 1) es"

lemma map_snd_clocked [simp]: "map snd (clocked clk idx es) = es"
  by (induction es arbitrary: idx) auto

lemma length_clocked [simp]: "length (clocked clk idx es) = length es"
  by (induction es arbitrary: idx) auto

lemma log_range_step:
  assumes "compactIndex l < idx" and "idx \<le> n" and "n \<le> LastIndex l"
  shows "slice_at (ldLog l) (idx - 1 - compactIndex l) = Inr (ldLog l ! nat (idx - 1 - compactIndex l))"
    and "log_range idx n l = ldLog l ! nat (idx - 1 - compactIndex l) # log_range (idx + 1) n l"
proof -
  have k: "nat (idx - 1 - compactIndex l) < length (ldLog l)"
    using assms by (auto simp: LastIndex_def)
  show "slice_at (ldLog l) (idx - 1 - compactIndex l) = Inr (ldLog l ! nat (idx - 1 - compactIndex l))"
    using assms by (intro slice_at_ok) (auto simp: LastIndex_def)
  have "nat (n + 1 - idx) = Suc (nat (n - idx))" "nat (idx - compactIndex l) = Suc (nat (idx - 1 - compactIndex l))"
    using assms by auto
  then show "log_range idx n l = ldLog l ! nat (idx - 1 - compactIndex l) # log_range (idx + 1) n l"
    using Cons_nth_drop_Suc [OF k, symmetric] by (simp add: log_range_def)
qed

lemma length_log_range:
  assumes "compactIndex l < idx" and "idx \<le> n + 1" and "n \<le> LastIndex l"
  shows "int (length (log_range idx n l)) = n + 1 - idx"
  using assms by (auto simp: log_range_def LastIndex_def)

definition answered :: "int64 \<Rightarrow> int64 \<Rightarrow> (int64, chan_ref) gomap \<Rightarrow> (int64, chan_ref) gomap" where
  "answered idx n W = filter (\<lambda>(i, ch). \<not> (idx \<le> i \<and> i \<le> n)) W"

lemma apply_range_eq:
  assumes "compactIndex l < idx" and "n \<le> LastIndex l" and "gomap_ok (waiters l)"
  shows "apply_range clk idx n l sigs =
    (case apply_all (ldAp l) (clocked clk idx (log_range idx n l)) (ldState l) of
       Inl p \<Rightarrow> Inl p
     | Inr (st, rs) \<Rightarrow>
         Inr (l\<lparr>ldState := st, ldApplied := (if idx \<le> n then n else ldApplied l),
                waiters := answered idx n (waiters l)\<rparr>,
              sigs @ signals_for (waiters l) idx rs))"
  using assms
proof (induction clk idx n l sigs rule: apply_range.induct)
  case (1 clk idx n l sigs)
  show ?case
  proof (cases "idx \<le> n")
    case False
    then have "answered idx n (waiters l) = waiters l"
      by (auto simp: answered_def intro!: filter_True)
    with False show ?thesis
      by (subst apply_range.simps) (simp add: log_range_def)
  next
    case True
    let ?e = "ldLog l ! nat (idx - 1 - compactIndex l)"
    note step = log_range_step [OF 1(3) True 1(4)]
    show ?thesis
    proof (cases "applyOne (ldAp l) (clk idx) ?e (ldState l)")
      case (Inl p)
      then show ?thesis
        using True by (subst apply_range.simps) (simp add: step)
    next
      case (Inr q)
      obtain st r where q: "q = (st, r)" by (cases q)
      note app = Inr [unfolded q]
      let ?l1 = "l\<lparr>ldState := st, ldApplied := idx\<rparr>"
      let ?l2 = "?l1\<lparr>waiters := AList.delete idx (waiters l)\<rparr>"
      have lr: "log_range (idx + 1) n ?l2 = log_range (idx + 1) n l"
        "log_range (idx + 1) n ?l1 = log_range (idx + 1) n l" by (simp_all add: log_range_def)
      have del: "AList.delete idx (waiters l) = filter (\<lambda>(i, ch). i \<noteq> idx) (waiters l)"
        by (auto simp: AList.delete_eq intro: filter_cong)
      have later: "map_of (AList.delete idx (waiters l)) j = map_of (waiters l) j" if "idx < j" for j
        using that by (simp add: map_of_AList_delete)
      have sig: "signals_for (AList.delete idx (waiters l)) j rs = signals_for (waiters l) j rs"
        if "idx < j" for j rs
        using that by (induction rs arbitrary: j) (simp_all add: later)
      have fil: "answered (idx + 1) n (AList.delete idx (waiters l)) = answered idx n (waiters l)"
        using True by (auto simp: answered_def del intro!: filter_cong)
      show ?thesis
      proof (cases "map_of (waiters l) idx")
        case (Some ch)
        have "apply_range clk idx n l sigs = apply_range clk (idx + 1) n ?l2 (sigs @ [(ch, r)])"
          using True by (subst apply_range.simps) (simp add: step app Some)
        also have "\<dots> = (case apply_all (ldAp l) (clocked clk (idx + 1) (log_range (idx + 1) n l)) st of
            Inl p \<Rightarrow> Inl p
          | Inr (st', rs) \<Rightarrow> Inr (?l2\<lparr>ldState := st', ldApplied := (if idx + 1 \<le> n then n else idx),
                waiters := answered idx n (waiters l)\<rparr>,
              (sigs @ [(ch, r)]) @ signals_for (waiters l) (idx + 1) rs))"
          using 1(2) [OF True, of ?l1 st ch r] Some 1(3-5)
          by (cases "apply_all (ldAp l) (clocked clk (idx + 1) (log_range (idx + 1) n l)) st")
            (auto simp: lr fil sig LastIndex_def distinct_delete)
        finally show ?thesis
          using True Some by (auto simp: step app split: sum.splits)
      next
        case None
        have del: "AList.delete idx (waiters l) = waiters l"
          using None by (simp add: map_of_eq_None_iff)
        have "apply_range clk idx n l sigs = apply_range clk (idx + 1) n ?l1 sigs"
          using True by (subst apply_range.simps) (simp add: step app None)
        also have "\<dots> = (case apply_all (ldAp l) (clocked clk (idx + 1) (log_range (idx + 1) n l)) st of
            Inl p \<Rightarrow> Inl p
          | Inr (st', rs) \<Rightarrow> Inr (?l1\<lparr>ldState := st', ldApplied := (if idx + 1 \<le> n then n else idx),
                waiters := answered idx n (waiters l)\<rparr>,
              sigs @ signals_for (waiters l) (idx + 1) rs))"
          using 1(1) [OF True, of ?l1 st] None 1(3-5) fil [unfolded del]
          by (cases "apply_all (ldAp l) (clocked clk (idx + 1) (log_range (idx + 1) n l)) st")
            (auto simp: lr LastIndex_def)
        finally show ?thesis
          using True None by (auto simp: step app split: sum.splits)
      qed
    qed
  qed
qed

subsection \<open>The invariant\<close>

definition wake_ok :: "unit chan \<Rightarrow> bool" where
  "wake_ok c \<longleftrightarrow> \<not> chClosed c \<and> chCap c = 1 \<and> length (chBuf c) \<le> 1"

definition waiters_inv :: "'st Leader \<Rightarrow> bool" where
  "waiters_inv l \<longleftrightarrow> gomap_ok (waiters l)
     \<and> (\<forall>(i, ch) \<in> set (waiters l). ch = i \<and> ldCommit l < i \<and> i \<le> LastIndex l
          \<and> resChans l i = Some (make_chan 1))
     \<and> (\<forall>i. resChans l i \<noteq> None \<longrightarrow> i \<le> LastIndex l)"

text \<open>The exported snapshots are usable (\<open>snok\<close>) and carry the applied index; once the log has been
  truncated the saved snapshot covers exactly the truncated part.\<close>

definition exporter_ok :: "'st Applier \<Rightarrow> ('st \<Rightarrow> bool) \<Rightarrow> (PbSnapshot \<Rightarrow> bool) \<Rightarrow> 'st Leader \<Rightarrow> bool" where
  "exporter_ok ap ok snok l \<longleftrightarrow> (\<forall>f st. exportSnapshot l = Some f \<longrightarrow> ok st \<longrightarrow>
     snok (f st) \<and> snLastIncludedIndex (f st) = AppliedIndex ap st)"

definition snap_inv :: "(PbSnapshot \<Rightarrow> bool) \<Rightarrow> 'st Leader \<Rightarrow> bool" where
  "snap_inv snok l \<longleftrightarrow> (exportSnapshot l \<noteq> None \<and> 0 < compactIndex l \<longrightarrow>
     (\<exists>p. savedSnap l = Some p \<and> snok p \<and> snLastIncludedIndex p = compactIndex l))"

definition log_inv :: "(LogEntry \<Rightarrow> bool) \<Rightarrow> 'st Leader \<Rightarrow> bool" where
  "log_inv fits l \<longleftrightarrow> (\<forall>e\<in>set (ldLog l). fits e) \<and> consecutive (compactIndex l) (ldLog l)
     \<and> 0 \<le> compactIndex l \<and> compactIndex l \<le> ldCommit l \<and> ldCommit l \<le> LastIndex l"

definition leader_inv :: "'st Applier \<Rightarrow> ('st \<Rightarrow> bool) \<Rightarrow> (LogEntry \<Rightarrow> bool) \<Rightarrow> (PbSnapshot \<Rightarrow> bool)
    \<Rightarrow> 'st Leader \<Rightarrow> bool" where
  "leader_inv ap ok fits snok l \<longleftrightarrow> ldAp l = ap \<and> ok (ldState l) \<and> log_inv fits l
     \<and> ldApplied l = ldCommit l \<and> AppliedIndex ap (ldState l) = ldCommit l
     \<and> waiters_inv l \<and> bc_ok (ping l) \<and> wake_ok (wakeCh l) \<and> stopped l = stopChClosed l
     \<and> exporter_ok ap ok snok l \<and> snap_inv snok l"

lemma leader_inv_new:
  "ok st \<Longrightarrow> AppliedIndex ap st = 0 \<Longrightarrow> leader_inv ap ok fits snok (NewLeader cfg ap st)"
  by (simp add: leader_inv_def NewLeader_def log_inv_def waiters_inv_def bc_ok_new wake_ok_def
      make_chan_def exporter_ok_def snap_inv_def LastIndex_def)

lemma wake_result:
  assumes "wake_ok (wakeCh l)"
  shows "wake l = Inr (l\<lparr>wakeCh := (wakeCh l)\<lparr>chBuf := [()]\<rparr>\<rparr>)"
proof -
  have "chBuf (wakeCh l) = [] \<or> chBuf (wakeCh l) = [()]"
    using assms by (cases "chBuf (wakeCh l)") (auto simp: wake_ok_def)
  then show ?thesis using assms by (auto simp: wake_def wake_ok_def)
qed

lemma leader_inv_wake:
  "leader_inv ap ok fits snok l \<Longrightarrow> leader_inv ap ok fits snok (l\<lparr>wakeCh := (wakeCh l)\<lparr>chBuf := [()]\<rparr>\<rparr>)"
  by (simp add: leader_inv_def log_inv_def waiters_inv_def LastIndex_def wake_ok_def exporter_ok_def
      snap_inv_def)

lemma leader_inv_match: "leader_inv ap ok fits snok l \<Longrightarrow> leader_inv ap ok fits snok (l\<lparr>ldMatch := m\<rparr>)"
  by (simp add: leader_inv_def log_inv_def waiters_inv_def LastIndex_def wake_ok_def exporter_ok_def
      snap_inv_def)

lemma leader_inv_ack:
  assumes "leader_inv ap ok fits snok l"
  shows "\<exists>l'. FollowerAck i index l = Inr l' \<and> leader_inv ap ok fits snok l'
    \<and> MatchOf i l' = max (MatchOf i l) index \<and> (\<forall>j. j \<noteq> i \<longrightarrow> MatchOf j l' = MatchOf j l)
    \<and> chBuf (wakeCh l') \<noteq> [] \<and> exportSnapshot l' = exportSnapshot l"
    and "\<exists>l'. FollowerReset i l = Inr l' \<and> leader_inv ap ok fits snok l'
    \<and> MatchOf i l' = 0 \<and> (\<forall>j. j \<noteq> i \<longrightarrow> MatchOf j l' = MatchOf j l)
    \<and> exportSnapshot l' = exportSnapshot l"
  using assms leader_inv_wake [OF leader_inv_match [OF assms]] leader_inv_wake [OF assms]
  by (auto simp: FollowerAck_def FollowerReset_def wake_result leader_inv_def MatchOf_def max_def)

lemma leader_inv_propose:
  assumes inv: "leader_inv ap ok fits snok l" and "\<not> stopped l"
    and "fits (e\<lparr>leIndex := LastIndex l + 1, leTerm := 1\<rparr>)"
  shows "\<exists>l'. Propose e l = Inr (l', Inr (LastIndex l + 1)) \<and> leader_inv ap ok fits snok l'
    \<and> ldLog l' = ldLog l @ [e\<lparr>leIndex := LastIndex l + 1, leTerm := 1\<rparr>] \<and> LastIndex l' = LastIndex l + 1
    \<and> ldCommit l' = ldCommit l \<and> ldState l' = ldState l \<and> ldMatch l' = ldMatch l
    \<and> compactIndex l' = compactIndex l \<and> chBuf (wakeCh l') \<noteq> [] \<and> exportSnapshot l' = exportSnapshot l"
proof -
  let ?index = "LastIndex l + 1"
  let ?e = "e\<lparr>leIndex := ?index, leTerm := 1\<rparr>"
  let ?l1 = "l\<lparr>resChans := (resChans l)(?index \<mapsto> make_chan 1),
    waiters := AList.update ?index ?index (waiters l), ldLog := ldLog l @ [?e],
    wakeCh := (wakeCh l)\<lparr>chBuf := [()]\<rparr>\<rparr>"
  have win: "waiters_inv l" and bc: "bc_ok (ping l)" and wk: "wake_ok (wakeCh l)" and lg: "log_inv fits l"
    using inv by (auto simp: leader_inv_def)
  obtain b where b: "notify (ping l) = Inr b" "bc_ok b"
    using notify_ok [OF bc] bc_ok_notify [OF bc] by blast
  have step: "Propose e l = Inr (?l1\<lparr>ping := b\<rparr>, Inr ?index)"
    using assms(2) wk wake_result [of "l\<lparr>resChans := (resChans l)(?index \<mapsto> make_chan 1),
      waiters := AList.update ?index ?index (waiters l), ldLog := ldLog l @ [?e]\<rparr>"]
    by (simp add: Propose_def Let_def LastIndex_def notifyReplicators_def b)
  have W: "gomap_ok (waiters l)" "\<forall>(i, ch) \<in> set (waiters l). ch = i \<and> ldCommit l < i \<and> i \<le> LastIndex l
      \<and> resChans l i = Some (make_chan 1)" "\<forall>i. resChans l i \<noteq> None \<longrightarrow> i \<le> LastIndex l"
    using win by (simp_all add: waiters_inv_def)
  have last: "LastIndex ?l1 = LastIndex l + 1" by (simp add: LastIndex_def)
  have "ch = i \<and> ldCommit ?l1 < i \<and> i \<le> LastIndex ?l1 \<and> resChans ?l1 i = Some (make_chan 1)"
    if "(i, ch) \<in> set (waiters ?l1)" for i ch
    using that W(2) in_set_update_iff [OF W(1), of "(i, ch)" ?index ?index] lg
    unfolding last by (auto simp: log_inv_def)
  moreover have "i \<le> LastIndex ?l1" if "resChans ?l1 i \<noteq> None" for i
  proof (cases "i = ?index")
    case False
    with that have "resChans l i \<noteq> None" by simp
    with W(3) have "i \<le> LastIndex l" by blast
    then show ?thesis unfolding last by simp
  next
    case True
    then show ?thesis unfolding last by simp
  qed
  ultimately have "waiters_inv ?l1"
    using W(1) unfolding waiters_inv_def by (auto intro: distinct_update)
  then have "waiters_inv (?l1\<lparr>ping := b\<rparr>)" by (simp add: waiters_inv_def LastIndex_def)
  moreover have "log_inv fits (?l1\<lparr>ping := b\<rparr>)"
    using lg assms(3) by (auto simp: log_inv_def LastIndex_def)
  ultimately have "leader_inv ap ok fits snok (?l1\<lparr>ping := b\<rparr>)"
    using inv b by (auto simp: leader_inv_def wake_ok_def exporter_ok_def snap_inv_def)
  with step show ?thesis by (auto simp: LastIndex_def)
qed

lemma propose_select_inv:
  assumes "leader_inv ap ok fits snok l" and "propose_select c index l = Some (l', r)"
  shows "leader_inv ap ok fits snok l'"
proof (cases c)
  case CaseResult
  with assms(2) obtain ch where ch: "resChans l index = Some ch" by (auto simp: propose_select_def split: option.splits)
  show ?thesis
  proof (cases "chBuf ch")
    case Nil
    with assms CaseResult ch show ?thesis
      by (auto simp: propose_select_def try_recv_def split: if_splits)
  next
    case (Cons x xs)
    then have l': "l' = l\<lparr>resChans := (resChans l)(index \<mapsto> ch\<lparr>chBuf := xs\<rparr>)\<rparr>"
      using assms(2) CaseResult ch by (auto simp: propose_select_def try_recv_def)
    have "waiters_inv l" using assms(1) by (simp add: leader_inv_def)
    then have "waiters_inv l'"
      using ch Cons by (fastforce simp: waiters_inv_def LastIndex_def l' make_chan_def)
    then show ?thesis
      using assms(1) by (auto simp: leader_inv_def l' log_inv_def LastIndex_def exporter_ok_def snap_inv_def)
  qed
next
  case (CaseCtxDone err)
  then have l': "l' = l\<lparr>waiters := AList.delete index (waiters l)\<rparr>"
    using assms(2) by (simp add: propose_select_def)
  have "waiters_inv l" using assms(1) by (simp add: leader_inv_def)
  then have "waiters_inv l'"
    by (auto simp: waiters_inv_def LastIndex_def l' in_set_delete_iff intro: distinct_delete)
  then show ?thesis
    using assms(1) by (auto simp: leader_inv_def l' log_inv_def LastIndex_def exporter_ok_def snap_inv_def)
next
  case CaseStopped
  with assms show ?thesis by (auto simp: propose_select_def split: if_splits)
qed

subsection \<open>A turn of the commit loop\<close>

text \<open>Sending the results: every waiter's channel is fresh, so no send blocks.\<close>

lemma send_signals_ok:
  assumes "distinct (map fst sigs)" and "\<forall>(ch, r)\<in>set sigs. H ch = Some (make_chan 1)"
  shows "send_signals sigs H = Inr (Some (\<lambda>ch. case map_of sigs ch of None \<Rightarrow> H ch
    | Some r \<Rightarrow> Some ((make_chan 1)\<lparr>chBuf := [r]\<rparr>)))"
  using assms
proof (induction sigs arbitrary: H)
  case Nil
  then show ?case by simp
next
  case (Cons p sigs)
  obtain ch r where p: "p = (ch, r)" by (cases p)
  let ?H = "H(ch \<mapsto> (make_chan 1)\<lparr>chBuf := [r]\<rparr>)"
  have fresh: "ch \<notin> fst ` set sigs" using Cons.prems(1) p by simp
  have "?H a = Some (make_chan 1)" if "(a, b) \<in> set sigs" for a b
  proof -
    have "a \<noteq> ch" using that fresh by force
    with that Cons.prems(2) show ?thesis by auto
  qed
  then have "\<forall>(ch, r)\<in>set sigs. ?H ch = Some (make_chan 1)" by blast
  moreover have "distinct (map fst sigs)" using Cons.prems(1) by simp
  ultimately have "send_signals sigs ?H = Inr (Some (\<lambda>ch. case map_of sigs ch of None \<Rightarrow> ?H ch
      | Some r \<Rightarrow> Some ((make_chan 1)\<lparr>chBuf := [r]\<rparr>)))" by (intro Cons.IH)
  moreover have "send_signals (p # sigs) H = send_signals sigs ?H"
    using Cons.prems(2) p by (simp add: make_chan_def)
  moreover have "map_of sigs ch = None" using fresh by (simp add: map_of_eq_None_iff)
  ultimately show ?case
    by (auto simp: p fun_eq_iff split: option.splits)
qed

lemma signals_for_props:
  assumes "\<forall>(i, ch)\<in>set W. ch = i"
  shows "distinct (map fst (signals_for W idx rs))
    \<and> (\<forall>ch\<in>fst ` set (signals_for W idx rs). idx \<le> ch \<and> ch < idx + int (length rs) \<and> map_of W ch = Some ch)"
proof (induction rs arbitrary: idx)
  case Nil
  then show ?case by simp
next
  case (Cons r rs)
  show ?case
  proof (cases "map_of W idx")
    case None
    with Cons [of "idx + 1"] show ?thesis by fastforce
  next
    case (Some ch)
    then have "ch = idx" using assms map_of_SomeD by fastforce
    with Cons [of "idx + 1"] Some show ?thesis by fastforce
  qed
qed

lemma signals_for_lookup:
  assumes "\<forall>(i, ch)\<in>set W. ch = i" and "idx \<le> i" and "i < idx + int (length rs)"
  shows "map_of (signals_for W idx rs) i
    = (if map_of W i = None then None else Some (rs ! nat (i - idx)))"
  using assms(2,3)
proof (induction rs arbitrary: idx)
  case Nil
  then show ?case by simp
next
  case (Cons r rs)
  have W: "map_of W j = Some ch \<Longrightarrow> ch = j" for j ch using assms(1) map_of_SomeD by fastforce
  show ?case
  proof (cases "i = idx")
    case True
    have "map_of (signals_for W (idx + 1) rs) idx = None"
      using signals_for_props [OF assms(1), of "idx + 1" rs] unfolding map_of_eq_None_iff by force
    then show ?thesis
      using True W [of idx] by (cases "map_of W idx") auto
  next
    case False
    with Cons.prems have "idx + 1 \<le> i" "i < idx + 1 + int (length rs)" by auto
    moreover have "nat (i - idx) = Suc (nat (i - (idx + 1)))" using False Cons.prems by simp
    ultimately show ?thesis
      using Cons.IH [of "idx + 1"] False W [of idx] by (auto split: option.splits)
  qed
qed

lemma compactLocked_ok:
  assumes "log_inv fits l" and "ok (ldState l)" and "AppliedIndex ap (ldState l) = ldCommit l"
    and "exporter_ok ap ok snok l" and "snap_inv snok l"
  shows "\<exists>sn k. k \<le> nat (ldCommit l - compactIndex l)
    \<and> compactLocked l = Inr (l\<lparr>savedSnap := sn, ldLog := drop k (ldLog l), compactIndex := compactIndex l + int k\<rparr>)
    \<and> log_inv fits (l\<lparr>savedSnap := sn, ldLog := drop k (ldLog l), compactIndex := compactIndex l + int k\<rparr>)
    \<and> snap_inv snok (l\<lparr>savedSnap := sn, ldLog := drop k (ldLog l), compactIndex := compactIndex l + int k\<rparr>)
    \<and> LastIndex (l\<lparr>savedSnap := sn, ldLog := drop k (ldLog l), compactIndex := compactIndex l + int k\<rparr>) = LastIndex l"
proof (cases "int (length (ldLog l)) \<le> retainEntries \<or> ldCommit l \<le> compactIndex l")
  case True
  with assms show ?thesis
    by (intro exI [of _ "savedSnap l"] exI [of _ 0]) (auto simp: compactLocked_def)
next
  case False
  let ?k = "nat (ldCommit l - compactIndex l)"
  let ?snap = "case exportSnapshot l of None \<Rightarrow> savedSnap l | Some f \<Rightarrow> Some (f (ldState l))"
  let ?l' = "l\<lparr>savedSnap := ?snap, ldLog := drop ?k (ldLog l), compactIndex := compactIndex l + int ?k\<rparr>"
  have range: "0 \<le> ldCommit l - compactIndex l" "ldCommit l - compactIndex l \<le> int (length (ldLog l))"
    using assms(1) False by (auto simp: log_inv_def LastIndex_def)
  then have "compactLocked l = Inr ?l'"
    using False by (auto simp: compactLocked_def Let_def slice_from_ok split: option.splits)
  moreover have last: "LastIndex ?l' = LastIndex l"
    using range by (simp add: LastIndex_def of_nat_diff)
  moreover have "log_inv fits ?l'"
    using assms(1) range consecutive_drop [of "compactIndex l" "ldLog l" ?k] last
    by (auto simp: log_inv_def dest: in_set_dropD)
  moreover have "snap_inv snok ?l'"
    using assms(2-4) range by (auto simp: snap_inv_def exporter_ok_def)
  ultimately show ?thesis by (intro exI [of _ ?snap] exI [of _ ?k]) simp
qed

context applier begin

lemma commit_pass_ok:
  assumes inv: "leader_inv ap ok fits snok l"
    and n: "n = find_commit (\<lambda>i. votes l i \<ge> needVotes l) (LastIndex l) (ldCommit l)"
  shows "\<exists>l' sigs rs. commit_pass clk l = Inr (l', sigs)
    \<and> apply_all ap (clocked clk (ldCommit l + 1) (log_range (ldCommit l + 1) n l)) (ldState l)
        = Inr (ldState l', rs)
    \<and> int (length rs) = n - ldCommit l \<and> sigs = signals_for (waiters l) (ldCommit l + 1) rs
    \<and> ldCommit l' = n \<and> LastIndex l' = LastIndex l \<and> resChans l' = resChans l
    \<and> waiters l' = answered (ldCommit l + 1) n (waiters l) \<and> leader_inv ap ok fits snok l'
    \<and> ldMatch l' = ldMatch l \<and> ldCfg l' = ldCfg l \<and> exportSnapshot l' = exportSnapshot l
    \<and> ldLog l' = drop (nat (compactIndex l' - compactIndex l)) (ldLog l) \<and> compactIndex l \<le> compactIndex l'"
proof -
  let ?c = "ldCommit l"
  have lg: "log_inv fits l" and app: "AppliedIndex ap (ldState l) = ?c" and st: "ok (ldState l)"
    and win: "waiters_inv l" and ap: "ldAp l = ap" "ldApplied l = ?c"
    using inv by (auto simp: leader_inv_def)
  have range: "compactIndex l \<le> ?c" "?c \<le> n" "n \<le> LastIndex l"
    using find_commit_spec [of ?c "LastIndex l" "\<lambda>i. votes l i \<ge> needVotes l"] lg
    by (auto simp: log_inv_def n)
  let ?es = "log_range (?c + 1) n l"
  have len: "int (length ?es) = n - ?c"
    using length_log_range [of l "?c + 1" n] range by simp
  have "consecutive (compactIndex l + int (nat (?c - compactIndex l))) (drop (nat (?c - compactIndex l)) (ldLog l))"
    using lg range by (intro consecutive_drop) (auto simp: log_inv_def LastIndex_def)
  then have "consecutive ?c ?es"
    unfolding log_range_def using range consecutive_append append_take_drop_id by (metis (no_types, opaque_lifting)
      add.commute add_diff_cancel_right' diff_add_cancel diff_ge_0_iff_ge nat_0_le)
  moreover have "\<forall>e\<in>set ?es. fits e"
    using lg by (auto simp: log_range_def log_inv_def dest!: in_set_takeD in_set_dropD)
  ultimately obtain st' rs where all: "apply_all ap (clocked clk (?c + 1) ?es) (ldState l) = Inr (st', rs)"
    "ok st'" "length rs = length ?es" "AppliedIndex ap st' = n"
    using apply_all_ok [OF st, of "clocked clk (?c + 1) ?es"] app len by auto
  show ?thesis
  proof (cases "n > ?c")
    case False
    then have "n = ?c" using range by simp
    moreover have "commit_pass clk l = Inr (l, [])"
      using False by (simp add: commit_pass_def Let_def n LastIndex_def)
    moreover have "answered (?c + 1) ?c (waiters l) = waiters l"
      by (auto simp: answered_def intro!: filter_True)
    moreover have "?es = []" "rs = []" using len all(3) \<open>n = ?c\<close> by auto
    ultimately show ?thesis
      using all(1) inv by (intro exI [of _ l] exI [of _ "[]"]) simp
  next
    case True
    let ?l1 = "l\<lparr>ldState := st', ldApplied := n, waiters := answered (?c + 1) n (waiters l)\<rparr>"
    let ?l2 = "?l1\<lparr>ldCommit := n\<rparr>"
    have run: "apply_range clk (?c + 1) n l [] = Inr (?l1, signals_for (waiters l) (?c + 1) rs)"
      using apply_range_eq [of l "?c + 1" n clk "[]"] range win True all(1)
      by (simp add: waiters_inv_def ap)
    have "log_inv fits ?l2" using lg range by (simp add: log_inv_def LastIndex_def)
    moreover have "exporter_ok ap ok snok ?l2" "snap_inv snok ?l2"
      using inv by (simp_all add: leader_inv_def exporter_ok_def snap_inv_def)
    ultimately obtain sn k where k: "k \<le> nat (n - compactIndex l)"
      and comp: "compactLocked ?l2 = Inr (?l2\<lparr>savedSnap := sn, ldLog := drop k (ldLog l), compactIndex := compactIndex l + int k\<rparr>)"
        "log_inv fits (?l2\<lparr>savedSnap := sn, ldLog := drop k (ldLog l), compactIndex := compactIndex l + int k\<rparr>)"
        "snap_inv snok (?l2\<lparr>savedSnap := sn, ldLog := drop k (ldLog l), compactIndex := compactIndex l + int k\<rparr>)"
        "LastIndex (?l2\<lparr>savedSnap := sn, ldLog := drop k (ldLog l), compactIndex := compactIndex l + int k\<rparr>) = LastIndex l"
      using compactLocked_ok [of fits ?l2 ok ap snok] all(2,4) by (auto simp: LastIndex_def)
    define l' where "l' = ?l2\<lparr>savedSnap := sn, ldLog := drop k (ldLog l), compactIndex := compactIndex l + int k\<rparr>"
    have same: "ldState l' = st'" "ldCommit l' = n" "resChans l' = resChans l" "ldApplied l' = n"
      "waiters l' = answered (?c + 1) n (waiters l)" "ldMatch l' = ldMatch l" "ldCfg l' = ldCfg l"
      "ldAp l' = ap" "ping l' = ping l" "wakeCh l' = wakeCh l" "stopped l' = stopped l"
      "stopChClosed l' = stopChClosed l" "exportSnapshot l' = exportSnapshot l"
      "compactIndex l' = compactIndex l + int k" "ldLog l' = drop k (ldLog l)"
      by (simp_all add: l'_def ap)
    note comp' = comp [folded l'_def]
    have "waiters_inv l'"
      using win unfolding waiters_inv_def comp'(4) same
      by (auto simp: answered_def distinct_map_filter)
    then have "leader_inv ap ok fits snok l'"
      using inv all comp' by (simp add: leader_inv_def same exporter_ok_def)
    moreover have "ldLog l' = drop (nat (compactIndex l' - compactIndex l)) (ldLog l) \<and> compactIndex l \<le> compactIndex l'"
      by (simp add: same)
    moreover have "commit_pass clk l = Inr (l', signals_for (waiters l) (?c + 1) rs)"
      using True run comp'(1) unfolding commit_pass_def Let_def LastIndex_def [symmetric] n [symmetric] by simp
    ultimately show ?thesis
      using all len same comp'(4) by (intro exI [of _ l'] exI [of _ "signals_for (waiters l) (?c + 1) rs"] exI [of _ rs]) simp
  qed
qed

end

end
