(* ===== verification/Streams.thy ===== *)
theory Streams
  imports LeaderInv
begin

text \<open>
  The replication stream (\<open>internal/repl/stream.go\<close>, \<open>internal/repl/follower.go\<close>): the follower
  that applies what it receives (\<open>ApplyStream\<close>), its reconnect loop (\<open>FollowerRunner.Run\<close>), and
  the leader's side of a stream (\<open>PeerManager\<close>, \<open>sendCatchup\<close> and the push loop).

  The gRPC stream is the environment: what a receive returns and whether a send works is given
  by the script the definitions take. A script that ends is a stream that stays silent
  (\<open>EndWaiting\<close>).
\<close>

subsection \<open>ApplyStream\<close>

datatype recv_result = RecvMsg AppendEntriesRequest | RecvEOF | RecvErr string

datatype stream_end =
    EndNil
  | EndErr string
  | EndProtocol int64 int64
  | EndUnknownPayload
  | EndWaiting

record recv_item =
  riNow :: int64
  riRecv :: recv_result
  riSend :: "string option"

definition ack :: "'st Applier \<Rightarrow> int32 \<Rightarrow> 'st \<Rightarrow> AppendEntriesResponse" where
  "ack ap fid st = \<lparr>arFollowerId = fid, arAckIndex = AppliedIndex ap st, arSuccess = True\<rparr>"

text \<open>The switch on the payload. None: the message is a duplicate and is skipped without an ack.\<close>

definition handle_payload :: "'st Applier \<Rightarrow> int64 \<Rightarrow> AppendEntriesRequest \<Rightarrow> 'st
    \<Rightarrow> (stream_end + 'st option) go" where
  "handle_payload ap now req st = (case aePayload req of
     Some (AppendEntriesRequest_Snapshot p) \<Rightarrow>
       go_bind (apSnapshot ap (Some p) st) (\<lambda>st'. Inr (Inr (Some st')))
   | Some (AppendEntriesRequest_Entry e) \<Rightarrow>
       (let want = AppliedIndex ap st + 1
        in if leIndex e < want then Inr (Inr None)
           else if leIndex e \<noteq> want then Inr (Inl (EndProtocol (leIndex e) want))
           else go_bind (applyOne ap now e st) (\<lambda>(st', r). Inr (Inr (Some st'))))
   | None \<Rightarrow> Inr (Inl EndUnknownPayload))"

fun stream_loop :: "'st Applier \<Rightarrow> int32 \<Rightarrow> recv_item list \<Rightarrow> 'st \<Rightarrow> AppendEntriesResponse list
    \<Rightarrow> ('st \<times> AppendEntriesResponse list \<times> stream_end) go" where
  "stream_loop ap fid [] st sent = Inr (st, sent, EndWaiting)"
| "stream_loop ap fid (it # its) st sent =
    (case riRecv it of
       RecvEOF \<Rightarrow> Inr (st, sent, EndNil)
     | RecvErr err \<Rightarrow> Inr (st, sent, EndErr err)
     | RecvMsg req \<Rightarrow>
         go_bind (handle_payload ap (riNow it) req st) (\<lambda>r. case r of
           Inl e \<Rightarrow> Inr (st, sent, e)
         | Inr None \<Rightarrow> stream_loop ap fid its st sent
         | Inr (Some st') \<Rightarrow>
             (case riSend it of
                Some err \<Rightarrow> Inr (st', sent, EndErr err)
              | None \<Rightarrow> stream_loop ap fid its st' (sent @ [ack ap fid st']))))"

definition ApplyStream :: "'st Applier \<Rightarrow> int32 \<Rightarrow> string option \<Rightarrow> recv_item list \<Rightarrow> 'st
    \<Rightarrow> ('st \<times> AppendEntriesResponse list \<times> stream_end) go" where
  "ApplyStream ap fid send0 its st = (case send0 of
     Some err \<Rightarrow> Inr (st, [], EndErr err)
   | None \<Rightarrow> stream_loop ap fid its st [ack ap fid st])"

subsection \<open>FollowerRunner\<close>

record FollowerRunner =
  frSelfID :: int32
  frLeaderAddr :: string
  frRetryBackoff :: int64

definition NewFollowerRunner :: "int32 \<Rightarrow> string \<Rightarrow> FollowerRunner" where
  "NewFollowerRunner selfID leaderAddr =
    \<lparr>frSelfID = selfID, frLeaderAddr = leaderAddr, frRetryBackoff = 500 * 1000000\<rparr>"

text \<open>What one turn of the loop meets: is the context done at the head, do the dial and the stream
  open fail, what does the stream bring, is the context done after an error and during the wait.\<close>

record attempt =
  atDone :: bool
  atDialErr :: "string option"
  atOpenErr :: "string option"
  atSend0 :: "string option"
  atItems :: "recv_item list"
  atDoneErr :: bool
  atDoneWait :: bool

definition once :: "'st Applier \<Rightarrow> FollowerRunner \<Rightarrow> attempt \<Rightarrow> 'st \<Rightarrow> ('st \<times> stream_end) go" where
  "once ap r a st = (case atDialErr a of
     Some err \<Rightarrow> Inr (st, EndErr err)
   | None \<Rightarrow> (case atOpenErr a of
       Some err \<Rightarrow> Inr (st, EndErr err)
     | None \<Rightarrow> go_bind (ApplyStream ap (frSelfID r) (atSend0 a) (atItems a) st)
                 (\<lambda>(st', sent, e). Inr (st', e))))"

text \<open>\<open>Run\<close> over the attempts: the state, and whether the loop has returned.\<close>

fun Run :: "'st Applier \<Rightarrow> FollowerRunner \<Rightarrow> attempt list \<Rightarrow> 'st \<Rightarrow> ('st \<times> bool) go" where
  "Run ap r [] st = Inr (st, False)"
| "Run ap r (a # as) st =
    (if atDone a then Inr (st, True)
     else go_bind (once ap r a st) (\<lambda>(st', e).
       if e = EndWaiting then Inr (st', False)
       else if e \<noteq> EndNil \<and> atDoneErr a then Inr (st', True)
       else if atDoneWait a then Inr (st', True)
       else Run ap r as st'))"

subsection \<open>The leader's side of a stream\<close>

text \<open>Streams of the same follower are told apart by a number, as the code compares pointers.\<close>

record PeerManager =
  pmPeers :: "(int32, int) gomap"
  pmNext :: int

definition NewPeerManager :: PeerManager where
  "NewPeerManager = \<lparr>pmPeers = [], pmNext = 0\<rparr>"

definition open_stream :: "int32 \<Rightarrow> PeerManager \<Rightarrow> PeerManager \<times> int" where
  "open_stream fid pm =
    (pm\<lparr>pmPeers := AList.update fid (pmNext pm) (pmPeers pm), pmNext := pmNext pm + 1\<rparr>, pmNext pm)"

text \<open>The deferred clean-up of \<open>HandleStreamWithInitial\<close>.\<close>

definition close_stream :: "int32 \<Rightarrow> int \<Rightarrow> PeerManager \<Rightarrow> 'st Leader \<Rightarrow> (PeerManager \<times> 'st Leader) go" where
  "close_stream fid ps pm l =
    (if map_of (pmPeers pm) fid = Some ps
     then go_bind (FollowerReset fid l) (\<lambda>l'. Inr (pm\<lparr>pmPeers := AList.delete fid (pmPeers pm)\<rparr>, l'))
     else Inr (pm, l))"

definition OnlineCount :: "PeerManager \<Rightarrow> int" where
  "OnlineCount pm = int (length (pmPeers pm))"

text \<open>The receive goroutine. Its state: the value in \<open>initialCh\<close> if any, and \<open>waitFirst\<close>.\<close>

definition recv_start :: "int64 \<Rightarrow> int64 option \<times> bool" where
  "recv_start initialAck = (if initialAck \<ge> 0 then (Some initialAck, False) else (None, True))"

definition recv_step :: "AppendEntriesResponse \<Rightarrow> int64 option \<times> bool \<Rightarrow> 'st Leader
    \<Rightarrow> ((int64 option \<times> bool) \<times> 'st Leader) go" where
  "recv_step resp = (\<lambda>(initial, waitFirst) l.
     if waitFirst
     then Inr ((case initial of None \<Rightarrow> Some (arAckIndex resp) | Some i \<Rightarrow> Some i, False), l)
     else go_bind (FollowerAck (arFollowerId resp) (arAckIndex resp) l) (\<lambda>l'. Inr ((initial, False), l')))"

definition entry_msg :: "LogEntry \<Rightarrow> AppendEntriesRequest" where
  "entry_msg e = \<lparr>aePayload = Some (AppendEntriesRequest_Entry e)\<rparr>"

definition snapshot_msg :: "PbSnapshot \<Rightarrow> AppendEntriesRequest" where
  "snapshot_msg p = \<lparr>aePayload = Some (AppendEntriesRequest_Snapshot p)\<rparr>"

text \<open>Sends in order until one fails. \<open>budget\<close> is the number of sends that work (None: all).\<close>

definition send_all :: "nat option \<Rightarrow> AppendEntriesRequest list \<Rightarrow> AppendEntriesRequest list \<times> bool" where
  "send_all budget msgs = (case budget of None \<Rightarrow> (msgs, True)
     | Some n \<Rightarrow> (take n msgs, length msgs \<le> n))"

definition sendCatchup :: "nat option \<Rightarrow> int64 \<Rightarrow> 'st Leader \<Rightarrow> (AppendEntriesRequest list \<times> bool) go" where
  "sendCatchup budget followerLast l =
    go_bind (Catchup followerLast l) (\<lambda>(snap, es).
      Inr (send_all budget ((case snap of None \<Rightarrow> [] | Some p \<Rightarrow> [snapshot_msg p]) @ map entry_msg es)))"

text \<open>
  The push goroutine. It takes the leader's lock several times and entries may be appended in
  between, so each call sees its own leader state: \<open>l1\<close> for \<open>Catchup\<close> or the first \<open>LastIndex\<close>,
  \<open>l2\<close> for the call after it, \<open>l3\<close> for the last. The result is what was sent, the new value of
  \<open>last\<close> (\<open>sentTo\<close> here), and whether the goroutine goes on.
\<close>

definition push_start :: "nat option \<Rightarrow> int64 \<Rightarrow> 'st Leader \<Rightarrow> 'st Leader
    \<Rightarrow> (AppendEntriesRequest list \<times> int64 \<times> bool) go" where
  "push_start budget sentTo l1 l2 =
    go_bind (sendCatchup budget sentTo l1) (\<lambda>(msgs, sent).
      Inr (if sent then (msgs, LastIndex l2, True) else (msgs, sentTo, False)))"

definition push_round :: "nat option \<Rightarrow> int64 \<Rightarrow> 'st Leader \<Rightarrow> 'st Leader \<Rightarrow> 'st Leader
    \<Rightarrow> (AppendEntriesRequest list \<times> int64 \<times> bool) go" where
  "push_round budget sentTo l1 l2 l3 =
    (let li = LastIndex l1
     in if sentTo \<ge> li then Inr ([], sentTo, True)
        else go_bind (EntriesAfter sentTo l2) (\<lambda>(es, inWindow).
          if \<not> inWindow then push_start budget sentTo l2 l3
          else let (msgs, sent) = send_all budget (map entry_msg es)
               in Inr (if sent then (msgs, li, True) else (msgs, sentTo, False))))"

subsection \<open>An applier that restores snapshots\<close>

locale snapshot_applier = applier +
  fixes snok :: "PbSnapshot \<Rightarrow> bool"
  assumes restores: "ok s \<Longrightarrow> snok p \<Longrightarrow> \<exists>s'. apSnapshot ap (Some p) s = Inr s' \<and> ok s'
    \<and> AppliedIndex ap s' = max (AppliedIndex ap s) (snLastIncludedIndex p)"

subsection \<open>What the follower does\<close>

lemma handle_entry_next:
  "leIndex e = AppliedIndex ap st + 1 \<Longrightarrow> applyOne ap now e st = Inr (st', r) \<Longrightarrow>
    handle_payload ap now (entry_msg e) st = Inr (Inr (Some st'))"
  by (simp add: handle_payload_def entry_msg_def)

lemma handle_entry_gap:
  "AppliedIndex ap st + 1 < leIndex e \<Longrightarrow>
    handle_payload ap now (entry_msg e) st = Inr (Inl (EndProtocol (leIndex e) (AppliedIndex ap st + 1)))"
  by (simp add: handle_payload_def entry_msg_def)

lemma handle_entry_old:
  "leIndex e \<le> AppliedIndex ap st \<Longrightarrow> handle_payload ap now (entry_msg e) st = Inr (Inr None)"
  by (simp add: handle_payload_def entry_msg_def)

lemma handle_payload_not_waiting: "handle_payload ap now req st \<noteq> Inr (Inl EndWaiting)"
  by (auto simp: handle_payload_def go_bind_Inr_iff Let_def
      split: option.splits AppendEntriesRequest_Payload.splits if_splits prod.splits)

text \<open>A stream that has not ended goes on with what comes next.\<close>

lemma stream_loop_append:
  "stream_loop ap fid xs st sent = Inr (st', sent', EndWaiting) \<Longrightarrow>
    stream_loop ap fid (xs @ ys) st sent = stream_loop ap fid ys st' sent'"
proof (induction xs arbitrary: st sent)
  case Nil
  then show ?case by simp
next
  case (Cons it its)
  then obtain req where req: "riRecv it = RecvMsg req" by (cases "riRecv it") auto
  with Cons.prems obtain r where r: "handle_payload ap (riNow it) req st = Inr r"
    by (auto simp: go_bind_Inr_iff)
  with Cons.prems req handle_payload_not_waiting [of ap "riNow it" req st] Cons.IH show ?case
    by (cases r) (auto split: option.splits)
qed

definition received :: "int64 list \<Rightarrow> AppendEntriesRequest list \<Rightarrow> recv_item list" where
  "received clks msgs = map2 (\<lambda>now m. \<lparr>riNow = now, riRecv = RecvMsg m, riSend = None\<rparr>) clks msgs"

context snapshot_applier begin

text \<open>An entry stream that starts at or before the follower's position brings it to its end.\<close>

lemma stream_entries:
  assumes "ok st" and "\<forall>e\<in>set es. fits e" and "consecutive n es" and "n \<le> AppliedIndex ap st"
    and "length clks = length es"
  shows "\<exists>st' acks. stream_loop ap fid (received clks (map entry_msg es)) st sent = Inr (st', sent @ acks, EndWaiting)
    \<and> ok st' \<and> AppliedIndex ap st' = max (AppliedIndex ap st) (n + int (length es))"
  using assms
proof (induction es arbitrary: st n clks sent)
  case Nil
  then show ?case by (simp add: received_def)
next
  case (Cons e es)
  obtain now clks' where c: "clks = now # clks'" using Cons.prems(5) by (cases clks) auto
  have rest: "received clks (map entry_msg (e # es))
      = \<lparr>riNow = now, riRecv = RecvMsg (entry_msg e), riSend = None\<rparr> # received clks' (map entry_msg es)"
    by (simp add: received_def c)
  have idx: "leIndex e = n + 1" using Cons.prems(3) by simp
  show ?case
  proof (cases "leIndex e \<le> AppliedIndex ap st")
    case True
    then have "stream_loop ap fid (received clks (map entry_msg (e # es))) st sent
        = stream_loop ap fid (received clks' (map entry_msg es)) st sent"
      unfolding rest by (simp add: handle_entry_old)
    with Cons.IH [of st "n + 1" clks' sent] Cons.prems True idx c show ?thesis by auto
  next
    case False
    then have next_idx: "leIndex e = AppliedIndex ap st + 1" using Cons.prems(4) idx by simp
    obtain st1 r where step: "applyOne ap now e st = Inr (st1, r)" "ok st1" "AppliedIndex ap st1 = leIndex e"
      using applies [OF Cons.prems(1) _ next_idx] Cons.prems(2) by fastforce
    have "stream_loop ap fid (received clks (map entry_msg (e # es))) st sent
        = stream_loop ap fid (received clks' (map entry_msg es)) st1 (sent @ [ack ap fid st1])"
      unfolding rest by (simp add: handle_entry_next [OF next_idx step(1)])
    moreover obtain st' acks where "stream_loop ap fid (received clks' (map entry_msg es)) st1 (sent @ [ack ap fid st1])
        = Inr (st', (sent @ [ack ap fid st1]) @ acks, EndWaiting)" "ok st'"
        "AppliedIndex ap st' = max (AppliedIndex ap st1) (n + 1 + int (length es))"
      using Cons.IH [of st1 "n + 1" clks' "sent @ [ack ap fid st1]"] Cons.prems step idx c by auto
    ultimately show ?thesis
      using step(3) idx next_idx by auto
  qed
qed

end

end
