(* ===== verification/ReplProps.thy ===== *)
theory ReplProps
  imports Streams StoreProps "HOL-Library.Sublist"
begin

text \<open>
  The properties of replication, for the leader that \<open>NewNode\<close> builds over the store: what a
  commit needs, who gets its result, what a follower receives and what it makes of it.
\<close>

subsection \<open>Catching up\<close>

context snapshot_applier begin

lemma catchup_ok:
  assumes inv: "leader_inv ap ok fits snok l" and exp: "exportSnapshot l \<noteq> None"
    and st: "ok st" "0 \<le> AppliedIndex ap st" "AppliedIndex ap st \<le> LastIndex l"
  shows "\<exists>msgs. sendCatchup None (AppliedIndex ap st) l = Inr (msgs, True)
    \<and> (\<forall>clks. length clks = length msgs \<longrightarrow> (\<exists>st' acks.
         stream_loop ap fid (received clks msgs) st sent = Inr (st', sent @ acks, EndWaiting)
         \<and> ok st' \<and> AppliedIndex ap st' = LastIndex l))"
proof -
  let ?f = "AppliedIndex ap st"
  have lg: "\<forall>e\<in>set (ldLog l). fits e" "consecutive (compactIndex l) (ldLog l)" "0 \<le> compactIndex l"
    using inv by (auto simp: leader_inv_def log_inv_def)
  consider (inside) "compactIndex l + 1 \<le> ?f" | (all) "?f < compactIndex l + 1" "compactIndex l = 0"
    | (snap) "?f \<le> compactIndex l" "0 < compactIndex l"
    using lg(3) by linarith
  then show ?thesis
  proof cases
    case inside
    let ?k = "nat (?f - compactIndex l)"
    have k: "?k \<le> length (ldLog l)" using inside st(3) by (auto simp: LastIndex_def)
    have "sendCatchup None ?f l = Inr (map entry_msg (drop ?k (ldLog l)), True)"
      using inside st(3) by (simp add: sendCatchup_def Catchup_def slice_from_ok LastIndex_def send_all_def)
    moreover
    have later: "consecutive ?f (drop ?k (ldLog l))"
      using consecutive_drop [OF lg(2) k] inside by simp
    have fit: "\<forall>e\<in>set (drop ?k (ldLog l)). fits e" using lg(1) by (auto dest: in_set_dropD)
    have len: "max ?f (?f + int (length (drop ?k (ldLog l)))) = LastIndex l"
      using inside st(3) k by (auto simp: LastIndex_def of_nat_diff)
    have "\<exists>st' acks. stream_loop ap fid (received clks (map entry_msg (drop ?k (ldLog l)))) st sent
          = Inr (st', sent @ acks, EndWaiting) \<and> ok st' \<and> AppliedIndex ap st' = LastIndex l"
      if "length clks = length (drop ?k (ldLog l))" for clks
      using stream_entries [OF st(1) fit later order_refl that, of fid sent] unfolding len .
    ultimately show ?thesis by auto
  next
    case all
    have "sendCatchup None ?f l = Inr (map entry_msg (ldLog l), True)"
      using all by (simp add: sendCatchup_def Catchup_def send_all_def)
    moreover have "\<exists>st' acks. stream_loop ap fid (received clks (map entry_msg (ldLog l))) st sent
          = Inr (st', sent @ acks, EndWaiting) \<and> ok st' \<and> AppliedIndex ap st' = LastIndex l"
      if "length clks = length (ldLog l)" for clks
      using stream_entries [OF st(1) lg(1,2) _ that, of fid sent] all st by (auto simp: LastIndex_def)
    ultimately show ?thesis by auto
  next
    case snap
    obtain p where p: "savedSnap l = Some p" "snok p" "snLastIncludedIndex p = compactIndex l"
      using inv exp snap(2) by (auto simp: leader_inv_def snap_inv_def)
    let ?msgs = "snapshot_msg p # map entry_msg (ldLog l)"
    have "sendCatchup None ?f l = Inr (?msgs, True)"
      using snap p by (simp add: sendCatchup_def Catchup_def send_all_def Let_def)
    moreover obtain st1 where st1: "apSnapshot ap (Some p) st = Inr st1" "ok st1"
      "AppliedIndex ap st1 = compactIndex l"
      using restores [OF st(1) p(2)] p(3) snap by auto
    have "\<exists>st' acks. stream_loop ap fid (received clks ?msgs) st sent
          = Inr (st', sent @ acks, EndWaiting) \<and> ok st' \<and> AppliedIndex ap st' = LastIndex l"
      if len: "length clks = length ?msgs" for clks
    proof -
      obtain now clks' where c: "clks = now # clks'" "length clks' = length (ldLog l)"
        using len by (cases clks) auto
      have "stream_loop ap fid (received clks ?msgs) st sent
          = stream_loop ap fid (received clks' (map entry_msg (ldLog l))) st1 (sent @ [ack ap fid st1])"
        by (simp add: received_def c handle_payload_def snapshot_msg_def st1)
      with stream_entries [OF st1(2) lg(1,2) _ c(2), of fid "sent @ [ack ap fid st1]"] st1(3) show ?thesis
        by (auto simp: LastIndex_def)
    qed
    ultimately show ?thesis by auto
  qed
qed

end

subsection \<open>The store as a snapshot applier\<close>

definition store_snok :: "PbSnapshot \<Rightarrow> bool" where
  "store_snok p \<longleftrightarrow> (\<exists>t. store_inv t \<and> p = SnapshotToProto (ExportSnapshot t))"

interpretation store_replica: snapshot_applier StoreApplier store_inv store_fits store_snok
proof (unfold_locales, fact store_applies)
  fix s p assume s: "store_inv s" and "store_snok p"
  then obtain t where t: "store_inv t" "p = SnapshotToProto (ExportSnapshot t)"
    by (auto simp: store_snok_def)
  have idx: "snLastIncludedIndex p = rev t" by (simp add: t SnapshotToProto_def ExportSnapshot_def)
  have "\<exists>s'. ApplySnapshot (Some p) s = Inr s' \<and> rev s' = max (rev s) (rev t)"
  proof (cases "rev t < rev s")
    case True
    moreover have "snapRevision (ExportSnapshot t) = rev t" by (simp add: ExportSnapshot_def)
    ultimately show ?thesis by (simp add: ApplySnapshot_def t proto_export_id RestoreSnapshot_def)
  next
    case False
    with t(1) have "ApplySnapshot (Some p) s = Inr (restored t s)"
      using RestoreSnapshot_export [of t s]
      by (simp add: ApplySnapshot_def t(2) proto_export_id store_inv_def tables_ok_def)
    with False show ?thesis by (simp add: restored_def)
  qed
  then obtain s' where s': "ApplySnapshot (Some p) s = Inr s'" "rev s' = max (rev s) (rev t)" by blast
  moreover have "store_inv s'" using store_inv_restore [OF s t(1)] s'(1) t(2) by simp
  ultimately show "\<exists>s'. apSnapshot StoreApplier (Some p) s = Inr s' \<and> store_inv s'
      \<and> AppliedIndex StoreApplier s' = max (AppliedIndex StoreApplier s) (snLastIncludedIndex p)"
    by (simp add: StoreApplier_def AppliedRevision_def idx)
qed

subsection \<open>The leaders that can be reached\<close>

definition nodeLeader :: "Config \<Rightarrow> Store Leader" where
  "nodeLeader cfg = SetSnapshotExporter (\<lambda>st. SnapshotToProto (ExportSnapshot st)) (NewLeader cfg StoreApplier New)"

inductive leader_reach :: "Config \<Rightarrow> Store Leader \<Rightarrow> bool" for cfg where
  start: "leader_reach cfg (nodeLeader cfg)"
| propose: "leader_reach cfg l \<Longrightarrow> store_fits (e\<lparr>leIndex := LastIndex l + 1, leTerm := 1\<rparr>) \<Longrightarrow>
    Propose e l = Inr (l', r) \<Longrightarrow> leader_reach cfg l'"
| select: "leader_reach cfg l \<Longrightarrow> propose_select c index l = Some (l', r) \<Longrightarrow> leader_reach cfg l'"
| turn: "leader_reach cfg l \<Longrightarrow> commitLoop_turn clk l = Inr (Some l') \<Longrightarrow> leader_reach cfg l'"
| acked: "leader_reach cfg l \<Longrightarrow> FollowerAck i index l = Inr l' \<Longrightarrow> leader_reach cfg l'"
| reset: "leader_reach cfg l \<Longrightarrow> FollowerReset i l = Inr l' \<Longrightarrow> leader_reach cfg l'"
| stop: "leader_reach cfg l \<Longrightarrow> Stop l = Inr l' \<Longrightarrow> leader_reach cfg l'"
| sub: "leader_reach cfg l \<Longrightarrow> is_int64 (bcSeq (ping l) + 1) \<Longrightarrow> SubscribeEntries l = (l', i) \<Longrightarrow> leader_reach cfg l'"
| unsub: "leader_reach cfg l \<Longrightarrow> leader_reach cfg (UnsubscribeEntries i l)"
| signal: "leader_reach cfg l \<Longrightarrow> leader_reach cfg (l\<lparr>ping := fst (take_signal i (ping l))\<rparr>)"

abbreviation node_inv :: "Store Leader \<Rightarrow> bool" where
  "node_inv \<equiv> leader_inv StoreApplier store_inv store_fits store_snok"

lemma node_inv_start: "node_inv (nodeLeader cfg)"
proof -
  have "node_inv (NewLeader cfg StoreApplier New)"
    by (intro leader_inv_new store_inv_New) (simp add: StoreApplier_def AppliedRevision_def New_def)
  then show ?thesis
    by (auto simp: nodeLeader_def SetSnapshotExporter_def leader_inv_def log_inv_def waiters_inv_def LastIndex_def
        exporter_ok_def snap_inv_def NewLeader_def store_snok_def StoreApplier_def AppliedRevision_def
        SnapshotToProto_def ExportSnapshot_def)
qed

lemma node_inv_ping: "node_inv l \<Longrightarrow> bc_ok b \<Longrightarrow> node_inv (l\<lparr>ping := b\<rparr>)"
  by (simp add: leader_inv_def log_inv_def waiters_inv_def LastIndex_def exporter_ok_def snap_inv_def)

lemma node_inv_stop: "node_inv l \<Longrightarrow> Stop l = Inr l' \<Longrightarrow> node_inv l'"
  by (auto simp: Stop_def leader_inv_def log_inv_def waiters_inv_def LastIndex_def exporter_ok_def
      snap_inv_def split: if_splits)

lemma turn_ok:
  assumes inv: "node_inv l" and wake: "chBuf (wakeCh l) \<noteq> []"
    and n: "n = find_commit (\<lambda>i. votes l i \<ge> needVotes l) (LastIndex l) (ldCommit l)"
  shows "\<exists>l' rs. commitLoop_turn clk l = Inr (Some l') \<and> node_inv l' \<and> ldCommit l' = n
    \<and> apply_all StoreApplier (clocked clk (ldCommit l + 1) (log_range (ldCommit l + 1) n l)) (ldState l)
        = Inr (ldState l', rs)
    \<and> int (length rs) = n - ldCommit l \<and> LastIndex l' = LastIndex l \<and> ldMatch l' = ldMatch l
    \<and> (\<forall>i. resChans l' i = (if map_of (waiters l) i \<noteq> None \<and> ldCommit l < i \<and> i \<le> n
             then Some ((make_chan 1)\<lparr>chBuf := [rs ! nat (i - (ldCommit l + 1))]\<rparr>) else resChans l i))
    \<and> waiters l' = answered (ldCommit l + 1) n (waiters l)
    \<and> ldLog l' = drop (nat (compactIndex l' - compactIndex l)) (ldLog l) \<and> compactIndex l \<le> compactIndex l'
    \<and> exportSnapshot l' = exportSnapshot l"
proof -
  let ?c = "ldCommit l"
  have wk: "wake_ok (wakeCh l)" using inv by (simp add: leader_inv_def)
  obtain u where buf: "chBuf (wakeCh l) = [u]"
    using wake wk by (cases "chBuf (wakeCh l)") (auto simp: wake_ok_def)
  let ?l0 = "l\<lparr>wakeCh := (wakeCh l)\<lparr>chBuf := []\<rparr>\<rparr>"
  have inv0: "node_inv ?l0"
    using inv by (simp add: leader_inv_def log_inv_def waiters_inv_def LastIndex_def exporter_ok_def
        snap_inv_def wake_ok_def)
  have same: "votes ?l0 = votes l" "needVotes ?l0 = needVotes l" "LastIndex ?l0 = LastIndex l"
    "log_range (?c + 1) n ?l0 = log_range (?c + 1) n l"
    by (auto simp: votes_def needVotes_def LastIndex_def log_range_def MatchOf_def fun_eq_iff)
  obtain l1 sigs rs where pass: "commit_pass clk ?l0 = Inr (l1, sigs)"
    and all: "apply_all StoreApplier (clocked clk (?c + 1) (log_range (?c + 1) n l)) (ldState l) = Inr (ldState l1, rs)"
    and len: "int (length rs) = n - ?c" and sigs: "sigs = signals_for (waiters l) (?c + 1) rs"
    and l1: "ldCommit l1 = n" "LastIndex l1 = LastIndex l" "resChans l1 = resChans l"
      "waiters l1 = answered (?c + 1) n (waiters l)" "node_inv l1" "ldMatch l1 = ldMatch l"
      "ldLog l1 = drop (nat (compactIndex l1 - compactIndex l)) (ldLog l)" "compactIndex l \<le> compactIndex l1"
      "exportSnapshot l1 = exportSnapshot l"
    using store_replica.commit_pass_ok [OF inv0, of n clk] n same by auto
  have W: "\<forall>(i, ch)\<in>set (waiters l). ch = i"
    "\<forall>(i, ch)\<in>set (waiters l). ?c < i \<and> resChans l i = Some (make_chan 1)"
    using inv by (auto simp: leader_inv_def waiters_inv_def)
  note props = signals_for_props [OF W(1), of "?c + 1" rs]
  have fresh: "\<forall>(ch, r)\<in>set sigs. resChans l ch = Some (make_chan 1)"
  proof (intro ballI, clarify)
    fix ch r assume "(ch, r) \<in> set sigs"
    then have "map_of (waiters l) ch = Some ch" using props by (force simp: sigs)
    then show "resChans l ch = Some (make_chan 1)" using W(2) map_of_SomeD by fastforce
  qed
  let ?H = "\<lambda>ch. case map_of sigs ch of None \<Rightarrow> resChans l ch
    | Some r \<Rightarrow> Some ((make_chan 1)\<lparr>chBuf := [r]\<rparr>)"
  have sent: "send_signals sigs (resChans l) = Inr (Some ?H)"
    using props fresh by (intro send_signals_ok) (simp_all add: sigs)
  have H: "?H i = (if map_of (waiters l) i \<noteq> None \<and> ?c < i \<and> i \<le> n
      then Some ((make_chan 1)\<lparr>chBuf := [rs ! nat (i - (?c + 1))]\<rparr>) else resChans l i)" for i
  proof (cases "?c < i \<and> i \<le> n")
    case True
    then show ?thesis
      using signals_for_lookup [OF W(1), of "?c + 1" i rs] len by (auto simp: sigs)
  next
    case False
    then have "i \<notin> fst ` set sigs" using props len by (force simp: sigs)
    with False show ?thesis by (auto simp: map_of_eq_None_iff [symmetric])
  qed
  let ?l' = "l1\<lparr>resChans := ?H\<rparr>"
  have turn: "commitLoop_turn clk l = Inr (Some ?l')"
    by (simp add: commitLoop_turn_def try_recv_def buf pass l1(3) sent)
  have last: "LastIndex ?l' = LastIndex l" using l1(2) by (simp add: LastIndex_def)
  have win: "waiters_inv l1" and below: "n \<le> LastIndex l"
    using l1(1,2,5) by (auto simp: leader_inv_def log_inv_def)
  have "resChans ?l' i = Some (make_chan 1)" if "(i, ch) \<in> set (waiters ?l')" for i ch
  proof -
    have "(i, ch) \<in> set (waiters l1)" using that by simp
    with win have "n < i" "resChans l i = Some (make_chan 1)"
      by (auto simp: waiters_inv_def l1(1,3))
    then show ?thesis by (simp add: H)
  qed
  moreover have "i \<le> LastIndex ?l'" if "resChans ?l' i \<noteq> None" for i
  proof (cases "?c < i \<and> i \<le> n")
    case True
    with below last show ?thesis by simp
  next
    case False
    with that have "resChans l i \<noteq> None" by (auto simp: H)
    with win l1(2,3) last show ?thesis by (simp add: waiters_inv_def)
  qed
  ultimately have "waiters_inv ?l'"
    using win last l1(2) unfolding waiters_inv_def by auto
  then have "node_inv ?l'"
    using l1(5) by (simp add: leader_inv_def log_inv_def LastIndex_def exporter_ok_def snap_inv_def)
  with turn all len l1 H show ?thesis
    by (intro exI [of _ ?l'] exI [of _ rs]) (simp add: LastIndex_def)
qed

lemma leader_reach_inv: "leader_reach cfg l \<Longrightarrow> node_inv l \<and> exportSnapshot l \<noteq> None"
proof (induction rule: leader_reach.induct)
  case start
  show ?case using node_inv_start by (simp add: nodeLeader_def SetSnapshotExporter_def)
next
  case (propose l e l' r)
  show ?case
  proof (cases "stopped l")
    case True
    with propose show ?thesis by (simp add: Propose_def)
  next
    case False
    have "exportSnapshot l' = exportSnapshot l" if "Propose e l = Inr (l', r)"
      using that by (auto simp: Propose_def Let_def wake_def notifyReplicators_def go_bind_Inr_iff
          split: if_splits send_outcome.splits)
    with leader_inv_propose [of StoreApplier store_inv store_fits store_snok l e] propose False show ?thesis
      by auto
  qed
next
  case (select l c index l' r)
  have "exportSnapshot l' = exportSnapshot l"
    using select.hyps(2) by (auto simp: propose_select_def split: propose_case.splits option.splits
        recv_outcome.splits if_splits)
  with select propose_select_inv show ?case by metis
next
  case (turn l clk l')
  then have wake: "chBuf (wakeCh l) \<noteq> []"
    by (auto simp: commitLoop_turn_def try_recv_def split: list.splits if_splits)
  from turn_ok [OF _ this refl, of clk] turn show ?case by auto
next
  case (acked l i index l')
  then show ?case using leader_inv_ack(1) [of StoreApplier store_inv store_fits store_snok l i index] by auto
next
  case (reset l i l')
  then show ?case using leader_inv_ack(2) [of StoreApplier store_inv store_fits store_snok l i] by auto
next
  case (stop l l')
  then show ?case using node_inv_stop by (auto simp: Stop_def split: if_splits)
next
  case (sub l l' i)
  then show ?case
    using bc_ok_subscribe [of "ping l"] node_inv_ping [of l]
    by (auto simp: SubscribeEntries_def leader_inv_def split: prod.splits)
next
  case (unsub l i)
  then show ?case
    using bc_ok_unsubscribe [of "ping l"] node_inv_ping [of l]
    by (auto simp: UnsubscribeEntries_def leader_inv_def)
next
  case (signal l i)
  then show ?case
    using bc_ok_take [of "ping l"] node_inv_ping [of l] by (auto simp: leader_inv_def)
qed

subsection \<open>A cluster to look at\<close>

text \<open>A leader of three nodes, with one proposed entry, and with the acknowledgement of a follower.\<close>

definition cfg3 :: Config where
  "cfg3 = \<lparr>cfgNodeID = 1, cfgLeaderID = 1, cfgNodeAddrs = [(1, ''a''), (2, ''b''), (3, ''c'')], cfgBatchWindow = 0\<rparr>"

definition proposed :: "LogEntry \<Rightarrow> Store Leader \<Rightarrow> Store Leader" where
  "proposed e l = (case Propose e l of Inr (l', r) \<Rightarrow> l' | Inl p \<Rightarrow> l)"

definition leader1 :: "Store Leader" where
  "leader1 = proposed (create_entry 0 0) (nodeLeader cfg3)"

definition leader2 :: "Store Leader" where
  "leader2 = (case FollowerAck 2 1 leader1 of Inr l \<Rightarrow> l | Inl p \<Rightarrow> leader1)"

lemmas leader_eval = nodeLeader_def NewLeader_def SetSnapshotExporter_def cfg3_def newBroadcaster_def
  LastIndex_def make_chan_def

lemma leader1_propose: "Propose (create_entry 0 0) (nodeLeader cfg3) = Inr (leader1, Inr 1)"
  by (simp add: leader1_def proposed_def Propose_def leader_eval wake_def notifyReplicators_def notify_def)

lemma leader1_facts:
  "LastIndex leader1 = 1" "ldCommit leader1 = 0" "wakeCh leader1 = \<lparr>chBuf = [()], chCap = 1, chClosed = False\<rparr>" "waiters leader1 = [(1, 1)]"
  "ldMatch leader1 = []" "ldCfg leader1 = cfg3" "ldLog leader1 = [create_entry 1 0]" "compactIndex leader1 = 0"
  by (simp_all add: leader1_def proposed_def Propose_def leader_eval wake_def notifyReplicators_def notify_def create_entry_def)

lemma store_fits_create: "n < maxIndex \<Longrightarrow> store_fits (create_entry n t)"
  by (simp add: store_fits_def create_entry_def)

lemma create_entry_at: "(create_entry i t)\<lparr>leIndex := n, leTerm := 1\<rparr> = create_entry n t"
  by (simp add: create_entry_def)

lemma leader_reach1: "leader_reach cfg3 leader1"
  by (rule leader_reach.propose [OF leader_reach.start _ leader1_propose])
    (simp add: leader_eval store_fits_def create_entry_def maxIndex_def)

lemma leader2_ack: "FollowerAck 2 1 leader1 = Inr leader2"
  and leader2_eq: "leader2 = leader1\<lparr>ldMatch := [(2, 1)]\<rparr>"
  by (simp_all add: leader2_def FollowerAck_def wake_def MatchOf_def leader1_facts)

lemma leader2_facts:
  "LastIndex leader2 = 1" "ldCommit leader2 = 0" "chBuf (wakeCh leader2) \<noteq> []" "waiters leader2 = [(1, 1)]"
  "ldMatch leader2 = [(2, 1)]" "ldCfg leader2 = cfg3"
  using leader1_facts by (simp_all add: leader2_eq LastIndex_def)

lemma leader_reach2: "leader_reach cfg3 leader2"
  by (rule leader_reach.acked [OF leader_reach1 leader2_ack])

lemma leader_votes:
  "votes leader1 1 = 1" "votes leader2 1 = 2" "needVotes leader1 = 2" "needVotes leader2 = 2"
  by (simp_all add: votes_def needVotes_def leader1_facts leader2_facts cfg3_def MatchOf_def Quorum_def go_div_def)

subsection \<open>Properties\<close>



text \<open>C9: Every proposal that becomes committed and is still waited for gets the result of its own
  entry. The entries between the old and the new commit index are applied to the state machine
  once each, in log order, and the waiter of index \<open>i\<close> finds exactly the outcome of entry \<open>i\<close> in
  its channel; the waiters of uncommitted entries keep waiting.\<close>

theorem commit_answers_waiters:
  assumes "leader_reach cfg l" and "commitLoop_turn clk l = Inr (Some l')"
  shows "\<exists>rs. apply_all StoreApplier (clocked clk (ldCommit l + 1) (log_range (ldCommit l + 1) (ldCommit l') l))
        (ldState l) = Inr (ldState l', rs)
    \<and> int (length rs) = ldCommit l' - ldCommit l
    \<and> AppliedRevision (ldState l') = ldCommit l'
    \<and> (\<forall>i. map_of (waiters l) i \<noteq> None \<longrightarrow>
         (if i \<le> ldCommit l'
          then map_of (waiters l') i = None
            \<and> (\<exists>l''. propose_select CaseResult i l' = Some (l'', Inr (rs ! nat (i - ldCommit l - 1))))
          else map_of (waiters l') i \<noteq> None \<and> propose_select CaseResult i l' = None))"
proof -
  have inv: "node_inv l" using leader_reach_inv [OF assms(1)] by blast
  have wake: "chBuf (wakeCh l) \<noteq> []"
    using assms(2) by (auto simp: commitLoop_turn_def try_recv_def split: list.splits if_splits)
  define n where "n = find_commit (\<lambda>i. votes l i \<ge> needVotes l) (LastIndex l) (ldCommit l)"
  obtain rs where turn: "node_inv l'" "ldCommit l' = n"
    "apply_all StoreApplier (clocked clk (ldCommit l + 1) (log_range (ldCommit l + 1) n l)) (ldState l)
        = Inr (ldState l', rs)" "int (length rs) = n - ldCommit l"
    "\<forall>i. resChans l' i = (if map_of (waiters l) i \<noteq> None \<and> ldCommit l < i \<and> i \<le> n
             then Some ((make_chan 1)\<lparr>chBuf := [rs ! nat (i - (ldCommit l + 1))]\<rparr>) else resChans l i)"
    "waiters l' = answered (ldCommit l + 1) n (waiters l)"
    using turn_ok [OF inv wake n_def, of clk] assms(2) by auto
  have W: "gomap_ok (waiters l)" "\<forall>(i, ch)\<in>set (waiters l). ch = i \<and> ldCommit l < i \<and> resChans l i = Some (make_chan 1)"
    using inv by (auto simp: leader_inv_def waiters_inv_def)
  have each: "if i \<le> n
          then map_of (waiters l') i = None
            \<and> (\<exists>l''. propose_select CaseResult i l' = Some (l'', Inr (rs ! nat (i - ldCommit l - 1))))
          else map_of (waiters l') i \<noteq> None \<and> propose_select CaseResult i l' = None"
    if "map_of (waiters l) i = Some ch" for i ch
  proof -
    have i: "ldCommit l < i" "resChans l i = Some (make_chan 1)"
      using W(2) map_of_SomeD [OF that] by auto
    have "map_of (waiters l') i = (if \<not> (ldCommit l + 1 \<le> i \<and> i \<le> n) then Some ch else None)"
      using map_of_filter_key [OF W(1) that] by (simp add: turn(6) answered_def)
    with i that turn(5) show ?thesis
      by (auto simp: propose_select_def try_recv_def make_chan_def algebra_simps)
  qed
  have "AppliedRevision (ldState l') = n"
    using turn(1,2) by (simp add: leader_inv_def StoreApplier_def)
  moreover have "\<forall>i. map_of (waiters l) i \<noteq> None \<longrightarrow> (if i \<le> n
          then map_of (waiters l') i = None
            \<and> (\<exists>l''. propose_select CaseResult i l' = Some (l'', Inr (rs ! nat (i - ldCommit l - 1))))
          else map_of (waiters l') i \<noteq> None \<and> propose_select CaseResult i l' = None)"
    using each by blast
  ultimately show ?thesis
    unfolding turn(2) using turn(3,4) by blast
qed

theorem commit_answers_waiters_witness:
  "\<exists>l' l'' r. commitLoop_turn (\<lambda>_. 0) leader2 = Inr (Some l') \<and> propose_select CaseResult 1 l' = Some (l'', Inr r)
    \<and> AppliedRevision (ldState l') = 1"
proof -
  have inv: "node_inv leader2" using leader_reach_inv [OF leader_reach2] by blast
  have one: "find_commit (\<lambda>i. votes leader2 i \<ge> needVotes leader2) 1 0 = 1"
    by (subst find_commit.simps) (simp add: leader_votes)
  obtain l' where l': "commitLoop_turn (\<lambda>_. 0) leader2 = Inr (Some l')" "ldCommit l' = 1"
    using turn_ok [OF inv leader2_facts(3) refl, of "\<lambda>_. 0"] one by (auto simp: leader2_facts)
  have "map_of (waiters leader2) 1 \<noteq> None" by (simp add: leader2_facts)
  with commit_answers_waiters [OF leader_reach2 l'(1)] l' show ?thesis
    by (fastforce simp: leader2_facts)
qed

text \<open>C17: A follower at any position up to the end of the leader's log, fed with what
  \<open>sendCatchup\<close> sends for that position (a snapshot when the log was truncated, then entries),
  applies all of it without a protocol error and ends at the last index of the leader.\<close>

theorem catchup_completes:
  assumes "leader_reach cfg l" and "reachable st" and "rev st \<le> LastIndex l"
  shows "\<exists>msgs. sendCatchup None (rev st) l = Inr (msgs, True)
    \<and> (\<forall>clks. length clks = length msgs \<longrightarrow> (\<exists>st' acks.
         ApplyStream StoreApplier fid None (received clks msgs) st = Inr (st', acks, EndWaiting)
         \<and> rev st' = LastIndex l \<and> store_inv st'))"
proof -
  have inv: "node_inv l" "exportSnapshot l \<noteq> None" using leader_reach_inv [OF assms(1)] by auto
  have st: "store_inv st" using assms(2) by (rule reachable_inv)
  have idx: "AppliedIndex StoreApplier x = rev x" for x by (simp add: StoreApplier_def AppliedRevision_def)
  have "\<exists>msgs. sendCatchup None (AppliedIndex StoreApplier st) l = Inr (msgs, True)
    \<and> (\<forall>clks. length clks = length msgs \<longrightarrow> (\<exists>st' acks.
         stream_loop StoreApplier fid (received clks msgs) st [ack StoreApplier fid st]
           = Inr (st', [ack StoreApplier fid st] @ acks, EndWaiting)
         \<and> store_inv st' \<and> AppliedIndex StoreApplier st' = LastIndex l))"
    using store_inv_rev [OF st] assms(3) by (intro store_replica.catchup_ok inv st) (simp_all add: idx)
  then show ?thesis unfolding idx ApplyStream_def by fastforce
qed

theorem catchup_completes_witness:
  "\<exists>msgs. sendCatchup None 0 leader1 = Inr (msgs, True)
    \<and> (\<forall>clks. length clks = length msgs \<longrightarrow> (\<exists>st' acks.
         ApplyStream StoreApplier 2 None (received clks msgs) New = Inr (st', acks, EndWaiting) \<and> rev st' = 1))"
  using catchup_completes [OF leader_reach1 reachable.init, of 2] by (fastforce simp: leader1_facts)

text \<open>\<open>Catchup\<close> crashes the leader exactly if the follower reports a position beyond the end of
  the leader's log (a leader that restarted empty while a follower kept its data): the slice
  expression is out of range.\<close>

theorem catchup_panics_iff:
  assumes "leader_reach cfg l"
  shows "(\<exists>p. Catchup f l = Inl p) \<longleftrightarrow> LastIndex l < f"
proof -
  have "0 \<le> compactIndex l"
    using leader_reach_inv [OF assms] by (auto simp: leader_inv_def log_inv_def)
  then show ?thesis
    by (auto simp: Catchup_def Let_def LastIndex_def slice_from_def split: if_splits)
qed

theorem catchup_panics_iff_witness:
  "(\<exists>p. Catchup 2 leader1 = Inl p) \<and> \<not> (\<exists>p. Catchup 1 leader1 = Inl p)"
  unfolding catchup_panics_iff [OF leader_reach1] by (simp add: leader1_facts)

text \<open>\<open>EntriesAfter\<close> returns exactly the entries of the log after the given position, in order
  and without a gap, unless the position is before the log window.\<close>

theorem entries_after_exact:
  assumes "leader_reach cfg l" and "f \<le> LastIndex l"
  shows "EntriesAfter f l = Inr (filter (\<lambda>e. f < leIndex e \<and> compactIndex l \<le> f) (ldLog l), compactIndex l \<le> f)
    \<and> (compactIndex l \<le> f \<longrightarrow> consecutive f (filter (\<lambda>e. f < leIndex e) (ldLog l)))"
proof (cases "compactIndex l \<le> f")
  case False
  then show ?thesis by (simp add: EntriesAfter_def)
next
  case True
  let ?k = "nat (f - compactIndex l)"
  have con: "consecutive (compactIndex l) (ldLog l)"
    using leader_reach_inv [OF assms(1)] by (auto simp: leader_inv_def log_inv_def)
  have k: "?k \<le> length (ldLog l)" using True assms(2) by (auto simp: LastIndex_def)
  have take: "\<forall>e\<in>set (take ?k (ldLog l)). \<not> f < leIndex e"
    using consecutive_nth [OF con] True by (auto simp: in_set_conv_nth)
  have drop: "\<forall>e\<in>set (drop ?k (ldLog l)). f < leIndex e"
    using consecutive_nth [OF consecutive_drop [OF con k]] True by (auto simp: in_set_conv_nth)
  have "filter (\<lambda>e. f < leIndex e) (ldLog l) = filter (\<lambda>e. f < leIndex e) (take ?k (ldLog l) @ drop ?k (ldLog l))"
    by simp
  also have "\<dots> = drop ?k (ldLog l)"
    using take drop by (simp del: append_take_drop_id add: filter_empty_conv)
  finally have fil: "filter (\<lambda>e. f < leIndex e) (ldLog l) = drop ?k (ldLog l)" .
  have "slice_from (ldLog l) (f - compactIndex l) = Inr (drop ?k (ldLog l))"
    using True assms(2) by (intro slice_from_ok) (auto simp: LastIndex_def)
  with True fil consecutive_drop [OF con k] show ?thesis
    by (simp add: EntriesAfter_def)
qed

theorem entries_after_exact_witness:
  "EntriesAfter 0 leader1 = Inr ([create_entry 1 0], True)"
  using entries_after_exact [OF leader_reach1, of 0] by (simp add: leader1_facts create_entry_def)

subsection \<open>What a follower makes of a stream\<close>

definition item_entries :: "recv_item \<Rightarrow> LogEntry list" where
  "item_entries it = (case riRecv it of
     RecvMsg req \<Rightarrow> (case aePayload req of Some (AppendEntriesRequest_Entry e) \<Rightarrow> [e] | _ \<Rightarrow> []) | _ \<Rightarrow> [])"

definition item_snapshots :: "recv_item \<Rightarrow> PbSnapshot list" where
  "item_snapshots it = (case riRecv it of
     RecvMsg req \<Rightarrow> (case aePayload req of Some (AppendEntriesRequest_Snapshot p) \<Rightarrow> [p] | _ \<Rightarrow> []) | _ \<Rightarrow> [])"

definition script_entries :: "recv_item list \<Rightarrow> LogEntry list" where
  "script_entries its = concat (map item_entries its)"

definition script_snapshots :: "recv_item list \<Rightarrow> PbSnapshot list" where
  "script_snapshots its = concat (map item_snapshots its)"

lemma script_simps [simp]:
  "script_entries [] = []" "script_snapshots [] = []"
  "script_entries (it # its) = item_entries it @ script_entries its"
  "script_snapshots (it # its) = item_snapshots it @ script_snapshots its"
  by (simp_all add: script_entries_def script_snapshots_def)

text \<open>One message: the applied index never goes back, an entry is applied only in its turn.\<close>

lemma handle_payload_cases:
  assumes "handle_payload StoreApplier now req st = Inr (Inr (Some st'))" and "store_inv st"
    and "\<forall>e. aePayload req = Some (AppendEntriesRequest_Entry e) \<longrightarrow> store_fits e"
    and "\<forall>p. aePayload req = Some (AppendEntriesRequest_Snapshot p) \<longrightarrow> store_snok p"
  shows "store_inv st' \<and> rev st \<le> rev st'
    \<and> (case aePayload req of
         Some (AppendEntriesRequest_Entry e) \<Rightarrow> leIndex e = rev st + 1 \<and> rev st' = rev st + 1
           \<and> (\<exists>r. applyOne StoreApplier now e st = Inr (st', r))
       | _ \<Rightarrow> True)"
proof -
  have idx: "AppliedIndex StoreApplier x = rev x" for x by (simp add: StoreApplier_def AppliedRevision_def)
  obtain pl where pl: "aePayload req = Some pl"
    using assms(1) by (cases "aePayload req") (auto simp: handle_payload_def)
  show ?thesis
  proof (cases pl)
    case (AppendEntriesRequest_Entry e)
    then obtain r where app: "applyOne StoreApplier now e st = Inr (st', r)" and e: "leIndex e = rev st + 1"
      using assms(1) pl by (auto simp: handle_payload_def Let_def idx go_bind_Inr_iff split: if_splits)
    with store_applies [OF assms(2), of e now] assms(3) pl AppendEntriesRequest_Entry show ?thesis
      by (auto simp: idx)
  next
    case (AppendEntriesRequest_Snapshot p)
    then have "apSnapshot StoreApplier (Some p) st = Inr st'"
      using assms(1) pl by (auto simp: handle_payload_def go_bind_Inr_iff)
    with store_replica.restores [OF assms(2), of p] assms(4) pl AppendEntriesRequest_Snapshot show ?thesis
      by (auto simp: idx)
  qed
qed

lemma stream_loop_facts:
  assumes "stream_loop StoreApplier fid its st sent = Inr (st', acks, e)" and "store_inv st"
    and "\<forall>e\<in>set (script_entries its). store_fits e" and "\<forall>p\<in>set (script_snapshots its). store_snok p"
    and "sorted (map arAckIndex sent)" and "\<forall>a\<in>set sent. arAckIndex a \<le> rev st"
  shows "store_inv st' \<and> rev st \<le> rev st' \<and> sorted (map arAckIndex acks)
    \<and> (\<forall>a\<in>set acks. arAckIndex a \<le> rev st')
    \<and> (script_snapshots its = [] \<longrightarrow> (\<exists>es clks rs. subseq es (script_entries its) \<and> consecutive (rev st) es
         \<and> length clks = length es \<and> apply_all StoreApplier (zip clks es) st = Inr (st', rs)
         \<and> rev st' = rev st + int (length es)))"
  using assms
proof (induction its arbitrary: st sent)
  case Nil
  then show ?case by (auto intro!: exI [of _ "[]"])
next
  case (Cons it its)
  have idx: "AppliedIndex StoreApplier x = rev x" for x by (simp add: StoreApplier_def AppliedRevision_def)
  have stay: ?case if "st' = st" "acks = sent"
    using that Cons.prems by (auto intro!: exI [of _ "[]"])
  show ?case
  proof (cases "riRecv it")
    case (RecvMsg req)
    have pay: "\<forall>e. aePayload req = Some (AppendEntriesRequest_Entry e) \<longrightarrow> store_fits e"
      "\<forall>p. aePayload req = Some (AppendEntriesRequest_Snapshot p) \<longrightarrow> store_snok p"
      using Cons.prems(3,4) RecvMsg by (auto simp: item_entries_def item_snapshots_def)
    obtain r where r: "handle_payload StoreApplier (riNow it) req st = Inr r"
      using Cons.prems(1) RecvMsg by (auto simp: go_bind_Inr_iff)
    consider (ended) x where "r = Inl x" | (skip) "r = Inr None" | (app) st1 where "r = Inr (Some st1)"
      by (metis option.exhaust old.sum.exhaust)
    then show ?thesis
    proof cases
      case ended
      with r RecvMsg Cons.prems(1) have "st' = st" "acks = sent" by auto
      then show ?thesis by (rule stay)
    next
      case skip
      have "stream_loop StoreApplier fid its st sent = Inr (st', acks, e)"
        using skip r RecvMsg Cons.prems(1) by simp
      from Cons.IH [OF this Cons.prems(2)] Cons.prems(3-6) show ?thesis
        by (auto intro: list_emb_append2)
    next
      case app
      note one = handle_payload_cases [OF r [unfolded app] Cons.prems(2) pay]
      show ?thesis
      proof (cases "riSend it")
        case (Some err)
        then have fin: "st' = st1" "acks = sent"
          using app r RecvMsg Cons.prems(1) by auto
        show ?thesis
        proof (cases "aePayload req")
          case None
          with app r show ?thesis by (simp add: handle_payload_def)
        next
          case (Some pl)
          show ?thesis
          proof (cases pl)
            case (AppendEntriesRequest_Entry x)
            then obtain q where x: "leIndex x = rev st + 1" "rev st1 = rev st + 1"
              "applyOne StoreApplier (riNow it) x st = Inr (st1, q)" and inv: "store_inv st1"
              using one Some by auto
            have "subseq [x] (script_entries (it # its))"
              using RecvMsg Some AppendEntriesRequest_Entry by (simp add: item_entries_def subseq_singleton_left)
            then show ?thesis
              using x inv fin Cons.prems(5,6)
              by (auto intro!: exI [of _ "[x]"] exI [of _ "[riNow it]"])
          next
            case (AppendEntriesRequest_Snapshot p)
            then have "script_snapshots (it # its) \<noteq> []"
              using RecvMsg Some by (simp add: item_snapshots_def)
            with one fin Cons.prems(5,6) show ?thesis by fastforce
          qed
        qed
      next
        case None
        let ?sent = "sent @ [ack StoreApplier fid st1]"
        have loop: "stream_loop StoreApplier fid its st1 ?sent = Inr (st', acks, e)"
          using None app r RecvMsg Cons.prems(1) by simp
        have "sorted (map arAckIndex ?sent)" "\<forall>a\<in>set ?sent. arAckIndex a \<le> rev st1"
          using Cons.prems(5,6) one by (auto simp: sorted_append ack_def idx)
        note IH = Cons.IH [OF loop _ _ _ this]
        have IH': "store_inv st' \<and> rev st1 \<le> rev st' \<and> sorted (map arAckIndex acks)
          \<and> (\<forall>a\<in>set acks. arAckIndex a \<le> rev st')
          \<and> (script_snapshots its = [] \<longrightarrow> (\<exists>es clks rs. subseq es (script_entries its) \<and> consecutive (rev st1) es
               \<and> length clks = length es \<and> apply_all StoreApplier (zip clks es) st1 = Inr (st', rs)
               \<and> rev st' = rev st1 + int (length es)))"
          using one Cons.prems(3,4) by (intro IH) auto
        show ?thesis
        proof (cases "script_snapshots (it # its) = []")
          case False
          with IH' one show ?thesis by auto
        next
          case True
          then obtain es clks rs where es: "subseq es (script_entries its)" "consecutive (rev st1) es"
            "length clks = length es" "apply_all StoreApplier (zip clks es) st1 = Inr (st', rs)"
            "rev st' = rev st1 + int (length es)"
            using IH' by auto
          obtain x where pl: "aePayload req = Some (AppendEntriesRequest_Entry x)"
          proof (cases "aePayload req")
            case None
            with app r show ?thesis by (simp add: handle_payload_def)
          next
            case (Some pl)
            with True RecvMsg that show ?thesis
              by (cases pl) (auto simp: item_snapshots_def)
          qed
          obtain q where x: "leIndex x = rev st + 1" "rev st1 = rev st + 1"
            "applyOne StoreApplier (riNow it) x st = Inr (st1, q)"
            using one pl by auto
          have "script_entries (it # its) = x # script_entries its"
            using RecvMsg pl by (simp add: item_entries_def)
          with es x have "subseq (x # es) (script_entries (it # its)) \<and> consecutive (rev st) (x # es)
              \<and> length (riNow it # clks) = length (x # es)
              \<and> apply_all StoreApplier (zip (riNow it # clks) (x # es)) st = Inr (st', q # rs)
              \<and> rev st' = rev st + int (length (x # es))" by auto
          then show ?thesis using IH' one order_trans [of "rev st" "rev st1" "rev st'"] by blast
        qed
      qed
    qed
  next
    case RecvEOF
    with Cons.prems(1) have "st' = st" "acks = sent" by auto
    then show ?thesis by (rule stay)
  next
    case (RecvErr err)
    with Cons.prems(1) have "st' = st" "acks = sent" by auto
    then show ?thesis by (rule stay)
  qed
qed

lemma one_entry_run:
  "\<exists>st' acks. ApplyStream StoreApplier 2 None (received [0] [entry_msg (create_entry 1 0)]) New = Inr (st', acks, EndWaiting)"
  using store_replica.stream_entries [OF store_inv_New, of "[create_entry 1 0]" 0 "[0]" 2 "[ack StoreApplier 2 New]"]
  by (auto simp: ApplyStream_def store_fits_create maxIndex_def StoreApplier_def AppliedRevision_def New_def
      create_entry_def store_fits_def)

text \<open>Whatever arrives on the stream, in whatever order, with duplicates, gaps, errors and
  breaks: the follower's applied index never goes back, the acknowledged indices never decrease,
  and an index is acknowledged only after it has been applied.\<close>

theorem follower_acks_truthful:
  assumes "reachable st" and "ApplyStream StoreApplier fid send0 its st = Inr (st', acks, e)"
    and "\<forall>x\<in>set (script_entries its). store_fits x" and "\<forall>p\<in>set (script_snapshots its). store_snok p"
  shows "rev st \<le> rev st' \<and> sorted (map arAckIndex acks) \<and> (\<forall>a\<in>set acks. arAckIndex a \<le> rev st')"
proof (cases send0)
  case (Some err)
  with assms(2) show ?thesis by (auto simp: ApplyStream_def)
next
  case None
  then have "stream_loop StoreApplier fid its st [ack StoreApplier fid st] = Inr (st', acks, e)"
    using assms(2) by (simp add: ApplyStream_def)
  from stream_loop_facts [OF this reachable_inv [OF assms(1)] assms(3,4)] show ?thesis
    by (simp add: ack_def StoreApplier_def AppliedRevision_def)
qed

theorem follower_acks_truthful_witness:
  "\<exists>st' acks. ApplyStream StoreApplier 2 None (received [0] [entry_msg (create_entry 1 0)]) New
      = Inr (st', acks, EndWaiting) \<and> sorted (map arAckIndex acks) \<and> (\<forall>a\<in>set acks. arAckIndex a \<le> rev st')"
proof -
  obtain st' acks where run: "ApplyStream StoreApplier 2 None (received [0] [entry_msg (create_entry 1 0)]) New
      = Inr (st', acks, EndWaiting)" using one_entry_run by blast
  from follower_acks_truthful [OF reachable.init run] show ?thesis
    unfolding run by (auto simp: received_def item_entries_def item_snapshots_def entry_msg_def store_fits_create maxIndex_def)
qed

text \<open>A follower applies log entries strictly in log order: on a stream without a snapshot the
  entries it applies are consecutive from its position on, each applied once, and a subsequence
  of what was sent; everything else on the stream leaves the state unchanged.\<close>

theorem follower_applies_in_order:
  assumes "reachable st" and "ApplyStream StoreApplier fid send0 its st = Inr (st', acks, e)"
    and "\<forall>x\<in>set (script_entries its). store_fits x" and "script_snapshots its = []"
  shows "\<exists>es clks rs. subseq es (script_entries its) \<and> consecutive (rev st) es \<and> length clks = length es
    \<and> apply_all StoreApplier (zip clks es) st = Inr (st', rs) \<and> rev st' = rev st + int (length es)"
proof (cases send0)
  case (Some err)
  with assms(2) show ?thesis by (auto simp: ApplyStream_def intro!: exI [of _ "[]"])
next
  case None
  then have "stream_loop StoreApplier fid its st [ack StoreApplier fid st] = Inr (st', acks, e)"
    using assms(2) by (simp add: ApplyStream_def)
  from stream_loop_facts [OF this reachable_inv [OF assms(1)] assms(3)] assms(4) show ?thesis
    by (simp add: ack_def StoreApplier_def AppliedRevision_def)
qed

theorem follower_applies_in_order_witness:
  "\<exists>st' acks es. ApplyStream StoreApplier 2 None (received [0] [entry_msg (create_entry 1 0)]) New
      = Inr (st', acks, EndWaiting) \<and> subseq es [create_entry 1 0] \<and> rev st' = int (length es)"
proof -
  obtain st' acks where run: "ApplyStream StoreApplier 2 None (received [0] [entry_msg (create_entry 1 0)]) New
      = Inr (st', acks, EndWaiting)" using one_entry_run by blast
  from follower_applies_in_order [OF reachable.init run] show ?thesis
    unfolding run by (auto simp: received_def item_entries_def item_snapshots_def entry_msg_def store_fits_create maxIndex_def)
qed

text \<open>C22: The hand-over from catch-up to tailing loses entries. If an entry is appended between
  \<open>Catchup\<close> and the \<open>LastIndex\<close> call of the push goroutine, it is never sent on this stream, and
  the next entry makes the follower stop with a protocol error; it has to reconnect to recover.\<close>

theorem handover_gap:
  assumes "leader_reach cfg l1" and "reachable st" and "rev st \<le> LastIndex l1"
    and "Propose a l1 = Inr (l2, Inr i)" and "Propose b l2 = Inr (l3, Inr j)"
    and "store_fits (a\<lparr>leIndex := LastIndex l1 + 1, leTerm := 1\<rparr>)"
    and "store_fits (b\<lparr>leIndex := LastIndex l1 + 2, leTerm := 1\<rparr>)"
  shows "\<exists>m1 m2. push_start None (rev st) l1 l2 = Inr (m1, LastIndex l1 + 1, True)
    \<and> push_round None (LastIndex l1 + 1) l3 l3 l3 = Inr (m2, LastIndex l1 + 2, True)
    \<and> (\<forall>c1 c2. length c1 = length m1 \<longrightarrow> length c2 = length m2 \<longrightarrow>
         (\<exists>st' acks. ApplyStream StoreApplier fid None (received c1 m1 @ received c2 m2) st
           = Inr (st', acks, EndProtocol (LastIndex l1 + 2) (LastIndex l1 + 1))))"
proof -
  have inv1: "node_inv l1" "exportSnapshot l1 \<noteq> None" using leader_reach_inv [OF assms(1)] by auto
  have idx: "AppliedIndex StoreApplier x = rev x" for x by (simp add: StoreApplier_def AppliedRevision_def)
  have "\<not> stopped l1" using assms(4) by (auto simp: Propose_def split: if_splits)
  from leader_inv_propose [OF inv1(1) this assms(6)] assms(4)
  have l2: "node_inv l2" "LastIndex l2 = LastIndex l1 + 1" "compactIndex l2 = compactIndex l1"
    "ldLog l2 = ldLog l1 @ [a\<lparr>leIndex := LastIndex l1 + 1, leTerm := 1\<rparr>]" by auto
  have "\<not> stopped l2" using assms(5) by (auto simp: Propose_def split: if_splits)
  from leader_inv_propose [OF l2(1) this, of b] assms(5,7) l2
  have l3: "node_inv l3" "LastIndex l3 = LastIndex l1 + 2" "compactIndex l3 = compactIndex l1"
    "ldLog l3 = ldLog l1 @ [a\<lparr>leIndex := LastIndex l1 + 1, leTerm := 1\<rparr>, b\<lparr>leIndex := LastIndex l1 + 2, leTerm := 1\<rparr>]"
    by (auto simp: algebra_simps)
  let ?b = "b\<lparr>leIndex := LastIndex l1 + 2, leTerm := 1\<rparr>"
  have st: "store_inv st" using assms(2) by (rule reachable_inv)
  obtain m1 where m1: "sendCatchup None (rev st) l1 = Inr (m1, True)"
    and run: "\<forall>clks. length clks = length m1 \<longrightarrow> (\<exists>st' acks.
         stream_loop StoreApplier fid (received clks m1) st [ack StoreApplier fid st]
           = Inr (st', [ack StoreApplier fid st] @ acks, EndWaiting)
         \<and> store_inv st' \<and> rev st' = LastIndex l1)"
    using store_replica.catchup_ok [OF inv1 st, of fid "[ack StoreApplier fid st]"] store_inv_rev [OF st] assms(3)
    by (auto simp: idx)
  have start: "push_start None (rev st) l1 l2 = Inr (m1, LastIndex l1 + 1, True)"
    by (simp add: push_start_def m1 l2)
  have "drop (nat (LastIndex l1 + 1 - compactIndex l1)) (ldLog l3) = [?b]"
    by (simp add: l3 LastIndex_def nat_add_distrib)
  then have round: "push_round None (LastIndex l1 + 1) l3 l3 l3 = Inr ([entry_msg ?b], LastIndex l1 + 2, True)"
    using l3(2) by (simp add: push_round_def Let_def EntriesAfter_def l3(3) slice_from_def send_all_def)
      (simp add: LastIndex_def l3)
  have "\<exists>st' acks. ApplyStream StoreApplier fid None (received c1 m1 @ received c2 [entry_msg ?b]) st
      = Inr (st', acks, EndProtocol (LastIndex l1 + 2) (LastIndex l1 + 1))"
    if c: "length c1 = length m1" "length c2 = Suc 0" for c1 c2
  proof -
    obtain now where c2: "c2 = [now]" using c(2) by (cases c2) auto
    from run c(1) obtain st1 acks where "stream_loop StoreApplier fid (received c1 m1) st [ack StoreApplier fid st]
           = Inr (st1, [ack StoreApplier fid st] @ acks, EndWaiting)" "rev st1 = LastIndex l1" by blast
    with stream_loop_append [OF this(1)] show ?thesis
      by (simp add: ApplyStream_def received_def c2 handle_entry_gap idx)
  qed
  with start round show ?thesis
    by (intro exI [of _ m1] exI [of _ "[entry_msg ?b]"]) simp
qed

theorem handover_gap_witness:
  "\<exists>l3 m1 m2 st' acks. Propose (create_entry 0 0) leader1 = Inr (l3, Inr 2)
    \<and> push_start None 0 (nodeLeader cfg3) leader1 = Inr (m1, 1, True)
    \<and> push_round None 1 l3 l3 l3 = Inr (m2, 2, True)
    \<and> ApplyStream StoreApplier 2 None (received (map (\<lambda>_. 0) m1) m1 @ received (map (\<lambda>_. 0) m2) m2) New
        = Inr (st', acks, EndProtocol 2 1)"
proof -
  have "\<not> stopped leader1"
    by (simp add: leader1_def proposed_def Propose_def leader_eval wake_def notifyReplicators_def notify_def create_entry_def)
  with leader_inv_propose [of StoreApplier store_inv store_fits store_snok leader1 "create_entry 0 0"]
    leader_reach_inv [OF leader_reach1]
  obtain l3 where l3: "Propose (create_entry 0 0) leader1 = Inr (l3, Inr 2)"
    by (auto simp: leader1_facts create_entry_at store_fits_create maxIndex_def)
  have zero: "LastIndex (nodeLeader cfg3) = 0" by (simp add: leader_eval)
  have fits: "store_fits (create_entry 1 0)" "store_fits (create_entry 2 0)"
    by (simp_all add: store_fits_create maxIndex_def)
  obtain m1 m2 where m: "push_start None 0 (nodeLeader cfg3) leader1 = Inr (m1, 1, True)"
      "push_round None 1 l3 l3 l3 = Inr (m2, 2, True)"
    and run: "\<And>c1 c2. length c1 = length m1 \<Longrightarrow> length c2 = length m2 \<Longrightarrow>
         \<exists>st' acks. ApplyStream StoreApplier 2 None (received c1 m1 @ received c2 m2) New = Inr (st', acks, EndProtocol 2 1)"
    using handover_gap [OF leader_reach.start reachable.init _ leader1_propose l3, of 2] fits
    by (auto simp: zero create_entry_at)
  have "length (map (\<lambda>_. 0 :: int64) m1) = length m1" "length (map (\<lambda>_. 0 :: int64) m2) = length m2" by simp_all
  from run [OF this] m l3 show ?thesis by blast
qed

end
