(* ===== verification/Proposals.thy ===== *)
theory Proposals
  imports ReplProps
begin

text \<open>
  A call of \<open>Leader.Propose\<close> (\<open>internal/repl/leader.go\<close>) from beginning to end, as the gRPC
  handlers and the sweeper make it. The call appends its entry, then waits in a select while
  the other goroutines of the leader run: they are a list of actions here, so every
  interleaving is covered. Calls of \<open>SubscribeEntries\<close> and the receives of the push goroutines
  only touch the field \<open>ping\<close>, which none of these actions reads; they are left out.
\<close>

subsection \<open>Actions of the leader\<close>

datatype leader_act =
    ActPropose LogEntry
  | ActSelect propose_case int64
  | ActTurn "int64 \<Rightarrow> int64"
  | ActAck int32 int64
  | ActReset int32
  | ActStop

fun leader_step :: "leader_act \<Rightarrow> 'st Leader \<Rightarrow> 'st Leader go" where
  "leader_step (ActPropose e) l = go_bind (Propose e l) (\<lambda>(l', r). Inr l')"
| "leader_step (ActSelect c i) l = (case propose_select c i l of None \<Rightarrow> Inr l | Some (l', r) \<Rightarrow> Inr l')"
| "leader_step (ActTurn clk) l = go_bind (commitLoop_turn clk l) (\<lambda>r. Inr (case r of None \<Rightarrow> l | Some l' \<Rightarrow> l'))"
| "leader_step (ActAck i index) l = FollowerAck i index l"
| "leader_step (ActReset i) l = FollowerReset i l"
| "leader_step ActStop l = Stop l"

fun leader_run :: "leader_act list \<Rightarrow> 'st Leader \<Rightarrow> 'st Leader go" where
  "leader_run [] l = Inr l"
| "leader_run (a # as) l = go_bind (leader_step a l) (leader_run as)"

text \<open>The whole call: the actions \<open>as\<close> happen while it waits, \<open>c\<close> is the case the select takes.
  None: that case is not ready, the call still waits.\<close>

definition propose_call :: "leader_act list \<Rightarrow> propose_case \<Rightarrow> LogEntry \<Rightarrow> 'st Leader
    \<Rightarrow> ('st Leader \<times> (go_error + Outcome)) option go" where
  "propose_call as c e l =
    go_bind (Propose e l) (\<lambda>(l1, r). case r of
        Inl err \<Rightarrow> Inr (Some (l1, Inl err))
      | Inr index \<Rightarrow> go_bind (leader_run as l1) (\<lambda>l2. Inr (propose_select c index l2)))"

subsection \<open>Actions that fit\<close>

text \<open>What the callers of \<open>Propose\<close> pass: an operation, and fewer than 4096 expiring keys.\<close>

definition op_fits :: "LogEntry \<Rightarrow> bool" where
  "op_fits e \<longleftrightarrow> (case leOp e of None \<Rightarrow> False
     | Some (LogEntry_ExpireKeys items) \<Rightarrow> int (length items) < subLimit | _ \<Rightarrow> True)"

lemma op_fits_at: "op_fits e \<Longrightarrow> n < maxIndex \<Longrightarrow> store_fits (e\<lparr>leIndex := n, leTerm := 1\<rparr>)"
  by (simp add: op_fits_def store_fits_def)

definition acts_ok :: "leader_act list \<Rightarrow> int64 \<Rightarrow> bool" where
  "acts_ok as n \<longleftrightarrow> (\<forall>e. ActPropose e \<in> set as \<longrightarrow> op_fits e) \<and> n + int (length as) < maxIndex"

subsection \<open>The state behind the leader\<close>

text \<open>An entry was applied to a reachable store that had applied everything before it, with this outcome.\<close>

definition applied_as :: "LogEntry \<Rightarrow> Outcome \<Rightarrow> bool" where
  "applied_as e out \<longleftrightarrow> (\<exists>s s' now. reachable s \<and> rev s + 1 = leIndex e
     \<and> applyOne StoreApplier now e s = Inr (s', out))"

lemma clocked_run:
  assumes "reachable s" and "consecutive (rev s) es" and "\<forall>e\<in>set es. leIndex e < maxIndex \<and> leOp e \<noteq> None"
    and "apply_all StoreApplier (clocked clk i es) s = Inr (s', rs)"
  shows "reachable s' \<and> length rs = length es \<and> (\<forall>j<length es. applied_as (es ! j) (rs ! j))"
  using assms
proof (induction es arbitrary: s i rs)
  case Nil
  then show ?case by simp
next
  case (Cons e es)
  obtain s1 r rs1 where s1: "applyOne StoreApplier (clk i) e s = Inr (s1, r)"
    "apply_all StoreApplier (clocked clk (i + 1) es) s1 = Inr (s', rs1)" and rs: "rs = r # rs1"
    using Cons.prems(4) by (auto simp: go_bind_Inr_iff)
  have idx: "rev s < leIndex e" "leIndex e < maxIndex" using Cons.prems(2,3) by auto
  have "rev s1 = leIndex e"
    using store_inv_apply [OF reachable_inv [OF Cons.prems(1)] idx s1(1)]
      spec_apply_rev [of e "clk i" "abs_of s"] Cons.prems(3) abs_of_sel(3) [of s1] by (metis list.set_intros(1))
  then have rest: "reachable s' \<and> length rs1 = length es \<and> (\<forall>j<length es. applied_as (es ! j) (rs1 ! j))"
    using Cons.IH [OF reachable.apply_entry [OF Cons.prems(1) idx s1(1)] _ _ s1(2)] Cons.prems(2,3) by simp
  have "applied_as e r"
    using Cons.prems(1,2) s1(1) by (auto simp: applied_as_def)
  with rest show ?case
    by (auto simp: rs nth_Cons split: nat.splits)
qed

lemma log_range_fits:
  assumes "node_inv l"
  shows "consecutive (ldCommit l) (log_range (ldCommit l + 1) n l)"
    and "\<forall>e\<in>set (log_range (ldCommit l + 1) n l). leIndex e < maxIndex \<and> leOp e \<noteq> None"
    and "rev (ldState l) = ldCommit l"
proof -
  have lg: "\<forall>e\<in>set (ldLog l). store_fits e" "consecutive (compactIndex l) (ldLog l)"
    "compactIndex l \<le> ldCommit l" "ldCommit l \<le> LastIndex l"
    using assms by (auto simp: leader_inv_def log_inv_def)
  let ?k = "nat (ldCommit l - compactIndex l)"
  have k: "?k \<le> length (ldLog l)" using lg(4) by (auto simp: LastIndex_def)
  have "consecutive (ldCommit l) (drop ?k (ldLog l))"
    using consecutive_drop [OF lg(2) k] lg(3) by simp
  then show "consecutive (ldCommit l) (log_range (ldCommit l + 1) n l)"
    unfolding log_range_def by (metis add_diff_cancel_right' append_take_drop_id consecutive_append)
  show "\<forall>e\<in>set (log_range (ldCommit l + 1) n l). leIndex e < maxIndex \<and> leOp e \<noteq> None"
    using lg(1) by (auto simp: log_range_def store_fits_def dest!: in_set_takeD in_set_dropD split: option.splits)
  show "rev (ldState l) = ldCommit l"
    using assms by (simp add: leader_inv_def StoreApplier_def AppliedRevision_def)
qed

text \<open>A turn, seen from the outside: what it applies, whom it answers.\<close>

lemma turn_outcomes:
  assumes "leader_reach cfg l" and "commitLoop_turn clk l = Inr (Some l')" and "reachable (ldState l)"
  shows "\<exists>rs. reachable (ldState l') \<and> ldCommit l \<le> ldCommit l' \<and> ldCommit l' \<le> LastIndex l
    \<and> LastIndex l' = LastIndex l \<and> waiters l' = answered (ldCommit l + 1) (ldCommit l') (waiters l)
    \<and> ldLog l' = drop (nat (compactIndex l' - compactIndex l)) (ldLog l) \<and> compactIndex l \<le> compactIndex l'
    \<and> (\<forall>i. resChans l' i = (if map_of (waiters l) i \<noteq> None \<and> ldCommit l < i \<and> i \<le> ldCommit l'
             then Some ((make_chan 1)\<lparr>chBuf := [rs i]\<rparr>) else resChans l i))
    \<and> (\<forall>i. ldCommit l < i \<and> i \<le> ldCommit l' \<longrightarrow> applied_as (ldLog l ! nat (i - 1 - compactIndex l)) (rs i))"
proof -
  have inv: "node_inv l" using leader_reach_inv [OF assms(1)] by simp
  have wake: "chBuf (wakeCh l) \<noteq> []"
    using assms(2) by (auto simp: commitLoop_turn_def try_recv_def split: list.splits if_splits)
  define n where "n = find_commit (\<lambda>i. votes l i \<ge> needVotes l) (LastIndex l) (ldCommit l)"
  obtain rs where t: "ldCommit l' = n" "apply_all StoreApplier (clocked clk (ldCommit l + 1) (log_range (ldCommit l + 1) n l)) (ldState l)
        = Inr (ldState l', rs)" "int (length rs) = n - ldCommit l" "LastIndex l' = LastIndex l"
      "\<forall>i. resChans l' i = (if map_of (waiters l) i \<noteq> None \<and> ldCommit l < i \<and> i \<le> n
             then Some ((make_chan 1)\<lparr>chBuf := [rs ! nat (i - (ldCommit l + 1))]\<rparr>) else resChans l i)"
      "waiters l' = answered (ldCommit l + 1) n (waiters l)"
      "ldLog l' = drop (nat (compactIndex l' - compactIndex l)) (ldLog l)" "compactIndex l \<le> compactIndex l'"
    using turn_ok [OF inv wake n_def, of clk] assms(2) by auto
  have lg: "compactIndex l \<le> ldCommit l" "ldCommit l \<le> LastIndex l"
    using inv by (auto simp: leader_inv_def log_inv_def)
  then have n: "ldCommit l \<le> n" "n \<le> LastIndex l"
    using find_commit_spec [of "ldCommit l" "LastIndex l"] n_def by auto
  note range = log_range_fits(1,2) [OF inv, of n] log_range_fits(3) [OF inv]
  have run: "reachable (ldState l')" "length rs = length (log_range (ldCommit l + 1) n l)"
    "\<And>j. j < length rs \<Longrightarrow> applied_as (log_range (ldCommit l + 1) n l ! j) (rs ! j)"
    using clocked_run [OF assms(3) _ range(2) t(2)] range(1,3) by auto
  have "applied_as (ldLog l ! nat (i - 1 - compactIndex l)) (rs ! nat (i - (ldCommit l + 1)))"
    if "ldCommit l < i" "i \<le> n" for i
  proof -
    let ?j = "nat (i - (ldCommit l + 1))"
    have j: "?j < length rs" using that t(3) by auto
    have "nat (ldCommit l - compactIndex l) + ?j = nat (i - 1 - compactIndex l)" using that lg by auto
    moreover have "nat (ldCommit l - compactIndex l) + ?j < length (ldLog l)"
      using that n lg by (auto simp: LastIndex_def)
    ultimately have "log_range (ldCommit l + 1) n l ! ?j = ldLog l ! nat (i - 1 - compactIndex l)"
      using j run(2) by (simp add: log_range_def)
    with run(3) [OF j] show ?thesis by simp
  qed
  with t n run(1) show ?thesis
    by (intro exI [of _ "\<lambda>i. rs ! nat (i - (ldCommit l + 1))"]) simp
qed

lemma leader_state_reachable: "leader_reach cfg l \<Longrightarrow> reachable (ldState l)"
proof (induction rule: leader_reach.induct)
  case start
  then show ?case by (simp add: nodeLeader_def SetSnapshotExporter_def NewLeader_def reachable.init)
next
  case (propose l e l' r)
  have "ldState l' = ldState l"
    using propose(3) by (auto simp: Propose_def Let_def wake_def notifyReplicators_def go_bind_Inr_iff
        split: if_splits send_outcome.splits)
  with propose show ?case by simp
next
  case (select l c index l' r)
  then show ?case
    by (auto simp: propose_select_def split: propose_case.splits option.splits recv_outcome.splits if_splits)
next
  case (turn l clk l')
  with turn_outcomes show ?case by blast
next
  case (acked l i index l')
  then show ?case
    by (auto simp: FollowerAck_def wake_def split: send_outcome.splits if_splits)
next
  case (reset l i l')
  then show ?case by (auto simp: FollowerReset_def wake_def split: send_outcome.splits)
next
  case (stop l l')
  then show ?case by (auto simp: Stop_def split: if_splits)
next
  case (sub l l' i)
  then show ?case by (auto simp: SubscribeEntries_def split: prod.splits)
qed (simp_all add: UnsubscribeEntries_def)

subsection \<open>A waiting call\<close>

definition waiting_at :: "int64 \<Rightarrow> LogEntry \<Rightarrow> Store Leader \<Rightarrow> bool" where
  "waiting_at i e l \<longleftrightarrow> ldCommit l < i \<and> i \<le> LastIndex l \<and> map_of (waiters l) i \<noteq> None
     \<and> resChans l i = Some (make_chan 1) \<and> ldLog l ! nat (i - 1 - compactIndex l) = e"

definition done_at :: "int64 \<Rightarrow> LogEntry \<Rightarrow> Store Leader \<Rightarrow> bool" where
  "done_at i e l \<longleftrightarrow> i \<le> ldCommit l
     \<and> (\<exists>out. resChans l i = Some ((make_chan 1)\<lparr>chBuf := [out]\<rparr>) \<and> applied_as e out)"

definition call_inv :: "Config \<Rightarrow> int64 \<Rightarrow> LogEntry \<Rightarrow> Store Leader \<Rightarrow> bool" where
  "call_inv cfg i e l \<longleftrightarrow> leader_reach cfg l \<and> (waiting_at i e l \<or> done_at i e l)"

text \<open>What the actions other than a turn leave alone.\<close>

lemma Propose_result:
  assumes "node_inv l" and "op_fits e" and "LastIndex l + 1 < maxIndex"
  shows "\<exists>l' r. Propose e l = Inr (l', r) \<and> node_inv l' \<and> ldCommit l' = ldCommit l \<and> compactIndex l' = compactIndex l
    \<and> (if stopped l then l' = l \<and> r = Inl ErrNotLeader
       else r = Inr (LastIndex l + 1) \<and> LastIndex l' = LastIndex l + 1
         \<and> ldLog l' = ldLog l @ [e\<lparr>leIndex := LastIndex l + 1, leTerm := 1\<rparr>]
         \<and> resChans l' = (resChans l)(LastIndex l + 1 \<mapsto> make_chan 1)
         \<and> map_of (waiters l') = (map_of (waiters l))(LastIndex l + 1 \<mapsto> LastIndex l + 1))"
proof (cases "stopped l")
  case True
  with assms(1) show ?thesis by (simp add: Propose_def)
next
  case False
  from leader_inv_propose [OF assms(1) False op_fits_at [OF assms(2,3)]]
  obtain l' where l': "Propose e l = Inr (l', Inr (LastIndex l + 1))" "node_inv l'" "LastIndex l' = LastIndex l + 1"
    "ldLog l' = ldLog l @ [e\<lparr>leIndex := LastIndex l + 1, leTerm := 1\<rparr>]" "ldCommit l' = ldCommit l"
    "compactIndex l' = compactIndex l" by blast
  moreover have "resChans l' = (resChans l)(LastIndex l + 1 \<mapsto> make_chan 1)"
    "map_of (waiters l') = (map_of (waiters l))(LastIndex l + 1 \<mapsto> LastIndex l + 1)"
    using l'(1) False by (auto simp: Propose_def Let_def wake_def notifyReplicators_def go_bind_Inr_iff LastIndex_def
        split: if_splits send_outcome.splits)
  ultimately show ?thesis using False by simp
qed

lemma answered_lookup:
  "gomap_ok W \<Longrightarrow> map_of (answered lo hi W) i = (if lo \<le> i \<and> i \<le> hi then None else map_of W i)"
proof (induction W)
  case Nil
  then show ?case by (simp add: answered_def)
next
  case (Cons p W)
  then show ?case by (cases p) (auto simp: answered_def map_of_eq_None_iff)
qed

lemma call_inv_turn:
  assumes "call_inv cfg i e l" and turn: "commitLoop_turn clk l = Inr (Some l')"
  shows "call_inv cfg i e l'"
proof -
  have reach: "leader_reach cfg l" using assms(1) by (simp add: call_inv_def)
  then have reach': "leader_reach cfg l'" using turn by (rule leader_reach.turn)
  have inv: "gomap_ok (waiters l)" "compactIndex l \<le> ldCommit l" "ldCommit l' \<le> LastIndex l'" "compactIndex l' \<le> ldCommit l'"
    "\<forall>(j, ch)\<in>set (waiters l). ldCommit l < j"
    using leader_reach_inv [OF reach] leader_reach_inv [OF reach']
    by (auto simp: leader_inv_def waiters_inv_def log_inv_def)
  obtain rs where t: "ldCommit l \<le> ldCommit l'" "ldCommit l' \<le> LastIndex l" "LastIndex l' = LastIndex l"
    "waiters l' = answered (ldCommit l + 1) (ldCommit l') (waiters l)"
    "ldLog l' = drop (nat (compactIndex l' - compactIndex l)) (ldLog l)" "compactIndex l \<le> compactIndex l'"
    "\<forall>j. resChans l' j = (if map_of (waiters l) j \<noteq> None \<and> ldCommit l < j \<and> j \<le> ldCommit l'
             then Some ((make_chan 1)\<lparr>chBuf := [rs j]\<rparr>) else resChans l j)"
    "\<forall>j. ldCommit l < j \<and> j \<le> ldCommit l' \<longrightarrow> applied_as (ldLog l ! nat (j - 1 - compactIndex l)) (rs j)"
    using turn_outcomes [OF reach turn leader_state_reachable [OF reach]] by blast
  from assms(1) consider (waits) "waiting_at i e l" | (answered) "done_at i e l"
    by (auto simp: call_inv_def)
  then show ?thesis
  proof cases
    case waits
    then have w: "ldCommit l < i" "i \<le> LastIndex l" "map_of (waiters l) i \<noteq> None" "resChans l i = Some (make_chan 1)"
      "ldLog l ! nat (i - 1 - compactIndex l) = e" by (simp_all add: waiting_at_def)
    show ?thesis
    proof (cases "i \<le> ldCommit l'")
      case True
      with w t(7,8) have "done_at i e l'" by (auto simp: done_at_def)
      with reach' show ?thesis by (simp add: call_inv_def)
    next
      case False
      have "nat (compactIndex l' - compactIndex l) + nat (i - 1 - compactIndex l') = nat (i - 1 - compactIndex l)"
        using False t(6) inv(4) by auto
      moreover have "nat (compactIndex l' - compactIndex l) \<le> length (ldLog l)"
        using t(2) inv(4) by (auto simp: LastIndex_def)
      ultimately have "ldLog l' ! nat (i - 1 - compactIndex l') = e" using w(5) by (simp add: t(5))
      with False w t answered_lookup [OF inv(1)] have "waiting_at i e l'" by (simp add: waiting_at_def)
      with reach' show ?thesis by (simp add: call_inv_def)
    qed
  next
    case answered
    then have d: "i \<le> ldCommit l" by (simp add: done_at_def)
    with answered t(1,7) have "done_at i e l'" by (simp add: done_at_def)
    with reach' show ?thesis by (simp add: call_inv_def)
  qed
qed

definition advances :: "int \<Rightarrow> Store Leader \<Rightarrow> Store Leader \<Rightarrow> bool" where
  "advances k l l' \<longleftrightarrow> LastIndex l' \<le> LastIndex l + k \<and> ldCommit l \<le> ldCommit l'"

lemma call_inv_frame:
  assumes "call_inv cfg i e l" and "leader_reach cfg l'"
    and "ldCommit l' = ldCommit l" "ldLog l' = ldLog l" "compactIndex l' = compactIndex l"
    and "map_of (waiters l') i = map_of (waiters l) i" "resChans l' i = resChans l i"
  shows "call_inv cfg i e l' \<and> advances 1 l l'"
  using assms by (simp add: call_inv_def waiting_at_def done_at_def LastIndex_def advances_def)

lemma call_inv_propose:
  assumes inv: "call_inv cfg i e l" and fits: "op_fits e'" and idx: "LastIndex l + 1 < maxIndex"
  shows "\<exists>l' r. Propose e' l = Inr (l', r) \<and> call_inv cfg i e l' \<and> advances 1 l l'"
proof -
  have reach: "leader_reach cfg l" using inv by (simp add: call_inv_def)
  then have ninv: "node_inv l" using leader_reach_inv by blast
  then have lg: "0 \<le> compactIndex l" "compactIndex l \<le> ldCommit l" "ldCommit l \<le> LastIndex l"
    by (auto simp: leader_inv_def log_inv_def)
  obtain l' r where p: "Propose e' l = Inr (l', r)" "ldCommit l' = ldCommit l" "compactIndex l' = compactIndex l"
    and q: "if stopped l then l' = l \<and> r = Inl ErrNotLeader
     else r = Inr (LastIndex l + 1) \<and> LastIndex l' = LastIndex l + 1
       \<and> ldLog l' = ldLog l @ [e'\<lparr>leIndex := LastIndex l + 1, leTerm := 1\<rparr>]
       \<and> resChans l' = (resChans l)(LastIndex l + 1 \<mapsto> make_chan 1)
       \<and> map_of (waiters l') = (map_of (waiters l))(LastIndex l + 1 \<mapsto> LastIndex l + 1)"
    using Propose_result [OF ninv fits idx] by blast
  have "waiting_at i e l' \<or> done_at i e l'"
  proof (cases "stopped l")
    case True
    with q inv show ?thesis by (simp add: call_inv_def)
  next
    case False
    with inv q p(2,3) lg show ?thesis
      by (auto simp: call_inv_def waiting_at_def done_at_def nth_append LastIndex_def)
  qed
  with leader_reach.propose [OF reach op_fits_at [OF fits idx] p(1)] p q show ?thesis
    by (auto simp: call_inv_def advances_def split: if_splits)
qed

lemma call_inv_select:
  assumes inv: "call_inv cfg i e l" and "j \<noteq> i" and sel: "propose_select c j l = Some (l', r)"
  shows "call_inv cfg i e l' \<and> advances 1 l l'"
proof (rule call_inv_frame [OF inv])
  show "leader_reach cfg l'" using leader_reach.select [OF _ sel] inv by (simp add: call_inv_def)
qed (use assms in \<open>auto simp: propose_select_def map_of_AList_delete
       split: propose_case.splits option.splits recv_outcome.splits if_splits\<close>)

lemma call_inv_step:
  assumes inv: "call_inv cfg i e l" and act: "\<forall>c. a \<noteq> ActSelect c i"
    and fit: "\<forall>e'. a = ActPropose e' \<longrightarrow> op_fits e'" "LastIndex l + 1 < maxIndex"
  shows "\<exists>l'. leader_step a l = Inr l' \<and> call_inv cfg i e l' \<and> advances 1 l l'"
proof -
  have reach: "leader_reach cfg l" using inv by (simp add: call_inv_def)
  then have ninv: "node_inv l" using leader_reach_inv by blast
  then have wk: "wake_ok (wakeCh l)" "stopped l = stopChClosed l" by (auto simp: leader_inv_def)
  show ?thesis
  proof (cases a)
    case (ActPropose e')
    with call_inv_propose [OF inv _ fit(2), of e'] fit(1) show ?thesis by auto
  next
    case (ActSelect c j)
    with act call_inv_select [OF inv, of j c] inv show ?thesis
      by (cases "propose_select c j l") (auto simp: advances_def)
  next
    case (ActTurn clk)
    show ?thesis
    proof (cases "chBuf (wakeCh l) = []")
      case True
      with inv ActTurn wk(1) show ?thesis by (simp add: commitLoop_turn_def try_recv_def wake_ok_def advances_def)
    next
      case False
      from turn_ok [OF ninv False refl, of clk] obtain l' where
        l': "commitLoop_turn clk l = Inr (Some l')" "LastIndex l' = LastIndex l"
        "ldCommit l' = find_commit (\<lambda>i. votes l i \<ge> needVotes l) (LastIndex l) (ldCommit l)" by auto
      have "ldCommit l \<le> LastIndex l" using ninv by (simp add: leader_inv_def log_inv_def)
      from find_commit_spec [OF this] l' call_inv_turn [OF inv l'(1)] ActTurn show ?thesis
        by (simp add: advances_def)
    qed
  next
    case (ActAck j index)
    obtain l' where l': "FollowerAck j index l = Inr l'" using leader_inv_ack(1) [OF ninv, of j index] by auto
    have "call_inv cfg i e l' \<and> advances 1 l l'"
      by (rule call_inv_frame [OF inv leader_reach.acked [OF reach l']])
        (use l' wake_result [OF wk(1)] in \<open>auto simp: FollowerAck_def wake_def split: if_splits send_outcome.splits\<close>)
    with l' ActAck show ?thesis by simp
  next
    case (ActReset j)
    obtain l' where l': "FollowerReset j l = Inr l'" using leader_inv_ack(2) [OF ninv, of j] by auto
    have "call_inv cfg i e l' \<and> advances 1 l l'"
      by (rule call_inv_frame [OF inv leader_reach.reset [OF reach l']])
        (use l' in \<open>auto simp: FollowerReset_def wake_def split: send_outcome.splits\<close>)
    with l' ActReset show ?thesis by simp
  next
    case ActStop
    obtain l' where l': "Stop l = Inr l'" using wk(2) by (auto simp: Stop_def)
    have "call_inv cfg i e l' \<and> advances 1 l l'"
      by (rule call_inv_frame [OF inv leader_reach.stop [OF reach l']])
        (use l' in \<open>auto simp: Stop_def split: if_splits\<close>)
    with l' ActStop show ?thesis by simp
  qed
qed

lemma call_inv_run:
  assumes "call_inv cfg i e l" and "\<forall>c. ActSelect c i \<notin> set as" and "acts_ok as (LastIndex l)"
  shows "\<exists>l'. leader_run as l = Inr l' \<and> call_inv cfg i e l' \<and> advances (int (length as)) l l'"
  using assms
proof (induction as arbitrary: l)
  case Nil
  then show ?case by (simp add: advances_def)
next
  case (Cons a as)
  have "LastIndex l + 1 < maxIndex" "\<forall>e'. a = ActPropose e' \<longrightarrow> op_fits e'" "\<forall>c. a \<noteq> ActSelect c i"
    using Cons.prems by (auto simp: acts_ok_def)
  from call_inv_step [OF Cons.prems(1) this(3,2,1)] obtain l1 where
    l1: "leader_step a l = Inr l1" "call_inv cfg i e l1" "advances 1 l l1" by blast
  have "acts_ok as (LastIndex l1)" using Cons.prems(3) l1(3) by (auto simp: acts_ok_def advances_def)
  from Cons.IH [OF l1(2) _ this] Cons.prems(2) l1 show ?case by (fastforce simp: advances_def)
qed

lemma select_outcome:
  assumes "call_inv cfg i e l" and "propose_select c i l = Some (l', r)"
  shows "leader_reach cfg l' \<and> LastIndex l' = LastIndex l \<and> ldCommit l' = ldCommit l \<and> (case r of
      Inr out \<Rightarrow> c = CaseResult \<and> i \<le> ldCommit l' \<and> applied_as e out
    | Inl err \<Rightarrow> (\<exists>x. c = CaseCtxDone x \<and> err = ErrCtx x) \<or> (c = CaseStopped \<and> err = ErrNotLeader))"
proof -
  have "leader_reach cfg l'" using leader_reach.select [OF _ assms(2)] assms(1) by (simp add: call_inv_def)
  with assms show ?thesis
    by (auto simp: propose_select_def call_inv_def waiting_at_def done_at_def make_chan_def try_recv_def LastIndex_def
        split: propose_case.splits option.splits if_splits)
qed

text \<open>What a caller can rely on, whatever happens meanwhile.\<close>

lemma propose_call_ok:
  assumes "leader_reach cfg l" and "op_fits e" and "acts_ok as (LastIndex l + 1)"
    and "\<forall>c. ActSelect c (LastIndex l + 1) \<notin> set as"
  shows "\<exists>q. propose_call as c e l = Inr q \<and> (\<forall>l' r. q = Some (l', r) \<longrightarrow> leader_reach cfg l'
      \<and> advances (1 + int (length as)) l l' \<and> (case r of
      Inr out \<Rightarrow> c = CaseResult \<and> LastIndex l + 1 \<le> ldCommit l'
        \<and> applied_as (e\<lparr>leIndex := LastIndex l + 1, leTerm := 1\<rparr>) out
    | Inl err \<Rightarrow> err = ErrNotLeader \<or> (\<exists>x. c = CaseCtxDone x \<and> err = ErrCtx x)))"
proof -
  have ninv: "node_inv l" using leader_reach_inv [OF assms(1)] by simp
  have idx: "LastIndex l + 1 < maxIndex" using assms(3) by (simp add: acts_ok_def)
  show ?thesis
  proof (cases "stopped l")
    case True
    with assms(1) show ?thesis by (simp add: propose_call_def Propose_def advances_def)
  next
    case False
    with Propose_result [OF ninv assms(2) idx] obtain l1 where
      l1: "Propose e l = Inr (l1, Inr (LastIndex l + 1))" "LastIndex l1 = LastIndex l + 1" "ldCommit l1 = ldCommit l"
      "compactIndex l1 = compactIndex l" "ldLog l1 = ldLog l @ [e\<lparr>leIndex := LastIndex l + 1, leTerm := 1\<rparr>]"
      "resChans l1 = (resChans l)(LastIndex l + 1 \<mapsto> make_chan 1)"
      "map_of (waiters l1) = (map_of (waiters l))(LastIndex l + 1 \<mapsto> LastIndex l + 1)" by auto
    have "ldCommit l < LastIndex l + 1" using ninv by (auto simp: leader_inv_def log_inv_def)
    then have "waiting_at (LastIndex l + 1) (e\<lparr>leIndex := LastIndex l + 1, leTerm := 1\<rparr>) l1"
      using l1 by (simp add: waiting_at_def LastIndex_def)
    then have "call_inv cfg (LastIndex l + 1) (e\<lparr>leIndex := LastIndex l + 1, leTerm := 1\<rparr>) l1"
      using leader_reach.propose [OF assms(1) op_fits_at [OF assms(2) idx] l1(1)] by (simp add: call_inv_def)
    from call_inv_run [OF this assms(4)] assms(3) l1(2) obtain l2 where
      l2: "leader_run as l1 = Inr l2" "call_inv cfg (LastIndex l + 1) (e\<lparr>leIndex := LastIndex l + 1, leTerm := 1\<rparr>) l2"
      "advances (int (length as)) l1 l2" by auto
    have "propose_call as c e l = Inr (propose_select c (LastIndex l + 1) l2)"
      by (simp add: propose_call_def l1(1) l2(1))
    with select_outcome [OF l2(2), of c] l2(3) l1(2,3) show ?thesis
      by (auto simp: advances_def split: sum.splits)
  qed
qed

end
