(* ===== verification/Sweeper.thy ===== *)
theory Sweeper
  imports Proposals
begin

text \<open>
  The TTL sweeper (\<open>internal/sweeper/sweeper.go\<close>) and the interface it shares with the gRPC
  handlers: \<open>Proposer\<close>, a blocking call that appends an entry and returns its outcome.

  The call is a function on a world \<open>'w\<close>: whatever the leader and the followers do while the
  caller waits is inside it. \<open>view\<close> reads the store of the leader in a world. The locale
  \<open>proposer\<close> states what a caller may rely on; the leader of this development provides it for
  every script of interleaved actions (\<open>scripted_propose\<close>).
\<close>

subsection \<open>The interface\<close>

record 'w Proposer =
  prPropose :: "LogEntry \<Rightarrow> 'w \<Rightarrow> ('w \<times> (go_error + Outcome)) go"

definition op_entry :: "LogEntry_Op \<Rightarrow> LogEntry" where
  "op_entry op = \<lparr>leIndex = 0, leTerm = 0, leOp = Some op\<rparr>"

subsection \<open>The sweeper\<close>

text \<open>\<open>swLoops\<close> counts the running loop goroutines, \<open>swStopClosed\<close> and \<open>swDoneClosed\<close> are the two
  channels.\<close>

record Sweeper =
  swInterval :: int64
  swProposeTimeout :: int64
  swLoops :: nat
  swStopClosed :: bool
  swDoneClosed :: bool

definition NewSweeper :: "int64 \<Rightarrow> Sweeper" where
  "NewSweeper interval = \<lparr>swInterval = (if interval \<le> 0 then 200 * 1000000 else interval),
     swProposeTimeout = 5 * 1000000000, swLoops = 0, swStopClosed = False, swDoneClosed = False\<rparr>"

definition StartSweeper :: "Sweeper \<Rightarrow> Sweeper" where
  "StartSweeper sw = sw\<lparr>swLoops := swLoops sw + 1\<rparr>"

text \<open>\<open>Stop\<close> closes \<open>stopCh\<close> once, then receives from \<open>doneCh\<close>: the boolean says whether that
  receive is ready.\<close>

definition StopSweeper :: "Sweeper \<Rightarrow> Sweeper \<times> bool" where
  "StopSweeper sw = (sw\<lparr>swStopClosed := True\<rparr>, swDoneClosed sw)"

definition expireService_items :: "ExpiredInstance list \<Rightarrow> ExpireService list" where
  "expireService_items = map (\<lambda>x. \<lparr>esNamespace = xiNamespace x, esService = xiService x,
     esInstanceId = xiInstanceID x, esGuardRevision = xiGuardRevision x\<rparr>)"

text \<open>A failed proposal is only logged; the next round scans again.\<close>

definition expireKVs :: "'w Proposer \<Rightarrow> ('w \<Rightarrow> Store) \<Rightarrow> ('w \<Rightarrow> int64) \<Rightarrow> 'w \<Rightarrow> 'w go" where
  "expireKVs pr view clk w =
    (let items = ScanExpiredKVs (clk w) (view w)
     in if length items = 0 then Inr w
        else go_bind (prPropose pr (op_entry (LogEntry_ExpireKeys (expire_items items))) w)
               (\<lambda>(w', r). Inr w'))"

definition expireServices :: "'w Proposer \<Rightarrow> ('w \<Rightarrow> Store) \<Rightarrow> ('w \<Rightarrow> int64) \<Rightarrow> 'w \<Rightarrow> 'w go" where
  "expireServices pr view clk w =
    (let items = ScanExpiredInstances (clk w) (view w)
     in if length items = 0 then Inr w
        else go_bind (prPropose pr (op_entry (LogEntry_ExpireServices (expireService_items items))) w)
               (\<lambda>(w', r). Inr w'))"

definition tick :: "'w Proposer \<Rightarrow> ('w \<Rightarrow> Store) \<Rightarrow> ('w \<Rightarrow> int64) \<Rightarrow> 'w \<Rightarrow> 'w go" where
  "tick pr view clk w = go_bind (expireKVs pr view clk w) (expireServices pr view clk)"

text \<open>One turn of the loop goroutine. None: the chosen case is not ready. The boolean says whether
  the loop goes on.\<close>

datatype loop_case = LoopStop | LoopTick

definition loop_turn :: "'w Proposer \<Rightarrow> ('w \<Rightarrow> Store) \<Rightarrow> ('w \<Rightarrow> int64) \<Rightarrow> loop_case \<Rightarrow> Sweeper \<Rightarrow> 'w
    \<Rightarrow> (Sweeper \<times> 'w \<times> bool) option go" where
  "loop_turn pr view clk c sw w = (case c of
     LoopStop \<Rightarrow>
       if \<not> swStopClosed sw then Inr None
       else if swDoneClosed sw then Inl PanicCloseOfClosed
       else Inr (Some (sw\<lparr>swDoneClosed := True, swLoops := swLoops sw - 1\<rparr>, w, False))
   | LoopTick \<Rightarrow> go_bind (tick pr view clk w) (\<lambda>w'. Inr (Some (sw, w', True))))"

subsection \<open>What a caller of Propose relies on\<close>

text \<open>\<open>ok n w\<close>: the world \<open>w\<close> is good for \<open>n\<close> more calls.\<close>

locale proposer =
  fixes pr :: "'w Proposer"
    and view :: "'w \<Rightarrow> Store"
    and ok :: "nat \<Rightarrow> 'w \<Rightarrow> bool"
  assumes calls: "ok (Suc n) w \<Longrightarrow> op_fits e \<Longrightarrow> \<exists>w' r. prPropose pr e w = Inr (w', r) \<and> ok n w'
      \<and> rev (view w) \<le> rev (view w')
      \<and> (\<forall>out. r = Inr out \<longrightarrow> (\<exists>i. rev (view w) < i \<and> i \<le> rev (view w')
           \<and> applied_as (e\<lparr>leIndex := i, leTerm := 1\<rparr>) out))
      \<and> (\<forall>err. r = Inl err \<longrightarrow> err = ErrNotLeader \<or> (\<exists>x. err = ErrCtx x))"
    and weaken: "ok (Suc n) w \<Longrightarrow> ok n w"
begin

lemma expireKVs_ok:
  assumes "ok (Suc n) w" and "int (length (ScanExpiredKVs (clk w) (view w))) < subLimit"
  shows "\<exists>w'. expireKVs pr view clk w = Inr w' \<and> ok n w' \<and> rev (view w) \<le> rev (view w')"
proof (cases "ScanExpiredKVs (clk w) (view w) = []")
  case True
  with weaken [OF assms(1)] show ?thesis by (simp add: expireKVs_def)
next
  case False
  have "op_fits (op_entry (LogEntry_ExpireKeys (expire_items (ScanExpiredKVs (clk w) (view w)))))"
    using assms(2) by (simp add: op_fits_def op_entry_def expire_items_def)
  from calls [OF assms(1) this] False show ?thesis
    by (auto simp: expireKVs_def Let_def)
qed

lemma expireServices_ok:
  assumes "ok (Suc n) w"
  shows "\<exists>w'. expireServices pr view clk w = Inr w' \<and> ok n w' \<and> rev (view w) \<le> rev (view w')"
proof (cases "ScanExpiredInstances (clk w) (view w) = []")
  case True
  with weaken [OF assms(1)] show ?thesis by (simp add: expireServices_def)
next
  case False
  have "op_fits (op_entry (LogEntry_ExpireServices (expireService_items (ScanExpiredInstances (clk w) (view w)))))"
    by (simp add: op_fits_def op_entry_def)
  from calls [OF assms this] False show ?thesis
    by (auto simp: expireServices_def Let_def)
qed

lemma tick_ok:
  assumes "ok (Suc (Suc n)) w" and "int (length (ScanExpiredKVs (clk w) (view w))) < subLimit"
  shows "\<exists>w'. tick pr view clk w = Inr w' \<and> ok n w' \<and> rev (view w) \<le> rev (view w')"
proof -
  obtain w1 where w1: "expireKVs pr view clk w = Inr w1" "ok (Suc n) w1" "rev (view w) \<le> rev (view w1)"
    using expireKVs_ok [of "Suc n" w clk] assms by blast
  from expireServices_ok [OF w1(2), of clk] w1 show ?thesis by (auto simp: tick_def)
qed

end

subsection \<open>The leader provides it\<close>

text \<open>A world is a leader and, for every call to come, the actions that happen while it waits and
  the case its select takes. Without a script, or if the case is not ready, the deadline of the
  call fires.\<close>

type_synonym leader_world = "Store Leader \<times> (leader_act list \<times> propose_case) list"

fun is_own :: "int64 \<Rightarrow> leader_act \<Rightarrow> bool" where
  "is_own i (ActSelect c j) = (i = j)"
| "is_own i a = False"

fun next_script :: "(leader_act list \<times> propose_case) list \<Rightarrow> leader_act list \<times> propose_case" where
  "next_script [] = ([], CaseCtxDone DeadlineExceeded)"
| "next_script (p # ps) = p"

definition scripted_call :: "LogEntry \<Rightarrow> leader_world \<Rightarrow> (leader_world \<times> (go_error + Outcome)) go" where
  "scripted_call e = (\<lambda>(l, scripts).
    (let (as, c) = next_script scripts;
         as' = filter (\<lambda>a. \<not> is_own (LastIndex l + 1) a) as
     in go_bind (propose_call as' c e l) (\<lambda>q. case q of
          Some (l', r) \<Rightarrow> Inr ((l', tl scripts), r)
        | None \<Rightarrow> go_bind (propose_call as' (CaseCtxDone DeadlineExceeded) e l) (\<lambda>q'. case q' of
            Some (l', r) \<Rightarrow> Inr ((l', tl scripts), r)
          | None \<Rightarrow> Inr ((l, tl scripts), Inl (ErrCtx DeadlineExceeded))))))"

definition scripted_propose :: "leader_world Proposer" where
  "scripted_propose = \<lparr>prPropose = scripted_call\<rparr>"

definition leader_view :: "leader_world \<Rightarrow> Store" where
  "leader_view w = ldState (fst w)"

definition script_size :: "(leader_act list \<times> propose_case) list \<Rightarrow> int" where
  "script_size ps = sum_list (map (\<lambda>p. int (length (fst p))) ps)"

definition world_ok :: "Config \<Rightarrow> nat \<Rightarrow> leader_world \<Rightarrow> bool" where
  "world_ok cfg n w \<longleftrightarrow> leader_reach cfg (fst w)
     \<and> (\<forall>p\<in>set (snd w). \<forall>e. ActPropose e \<in> set (fst p) \<longrightarrow> op_fits e)
     \<and> LastIndex (fst w) + script_size (snd w) + int n < maxIndex"

lemma script_size_simps [simp]:
  "script_size [] = 0" "script_size (p # ps) = int (length (fst p)) + script_size ps"
  by (simp_all add: script_size_def)

lemma script_size_nonneg: "0 \<le> script_size ps"
  by (induction ps) auto

lemma leader_view_rev: "leader_reach cfg l \<Longrightarrow> rev (ldState l) = ldCommit l"
  using leader_reach_inv [of cfg l] by (simp add: leader_inv_def StoreApplier_def AppliedRevision_def)

lemma scripted_call_ok:
  assumes "world_ok cfg (Suc n) w" and "op_fits e"
  shows "\<exists>w' r. scripted_call e w = Inr (w', r) \<and> world_ok cfg n w'
    \<and> rev (leader_view w) \<le> rev (leader_view w')
    \<and> (\<forall>out. r = Inr out \<longrightarrow> (\<exists>i. rev (leader_view w) < i \<and> i \<le> rev (leader_view w')
         \<and> applied_as (e\<lparr>leIndex := i, leTerm := 1\<rparr>) out))
    \<and> (\<forall>err. r = Inl err \<longrightarrow> err = ErrNotLeader \<or> (\<exists>x. err = ErrCtx x))"
proof -
  obtain l scripts where w: "w = (l, scripts)" by (cases w)
  obtain as c where sc: "next_script scripts = (as, c)" by (cases "next_script scripts")
  define as' where "as' = filter (\<lambda>a. \<not> is_own (LastIndex l + 1) a) as"
  have reach: "leader_reach cfg l" using assms(1) by (simp add: world_ok_def w)
  have size: "int (length as') + script_size (tl scripts) \<le> script_size scripts"
    using sc length_filter_le [of "\<lambda>a. \<not> is_own (LastIndex l + 1) a" as]
    by (cases scripts) (auto simp: as'_def)
  have fits: "\<forall>e. ActPropose e \<in> set as' \<longrightarrow> op_fits e" "\<forall>p\<in>set (tl scripts). \<forall>e. ActPropose e \<in> set (fst p) \<longrightarrow> op_fits e"
    using assms(1) sc by (cases scripts; fastforce simp: world_ok_def w as'_def)+
  have acts: "acts_ok as' (LastIndex l + 1)"
    using assms(1) fits(1) size script_size_nonneg [of "tl scripts"] by (simp add: acts_ok_def world_ok_def w)
  have foreign: "\<forall>d. ActSelect d (LastIndex l + 1) \<notin> set as'"
    by (simp add: as'_def)
  have low: "ldCommit l < LastIndex l + 1" using leader_reach_inv [OF reach] by (simp add: leader_inv_def log_inv_def)
  have finish: "world_ok cfg n (l', tl scripts) \<and> rev (ldState l) \<le> rev (ldState l')
      \<and> (\<forall>out. r = Inr out \<longrightarrow> (\<exists>i. rev (ldState l) < i \<and> i \<le> rev (ldState l')
           \<and> applied_as (e\<lparr>leIndex := i, leTerm := 1\<rparr>) out))
      \<and> (\<forall>err. r = Inl err \<longrightarrow> err = ErrNotLeader \<or> (\<exists>x. err = ErrCtx x))"
    if "propose_call as' d e l = Inr (Some (l', r))" for d l' r
  proof -
    from propose_call_ok [OF reach assms(2) acts foreign, of d] that
    have l': "leader_reach cfg l'" "advances (1 + int (length as')) l l'"
      and r: "case r of Inr out \<Rightarrow> d = CaseResult \<and> LastIndex l + 1 \<le> ldCommit l'
          \<and> applied_as (e\<lparr>leIndex := LastIndex l + 1, leTerm := 1\<rparr>) out
        | Inl err \<Rightarrow> err = ErrNotLeader \<or> (\<exists>x. d = CaseCtxDone x \<and> err = ErrCtx x)" by auto
    have "world_ok cfg n (l', tl scripts)"
      using l' fits(2) size assms(1) by (auto simp: world_ok_def w advances_def)
    moreover have "rev (ldState l) \<le> rev (ldState l')"
      using l' leader_view_rev [OF reach] leader_view_rev [OF l'(1)] by (simp add: advances_def)
    moreover have "\<exists>i. rev (ldState l) < i \<and> i \<le> rev (ldState l') \<and> applied_as (e\<lparr>leIndex := i, leTerm := 1\<rparr>) out"
      if "r = Inr out" for out
      using r that low leader_view_rev [OF reach] leader_view_rev [OF l'(1)]
      by (intro exI [of _ "LastIndex l + 1"]) simp
    ultimately show ?thesis using r by (auto split: sum.splits)
  qed
  obtain q where q: "propose_call as' c e l = Inr q"
    using propose_call_ok [OF reach assms(2) acts foreign, of c] by blast
  obtain q' where q': "propose_call as' (CaseCtxDone DeadlineExceeded) e l = Inr q'"
    using propose_call_ok [OF reach assms(2) acts foreign, of "CaseCtxDone DeadlineExceeded"] by blast
  have stay: "world_ok cfg n (l, tl scripts)"
    using assms(1) fits(2) size by (auto simp: world_ok_def w)
  show ?thesis
  proof (cases q)
    case (Some x)
    obtain l' r where x: "x = (l', r)" by (cases x)
    with finish [of c l' r] q Some show ?thesis
      by (simp add: scripted_call_def w sc as'_def [symmetric] leader_view_def)
  next
    case None
    show ?thesis
    proof (cases q')
      case (Some x)
      obtain l' r where x: "x = (l', r)" by (cases x)
      with finish [of "CaseCtxDone DeadlineExceeded" l' r] q' q None Some show ?thesis
        by (simp add: scripted_call_def w sc as'_def [symmetric] leader_view_def)
    next
      case None': None
      with None q q' stay show ?thesis
        by (simp add: scripted_call_def w sc as'_def [symmetric] leader_view_def)
    qed
  qed
qed

interpretation leader_calls: proposer scripted_propose leader_view "world_ok cfg"
proof
  fix n w e assume "world_ok cfg (Suc n) w" and "op_fits e"
  from scripted_call_ok [OF this] show "\<exists>w' r. prPropose scripted_propose e w = Inr (w', r) \<and> world_ok cfg n w'
      \<and> rev (leader_view w) \<le> rev (leader_view w')
      \<and> (\<forall>out. r = Inr out \<longrightarrow> (\<exists>i. rev (leader_view w) < i \<and> i \<le> rev (leader_view w')
           \<and> applied_as (e\<lparr>leIndex := i, leTerm := 1\<rparr>) out))
      \<and> (\<forall>err. r = Inl err \<longrightarrow> err = ErrNotLeader \<or> (\<exists>x. err = ErrCtx x))"
    by (simp add: scripted_propose_def)
qed (simp add: world_ok_def)

end
