(* ===== verification/SweeperProps.thy ===== *)
theory SweeperProps
  imports Sweeper RegistryProps
begin

text \<open>
  The properties of the sweeper: what an expiry entry removes when it is applied some time after
  the scan that built it, the limit on its size, and what a round does to the cluster.
\<close>

subsection \<open>What entries leave alone\<close>

lemma spec_apply_kvs:
  assumes "absKvs (fst (spec_apply now e a)) k = Some x"
  shows "absKvs a k = Some x \<or> keRevision x = leIndex e"
proof (cases "leOp e")
  case None
  with assms show ?thesis by (simp add: spec_apply_def)
next
  case (Some op)
  show ?thesis
  proof (cases op)
    case (LogEntry_Put p)
    with assms Some show ?thesis
      by (auto simp: spec_apply_def Let_def spec_put_def spec_emit_def put_entry_def split: if_splits)
  next
    case (LogEntry_Delete p)
    with assms Some show ?thesis
      by (auto simp: spec_apply_def Let_def spec_delete_def spec_emit_def split: if_splits option.splits)
  next
    case (LogEntry_ExpireKeys items)
    obtain m evs where m: "spec_expire (leIndex e) items (absKvs a) = (m, evs)" by (metis surj_pair)
    with assms Some LogEntry_ExpireKeys have "m k = Some x" by (simp add: spec_apply_def spec_emit_def)
    with spec_expire_inv [of "leIndex e" items "absKvs a"] m show ?thesis by (metis fst_conv)
  qed (use assms Some in \<open>auto simp: spec_apply_def Let_def split: prod.splits\<close>)
qed

lemma spec_apply_insts:
  assumes "absInsts (fst (spec_apply now e a)) k = Some x"
  shows "absInsts a k = Some x \<or> ieRevision x = leIndex e"
proof (cases "leOp e")
  case None
  with assms show ?thesis by (simp add: spec_apply_def)
next
  case (Some op)
  with assms show ?thesis
    by (cases op) (auto simp: spec_apply_def Let_def spec_emit_def register_entry_def spec_heartbeat_def
        split: if_splits option.splits prod.splits)
qed

text \<open>Along a run, a value or an instance with an old revision is an old one.\<close>

lemma run_fresh:
  assumes "reachable s" and "consecutive (rev s) es" and "\<forall>e\<in>set es. leIndex e < maxIndex \<and> leOp e \<noteq> None"
    and "length clks = length es" and "apply_all StoreApplier (zip clks es) s = Inr (t, rs)"
  shows "reachable t \<and> rev s \<le> rev t
    \<and> (\<forall>k x. map_of (kvs t) k = Some x \<longrightarrow> map_of (kvs s) k = Some x \<or> rev s < keRevision x)
    \<and> (\<forall>k x. map_of (instances t) k = Some x \<longrightarrow> map_of (instances s) k = Some x \<or> rev s < ieRevision x)"
  using assms
proof (induction es arbitrary: s clks rs)
  case Nil
  then show ?case by (simp del: split_paired_All)
next
  case (Cons e es)
  obtain now clks' where c: "clks = now # clks'" using Cons.prems(4) by (cases clks) auto
  obtain s1 r rs1 where s1: "applyOne StoreApplier now e s = Inr (s1, r)"
    "apply_all StoreApplier (zip clks' es) s1 = Inr (t, rs1)"
    using Cons.prems(5) by (auto simp: c go_bind_Inr_iff)
  have idx: "leIndex e = rev s + 1" "leIndex e < maxIndex" "leOp e \<noteq> None" using Cons.prems(2,3) by auto
  have abs: "abs_of s1 = fst (spec_apply now e (abs_of s))"
    using store_inv_apply [OF reachable_inv [OF Cons.prems(1)] _ idx(2) s1(1)] idx(1) by simp
  have rev1: "rev s1 = rev s + 1"
    using abs spec_apply_rev [OF idx(3), of now "abs_of s"] abs_of_sel(3) [of s1] idx(1) by simp
  have reach: "reachable s1" using reachable.apply_entry [OF Cons.prems(1) _ idx(2) s1(1)] idx(1) by simp
  have rest: "consecutive (rev s1) es" "\<forall>e\<in>set es. leIndex e < maxIndex \<and> leOp e \<noteq> None" "length clks' = length es"
    using Cons.prems(2-4) c rev1 by simp_all
  have IH: "reachable t" "rev s1 \<le> rev t"
    "\<And>k x. map_of (kvs t) k = Some x \<Longrightarrow> map_of (kvs s1) k = Some x \<or> rev s1 < keRevision x"
    "\<And>k x. map_of (instances t) k = Some x \<Longrightarrow> map_of (instances s1) k = Some x \<or> rev s1 < ieRevision x"
    using Cons.IH [OF reach rest s1(2)] by blast+
  have "map_of (kvs s) k = Some x \<or> rev s < keRevision x" if "map_of (kvs t) k = Some x" for k x
    using IH(3) [OF that] spec_apply_kvs [of now e "abs_of s" k x] rev1 idx(1) abs [symmetric] by auto
  moreover have "map_of (instances s) k = Some x \<or> rev s < ieRevision x" if "map_of (instances t) k = Some x" for k x
    using IH(4) [OF that] spec_apply_insts [of now e "abs_of s" k x] rev1 idx(1) abs [symmetric] by auto
  ultimately show ?case using IH(1,2) rev1 by (simp del: split_paired_All)
qed

lemma entry_revisions:
  assumes "reachable s"
  shows "map_of (kvs s) k = Some x \<Longrightarrow> keRevision x \<le> rev s"
    and "map_of (instances s) i = Some y \<Longrightarrow> ieRevision y \<le> rev s"
proof -
  have "\<forall>k x. absKvs (abs_of s) k = Some x \<longrightarrow> 1 \<le> keVersion x \<and> keVersion x \<le> keRevision x \<and> keRevision x \<le> absRev (abs_of s)"
    "\<forall>k x. absInsts (abs_of s) k = Some x \<longrightarrow> 1 \<le> ieRevision x \<and> ieRevision x \<le> absRev (abs_of s)"
    using reachable_inv [OF assms] unfolding store_inv_def abs_inv_def maps_inv_def by blast+
  then show "map_of (kvs s) k = Some x \<Longrightarrow> keRevision x \<le> rev s"
    and "map_of (instances s) i = Some y \<Longrightarrow> ieRevision y \<le> rev s"
    unfolding abs_of_sel by blast+
qed

lemma gomap_single:
  assumes "gomap_ok m" and "map_of m = Map.empty(k \<mapsto> v)"
  shows "m = [(k, v)]"
proof -
  have "set m = {(k, v)}" using assms by (auto simp: gomap_set_iff split: if_splits)
  moreover from this have "length m = 1" using distinct_card [of m] assms(1) by (simp add: distinct_map)
  ultimately show ?thesis by (cases m) auto
qed

subsection \<open>Properties\<close>

definition kv_due :: "int64 \<Rightarrow> kvEntry \<Rightarrow> bool" where
  "kv_due now x \<longleftrightarrow> keExpireAtMs x \<noteq> 0 \<and> keExpireAtMs x \<le> now"

definition inst_due :: "int64 \<Rightarrow> instEntry \<Rightarrow> bool" where
  "inst_due now x \<longleftrightarrow> ieExpireAtMs x \<noteq> 0 \<and> ieExpireAtMs x \<le> now"

lemma scan_svc_guarded:
  assumes "gomap_ok (instances s)"
  shows "svc_guarded (expireService_items (ScanExpiredInstances now s)) m k \<longleftrightarrow>
    (\<exists>x x'. map_of (instances s) k = Some x \<and> inst_due now x \<and> m k = Some x' \<and> ieRevision x' = ieRevision x)"
  using assms
  by (cases k) (force simp: svc_guarded_def expireService_items_def ScanExpiredInstances_def inst_due_def
      gomap_set_iff [symmetric])

text \<open>C28: A sweep removes expired values only. Let the sweeper scan the leader's store at clock
  reading \<open>now\<close>, let any log entries be applied after the scan, and then the entry it proposes:
  a key goes away exactly if its value had expired at the scan and is still that very value. A
  value put meanwhile survives, whatever its key, version and expiry time.\<close>

theorem sweep_spares_live:
  assumes "reachable s" and "consecutive (rev s) es" and "\<forall>e\<in>set es. leIndex e < maxIndex \<and> leOp e \<noteq> None"
    and "length clks = length es" and "apply_all StoreApplier (zip clks es) s = Inr (t, rs)"
    and "rev t < index" and "index < maxIndex"
    and "length (ScanExpiredKVs now s) < 4096"
  shows "\<exists>t'. ApplyExpireKeys index (expire_items (ScanExpiredKVs now s)) t = Inr t' \<and> reachable t'
    \<and> (\<forall>k. map_of (kvs t') k =
         (if \<exists>x. map_of (kvs s) k = Some x \<and> kv_due now x \<and> map_of (kvs t) k = Some x
          then None else map_of (kvs t) k))"
proof -
  let ?items = "expire_items (ScanExpiredKVs now s)"
  let ?e = "\<lparr>leIndex = index, leTerm = 1, leOp = Some (LogEntry_ExpireKeys ?items)\<rparr>"
  have run: "reachable t" "rev s \<le> rev t"
    "\<And>k x. map_of (kvs t) k = Some x \<Longrightarrow> map_of (kvs s) k = Some x \<or> rev s < keRevision x"
    using run_fresh [OF assms(1-5)] by blast+
  have same: "x' = x" if "map_of (kvs s) k = Some x" "map_of (kvs t) k = Some x'" "keRevision x' = keRevision x" for k x x'
    using run(3) [OF that(2)]
  proof
    assume "map_of (kvs s) k = Some x'"
    with that(1) show ?thesis by (simp only: option.inject)
  next
    assume "rev s < keRevision x'"
    with entry_revisions(1) [OF assms(1) that(1)] that(3) show ?thesis by linarith
  qed
  have ok: "gomap_ok (kvs s)" using reachable_inv [OF assms(1)] by (simp add: store_inv_def tables_ok_def)
  have "store_fits ?e" using assms(7,8) by (simp add: store_fits_def expire_items_def subLimit_def)
  then have lim: "within_limit ?e t" using store_fits_within by blast
  from applyOne_store_inv [OF reachable_inv [OF run(1)] lim, of 0] assms(6,7) obtain t' where
    t': "applyOne StoreApplier 0 ?e t = Inr (t', snd (spec_apply 0 ?e (abs_of t)))"
      "abs_of t' = fst (spec_apply 0 ?e (abs_of t))" by auto
  obtain m evs where m: "spec_expire index ?items (map_of (kvs t)) = (m, evs)" by (metis surj_pair)
  have "map_of (kvs t') = m" using t'(2) abs_of_sel(1) [of t'] m by (simp add: spec_apply_def spec_emit_def)
  moreover have "m k = (if guarded ?items (map_of (kvs t)) k then None else map_of (kvs t) k)" for k
    using spec_expire_map [of index ?items "map_of (kvs t)" k] m by simp
  moreover have "guarded ?items (map_of (kvs t)) k \<longleftrightarrow>
      (\<exists>x. map_of (kvs s) k = Some x \<and> kv_due now x \<and> map_of (kvs t) k = Some x)" for k
    unfolding scan_guarded [OF ok] kv_due_def using same [of k] by metis
  moreover have "reachable t'" using reachable.apply_entry [OF run(1) _ _ t'(1)] assms(6,7) by simp
  moreover have "ApplyExpireKeys index ?items t = Inr t'"
    using t'(1) by (auto simp: applyOne_def StoreApplier_def go_bind_Inr_iff)
  ultimately show ?thesis by (intro exI [of _ t'] conjI allI) simp_all
qed

theorem sweep_spares_live_witness:
  "\<exists>t t'. apply_all StoreApplier (zip [1000] [create_entry 2 0]) store1 = Inr t
    \<and> ApplyExpireKeys 3 (expire_items (ScanExpiredKVs 1000 store1)) (fst t) = Inr t'
    \<and> map_of (kvs t') (''a'', ''k'') = map_of (kvs (fst t)) (''a'', ''k'') \<and> map_of (kvs t') (''a'', ''k'') \<noteq> None"
proof -
  have fit: "\<forall>e\<in>set [create_entry 2 0]. leIndex e < maxIndex \<and> leOp e \<noteq> None"
    by (simp add: create_entry_def maxIndex_def)
  have con: "consecutive (rev store1) [create_entry 2 0]" by (simp add: create_entry_def store1_facts)
  obtain t where t: "applyOne StoreApplier 1000 (create_entry 2 0) store1 = Inr (t, snd (spec_apply 1000 (create_entry 2 0) (abs_of store1)))"
    "abs_of t = fst (spec_apply 1000 (create_entry 2 0) (abs_of store1))"
    using applyOne_store_inv [OF reachable_inv [OF store1_facts(1)], of "create_entry 2 0" 1000]
    by (auto simp: within_limit_def create_entry_def maxIndex_def store1_facts)
  have "absRev (abs_of t) = 2" "absKvs (abs_of t) (''a'', ''k'') = Some (entry1\<lparr>keRevision := 2, keExpireAtMs := 0\<rparr>)"
    unfolding t(2)
    by (simp_all add: spec_apply_def create_entry_def spec_put_def Let_def live_def aliveKV_def cas_ok_def put_entry_def
        store1_facts entry1_def spec_emit_def add64_def wrap64_def)
  then have tk: "rev t = 2" "map_of (kvs t) (''a'', ''k'') = Some (entry1\<lparr>keRevision := 2, keExpireAtMs := 0\<rparr>)"
    by simp_all
  have one: "kvs store1 = [((''a'', ''k''), entry1)]"
    using reachable_inv [OF store1_facts(1)] store1_facts(4) by (intro gomap_single) (simp_all add: store_inv_def tables_ok_def)
  have "length (ScanExpiredKVs 1000 store1) < 4096" by (simp add: ScanExpiredKVs_def one entry1_def)
  from sweep_spares_live [OF store1_facts(1) con fit _ _ _ _ this, of "[1000]" t _ 3] t(1) tk show ?thesis
    by (force simp: maxIndex_def store1_facts entry1_def)
qed

text \<open>The same for leases: an instance is removed exactly if its lease had run out at the scan and
  the registration is still the scanned one. A heartbeat or a new registration in between keeps
  the instance.\<close>

theorem sweep_spares_renewed:
  assumes "reachable s" and "consecutive (rev s) es" and "\<forall>e\<in>set es. leIndex e < maxIndex \<and> leOp e \<noteq> None"
    and "length clks = length es" and "apply_all StoreApplier (zip clks es) s = Inr (t, rs)"
    and "rev t < index" and "index < maxIndex"
  shows "\<exists>t'. ApplyExpireServices index (expireService_items (ScanExpiredInstances now s)) t = Inr t' \<and> reachable t'
    \<and> (\<forall>k. map_of (instances t') k =
         (if \<exists>x. map_of (instances s) k = Some x \<and> inst_due now x \<and> map_of (instances t) k = Some x
          then None else map_of (instances t) k))
    \<and> map_of (kvs t') = map_of (kvs t)"
proof -
  let ?items = "expireService_items (ScanExpiredInstances now s)"
  let ?e = "\<lparr>leIndex = index, leTerm = 1, leOp = Some (LogEntry_ExpireServices ?items)\<rparr>"
  have run: "reachable t"
    "\<And>k x. map_of (instances t) k = Some x \<Longrightarrow> map_of (instances s) k = Some x \<or> rev s < ieRevision x"
    using run_fresh [OF assms(1-5)] by blast+
  have same: "x' = x" if "map_of (instances s) k = Some x" "map_of (instances t) k = Some x'" "ieRevision x' = ieRevision x"
    for k x x'
    using run(2) [OF that(2)]
  proof
    assume "map_of (instances s) k = Some x'"
    with that(1) show ?thesis by (simp only: option.inject)
  next
    assume "rev s < ieRevision x'"
    with entry_revisions(2) [OF assms(1) that(1)] that(3) show ?thesis by linarith
  qed
  have ok: "gomap_ok (instances s)" using reachable_inv [OF assms(1)] by (simp add: store_inv_def tables_ok_def)
  have lim: "within_limit ?e t" by (simp add: within_limit_def)
  from applyOne_store_inv [OF reachable_inv [OF run(1)] lim, of 0] assms(6,7) obtain t' where
    t': "applyOne StoreApplier 0 ?e t = Inr (t', snd (spec_apply 0 ?e (abs_of t)))"
      "abs_of t' = fst (spec_apply 0 ?e (abs_of t))" by auto
  have "absInsts (abs_of t') k = (if svc_guarded ?items (map_of (instances t)) k then None else map_of (instances t) k)"
    "absKvs (abs_of t') = map_of (kvs t)" for k
    unfolding t'(2) by (simp_all add: spec_apply_def Let_def)
  then have "map_of (instances t') k = (if svc_guarded ?items (map_of (instances t)) k then None else map_of (instances t) k)"
    "map_of (kvs t') = map_of (kvs t)" for k by simp_all
  moreover have "svc_guarded ?items (map_of (instances t)) k \<longleftrightarrow>
      (\<exists>x. map_of (instances s) k = Some x \<and> inst_due now x \<and> map_of (instances t) k = Some x)" for k
    unfolding scan_svc_guarded [OF ok] using same [of k] by metis
  moreover have "reachable t'" using reachable.apply_entry [OF run(1) _ _ t'(1)] assms(6,7) by simp
  moreover have "ApplyExpireServices index ?items t = Inr t'"
    using t'(1) by (auto simp: applyOne_def StoreApplier_def go_bind_Inr_iff)
  ultimately show ?thesis by (intro exI [of _ t'] conjI allI) simp_all
qed

theorem sweep_spares_renewed_witness:
  "\<exists>t'. ApplyExpireServices 2 (expireService_items (ScanExpiredInstances 1000 store2)) store2 = Inr t'
    \<and> map_of (instances t') (''a'', ''s'', ''i'') = None"
proof -
  have run: "apply_all StoreApplier (zip [] []) store2 = Inr (store2, [])" by simp
  from sweep_spares_renewed [OF store2_facts(1) _ _ _ run, of 2 1000] show ?thesis
    by (auto simp: store2_facts maxIndex_def inst_due_def register_entry_def register_op_def)
qed

lemma due_count:
  assumes "gomap_ok (kvs s)"
  shows "card {k. guarded (expire_items (ScanExpiredKVs now s)) (map_of (kvs s)) k} = length (ScanExpiredKVs now s)"
proof -
  let ?due = "filter (\<lambda>(k, e). keExpireAtMs e \<noteq> 0 \<and> keExpireAtMs e \<le> now) (kvs s)"
  have "{k. guarded (expire_items (ScanExpiredKVs now s)) (map_of (kvs s)) k} = set (map fst ?due)"
    unfolding scan_guarded [OF assms] using assms by (force simp: gomap_set_iff [symmetric])
  moreover have "distinct (map fst ?due)" using assms by (rule distinct_map_filter)
  ultimately show ?thesis using distinct_card [of "map fst ?due"] by (simp add: ScanExpiredKVs_def)
qed

text \<open>C29: The size of a sweep is not limited, but the number of events of one log entry is: the entry
  that the sweeper builds panics the store, hence every node that applies it, exactly if 4096
  or more values have expired at the scan.\<close>

theorem sweep_batch_panics_iff:
  assumes "reachable s" and "rev s < index" and "index < maxIndex"
  shows "applyOne StoreApplier clk \<lparr>leIndex = index, leTerm = 1,
      leOp = Some (LogEntry_ExpireKeys (expire_items (ScanExpiredKVs now s)))\<rparr> s = Inl PanicSubLimit
    \<longleftrightarrow> 4096 \<le> length (ScanExpiredKVs now s)"
proof -
  let ?items = "expire_items (ScanExpiredKVs now s)"
  let ?e = "\<lparr>leIndex = index, leTerm = 1, leOp = Some (LogEntry_ExpireKeys ?items)\<rparr>"
  have inv: "store_inv s" using assms(1) by (rule reachable_inv)
  then have ok: "gomap_ok (kvs s)" "tables_ok s" by (simp_all add: store_inv_def tables_ok_def)
  have lim: "within_limit ?e s \<longleftrightarrow> length (ScanExpiredKVs now s) < 4096"
    using spec_expire_length [of index ?items "map_of (kvs s)"] due_count [OF ok(1), of now]
    by (simp add: within_limit_def subLimit_def)
  show ?thesis
  proof (cases "within_limit ?e s")
    case True
    with applyOne_store_inv [OF inv True, of clk] assms(2,3) lim show ?thesis by auto
  next
    case False
    with applyOne_refines [OF ok(2), of ?e clk] lim show ?thesis by (simp add: not_less)
  qed
qed

text \<open>A store with \<open>n\<close> values that expire together: \<open>n\<close> puts with distinct keys.\<close>

definition many_put :: "nat \<Rightarrow> LogEntry" where
  "many_put n = \<lparr>leIndex = int n + 1, leTerm = 1, leOp = Some (LogEntry_Put
     \<lparr>poNamespace = ''a'', poKey = replicate n CHR ''x'', poValue = ''v'', poTtlMs = 1000, poExpireAtMs = 1000,
      poExpectedVersion = 0\<rparr>)\<rparr>"

lemma many_keys:
  "int n < maxIndex \<Longrightarrow> \<exists>s. reachable s \<and> rev s = int n
    \<and> dom (map_of (kvs s)) = (\<lambda>i. (''a'', replicate i CHR ''x'')) ` {..<n}
    \<and> (\<forall>e\<in>ran (map_of (kvs s)). keExpireAtMs e = 1000)"
proof (induction n)
  case 0
  show ?case by (rule exI [of _ New]) (simp add: reachable.init)
next
  case (Suc n)
  then obtain s where s: "reachable s" "rev s = int n"
    "dom (map_of (kvs s)) = (\<lambda>i. (''a'', replicate i CHR ''x'')) ` {..<n}"
    "\<forall>e\<in>ran (map_of (kvs s)). keExpireAtMs e = 1000" by auto
  have fresh: "map_of (kvs s) (''a'', replicate n CHR ''x'') = None"
  proof (rule ccontr)
    assume "map_of (kvs s) (''a'', replicate n CHR ''x'') \<noteq> None"
    then have "(''a'', replicate n CHR ''x'') \<in> (\<lambda>i. (''a'', replicate i CHR ''x'')) ` {..<n}"
      using s(3) by (metis domIff)
    then show False by (auto dest: arg_cong [where f = length])
  qed
  have "within_limit (many_put n) s" "rev s < leIndex (many_put n)" "leIndex (many_put n) < maxIndex"
    using Suc.prems s(2) by (simp_all add: within_limit_def many_put_def)
  from applyOne_store_inv [OF reachable_inv [OF s(1)] this, of 0] obtain t r where
    t: "applyOne StoreApplier 0 (many_put n) s = Inr (t, r)" "abs_of t = fst (spec_apply 0 (many_put n) (abs_of s))" by auto
  have "absRev (abs_of t) = int n + 1" "\<exists>e. absKvs (abs_of t) = (map_of (kvs s))((''a'', replicate n CHR ''x'') \<mapsto> e)
      \<and> keExpireAtMs e = 1000"
    unfolding t(2)
    by (auto simp: spec_apply_def many_put_def spec_put_def Let_def live_def fresh cas_ok_def put_entry_def spec_emit_def)
  then obtain e where e: "rev t = int n + 1" "map_of (kvs t) = (map_of (kvs s))((''a'', replicate n CHR ''x'') \<mapsto> e)"
    "keExpireAtMs e = 1000" by auto
  have "reachable t"
    using reachable.apply_entry [OF s(1) _ _ t(1)] Suc.prems s(2) by (simp add: many_put_def)
  moreover have "dom (map_of (kvs t)) = (\<lambda>i. (''a'', replicate i CHR ''x'')) ` {..<Suc n}"
    unfolding e(2) dom_fun_upd s(3) by (simp add: lessThan_Suc)
  moreover have "ran (map_of (kvs t)) = insert e (ran (map_of (kvs s)))"
    unfolding e(2) using fresh by (rule ran_map_upd)
  ultimately show ?case
    using e(1,3) s(4) by (intro exI [of _ t]) simp
qed

theorem sweep_batch_panics_iff_witness:
  "\<exists>s. reachable s \<and> rev s = 4096 \<and> applyOne StoreApplier 1000 \<lparr>leIndex = 4097, leTerm = 1,
      leOp = Some (LogEntry_ExpireKeys (expire_items (ScanExpiredKVs 1000 s)))\<rparr> s = Inl PanicSubLimit"
proof -
  obtain s where s: "reachable s" "rev s = 4096"
    "dom (map_of (kvs s)) = (\<lambda>i. (''a'', replicate i CHR ''x'')) ` {..<4096}"
    "\<forall>e\<in>ran (map_of (kvs s)). keExpireAtMs e = 1000"
    using many_keys [of 4096] by (auto simp: maxIndex_def)
  have ok: "gomap_ok (kvs s)" using reachable_inv [OF s(1)] by (simp add: store_inv_def tables_ok_def)
  have "\<forall>p\<in>set (kvs s). keExpireAtMs (snd p) = 1000"
    using s(4) ok by (metis gomap_set_iff prod.collapse ranI)
  then have "length (ScanExpiredKVs 1000 s) = length (kvs s)"
    by (simp add: ScanExpiredKVs_def split_def filter_True)
  also have "\<dots> = card (dom (map_of (kvs s)))"
    using distinct_card [of "map fst (kvs s)"] ok by (simp add: dom_map_of_conv_image_fst)
  also have "\<dots> = 4096"
    unfolding s(3) by (subst card_image) (auto simp: inj_on_def dest: arg_cong [where f = length])
  finally show ?thesis
    using sweep_batch_panics_iff [OF s(1), of 4097 1000 1000] s by (intro exI [of _ s]) (simp add: maxIndex_def)
qed

end
