(* ===== verification/GoStrings.thy ===== *)
theory GoStrings
  imports Prelude
begin

text \<open>
  The functions of the Go packages \<open>strings\<close> and \<open>strconv\<close> that distconf uses. A Go string is
  a sequence of bytes, here a list of characters. \<open>TrimSpace\<close> cuts the white space of ASCII;
  Go also cuts the multi-byte white space of Unicode, which none of the properties needs.
\<close>

subsection \<open>Searching\<close>

definition HasPrefix :: "string \<Rightarrow> string \<Rightarrow> bool" where
  "HasPrefix s p \<longleftrightarrow> take (length p) s = p"

text \<open>\<open>Index\<close>, \<open>IndexAny\<close> and \<open>LastIndex\<close> return -1 if there is no match. \<open>LastIndex\<close> is used with
  one character.\<close>

fun Index :: "string \<Rightarrow> string \<Rightarrow> int" where
  "Index [] p = (if p = [] then 0 else -1)"
| "Index (c # s) p = (if HasPrefix (c # s) p then 0
     else let i = Index s p in if i < 0 then -1 else i + 1)"

definition Contains :: "string \<Rightarrow> string \<Rightarrow> bool" where
  "Contains s p \<longleftrightarrow> Index s p \<ge> 0"

fun IndexAny :: "string \<Rightarrow> string \<Rightarrow> int" where
  "IndexAny [] chars = -1"
| "IndexAny (c # s) chars = (if c \<in> set chars then 0
     else let i = IndexAny s chars in if i < 0 then -1 else i + 1)"

fun LastIndexOf :: "string \<Rightarrow> char \<Rightarrow> int" where
  "LastIndexOf [] d = -1"
| "LastIndexOf (c # s) d = (let i = LastIndexOf s d in if i \<ge> 0 then i + 1 else if c = d then 0 else -1)"

lemma Index_lower: "- 1 \<le> Index s p"
  by (induction s) (auto simp: Let_def)

lemma Index_append:
  assumes "\<forall>k<length s. \<not> HasPrefix (drop k (s @ p @ t)) p"
  shows "Index (s @ p @ t) p = int (length s)"
  using assms
proof (induction s)
  case Nil
  have "HasPrefix (p @ t) p" by (simp add: HasPrefix_def)
  then show ?case by (cases "p @ t") auto
next
  case (Cons c s)
  have "\<not> HasPrefix (drop k (s @ p @ t)) p" if "k < length s" for k
    using Cons.prems [rule_format, of "Suc k"] that by simp
  moreover have "\<not> HasPrefix (c # s @ p @ t) p" using Cons.prems [rule_format, of 0] by simp
  ultimately show ?case using Cons.IH by (simp add: Let_def)
qed

lemma IndexAny_none: "IndexAny s chars < 0 \<longleftrightarrow> set s \<inter> set chars = {}"
proof (induction s)
  case (Cons c s)
  then show ?case by (auto simp: Let_def)
qed simp

lemma IndexAny_append:
  "set s \<inter> set chars = {} \<Longrightarrow> c \<in> set chars \<Longrightarrow> IndexAny (s @ c # t) chars = int (length s)"
  by (induction s) (auto simp: Let_def)

subsection \<open>Splitting and trimming\<close>

text \<open>\<open>Split\<close> with a separator of one character, and \<open>SplitN\<close> with at most two parts.\<close>

fun Split :: "string \<Rightarrow> char \<Rightarrow> string list" where
  "Split [] d = [[]]"
| "Split (c # s) d = (if c = d then [] # Split s d
     else case Split s d of [] \<Rightarrow> [[c]] | w # ws \<Rightarrow> (c # w) # ws)"

definition SplitN2 :: "string \<Rightarrow> char \<Rightarrow> string list" where
  "SplitN2 s d = (if d \<in> set s then [takeWhile (\<lambda>c. c \<noteq> d) s, tl (dropWhile (\<lambda>c. c \<noteq> d) s)] else [s])"

definition is_space :: "char \<Rightarrow> bool" where
  "is_space c \<longleftrightarrow> c \<in> {CHR 0x09, CHR 0x0A, CHR 0x0B, CHR 0x0C, CHR 0x0D, CHR 0x20}"

definition TrimSpace :: "string \<Rightarrow> string" where
  "TrimSpace s = List.rev (dropWhile is_space (List.rev (dropWhile is_space s)))"

lemma Split_not_Nil [simp]: "Split s d \<noteq> []"
  by (induction s) (auto split: list.splits)

lemma Split_word: "d \<notin> set w \<Longrightarrow> Split w d = [w]"
  by (induction w) auto

lemma Split_append: "d \<notin> set w \<Longrightarrow> Split (w @ d # s) d = w # Split s d"
  by (induction w) auto

lemma TrimSpace_id:
  assumes "s \<noteq> []" and "\<not> is_space (List.hd s)" and "\<not> is_space (last s)"
  shows "TrimSpace s = s"
proof -
  have "dropWhile is_space s = s" using assms(1,2) by (cases s) auto
  moreover have "dropWhile is_space (List.rev s) = List.rev s"
    using assms(1,3) by (cases "List.rev s") (auto simp: last_rev [symmetric] hd_rev)
  ultimately show ?thesis by (simp add: TrimSpace_def)
qed

lemma TrimSpace_clean: "\<forall>c\<in>set s. \<not> is_space c \<Longrightarrow> TrimSpace s = s"
  by (cases "s = []") (simp_all add: TrimSpace_def [of "[]"] TrimSpace_id)

subsection \<open>Numbers\<close>

definition digit_of :: "char \<Rightarrow> int option" where
  "digit_of c = (let n = of_char c :: int in if 48 \<le> n \<and> n \<le> 57 then Some (n - 48) else None)"

fun digits :: "int \<Rightarrow> string \<Rightarrow> int option" where
  "digits acc [] = Some acc"
| "digits acc (c # s) = (case digit_of c of None \<Rightarrow> None | Some d \<Rightarrow> digits (10 * acc + d) s)"

text \<open>\<open>strconv.Atoi\<close>: an optional sign, at least one digit, the value of 64 bits.\<close>

definition Atoi :: "string \<Rightarrow> int64 option" where
  "Atoi s =
    (let (neg, ds) = (case s of c # r \<Rightarrow> if c = CHR ''-'' then (True, r) else if c = CHR ''+'' then (False, r) else (False, s)
                      | [] \<Rightarrow> (False, s))
     in if ds = [] then None
        else case digits 0 ds of None \<Rightarrow> None
             | Some n \<Rightarrow> let v = (if neg then - n else n) in if is_int64 v then Some v else None)"

text \<open>The decimal notation of \<open>fmt\<close> for integers.\<close>

definition digit_char :: "int \<Rightarrow> char" where
  "digit_char d = char_of (48 + d)"

function dec_pos :: "int \<Rightarrow> string" where
  "dec_pos n = (if n < 10 then [digit_char n] else dec_pos (n div 10) @ [digit_char (n mod 10)])"
  by auto

termination
  by (relation "measure nat") auto

declare dec_pos.simps [simp del]

definition dec :: "int \<Rightarrow> string" where
  "dec n = (if n < 0 then CHR ''-'' # dec_pos (- n) else dec_pos n)"

lemma digit_of_char: "0 \<le> d \<Longrightarrow> d < 10 \<Longrightarrow> digit_of (digit_char d) = Some d"
  by (simp add: digit_of_def digit_char_def Let_def)

lemma digits_append: "digits acc (s @ t) = (case digits acc s of None \<Rightarrow> None | Some n \<Rightarrow> digits n t)"
  by (induction acc s rule: digits.induct) (auto split: option.splits)

lemma digits_dec_pos: "0 \<le> n \<Longrightarrow> digits 0 (dec_pos n) = Some n"
proof (induction n rule: dec_pos.induct)
  case (1 n)
  show ?case
  proof (cases "n < 10")
    case True
    with "1.prems" show ?thesis by (subst dec_pos.simps) (simp add: digit_of_char)
  next
    case False
    then have "digits 0 (dec_pos (n div 10)) = Some (n div 10)" using 1 by simp
    with False show ?thesis by (subst dec_pos.simps) (simp add: digits_append digit_of_char)
  qed
qed

lemma dec_pos_chars: "0 \<le> n \<Longrightarrow> dec_pos n \<noteq> [] \<and> (\<forall>c\<in>set (dec_pos n). \<exists>d. 0 \<le> d \<and> d < 10 \<and> c = digit_char d)"
proof (induction n rule: dec_pos.induct)
  case (1 n)
  show ?case
  proof (cases "n < 10")
    case True
    with "1.prems" show ?thesis by (subst (1 2) dec_pos.simps) auto
  next
    case False
    have "\<exists>d. 0 \<le> d \<and> d < 10 \<and> digit_char (n mod 10) = digit_char d"
      by (rule exI [of _ "n mod 10"]) simp
    with False 1 show ?thesis by (subst (1 2) dec_pos.simps) auto
  qed
qed

lemma digit_char_plain:
  assumes "0 \<le> d" and "d < 10"
  shows "\<not> is_space (digit_char d)" "digit_char d \<noteq> CHR ''-''" "digit_char d \<noteq> CHR ''+''"
    "digit_char d \<noteq> CHR '',''" "digit_char d \<noteq> CHR ''=''"
proof -
  have code: "of_char (digit_char d) = (48 + d :: int)" using assms by (simp add: digit_char_def)
  have "digit_char d \<noteq> c" if "(of_char c :: int) \<noteq> 48 + d" for c using code that by metis
  then show "\<not> is_space (digit_char d)" "digit_char d \<noteq> CHR ''-''" "digit_char d \<noteq> CHR ''+''"
    "digit_char d \<noteq> CHR '',''" "digit_char d \<noteq> CHR ''=''"
    using assms by (simp_all add: is_space_def)
qed

lemma dec_pos_plain: "0 \<le> n \<Longrightarrow> c \<in> set (dec_pos n) \<Longrightarrow>
    \<not> is_space c \<and> c \<noteq> CHR ''-'' \<and> c \<noteq> CHR ''+'' \<and> c \<noteq> CHR '','' \<and> c \<noteq> CHR ''=''"
proof -
  assume "0 \<le> n" and "c \<in> set (dec_pos n)"
  with dec_pos_chars [of n] obtain d where "0 \<le> d" "d < 10" "c = digit_char d" by auto
  with digit_char_plain [of d] show ?thesis by simp
qed

lemma dec_plain: "c \<in> set (dec n) \<Longrightarrow> \<not> is_space c \<and> c \<noteq> CHR '','' \<and> c \<noteq> CHR ''=''"
  using dec_pos_plain [of n c] dec_pos_plain [of "- n" c]
  by (auto simp: dec_def is_space_def split: if_splits)

lemma dec_not_Nil [simp]: "dec n \<noteq> []"
  using dec_pos_chars [of n] by (simp add: dec_def)

lemma Atoi_dec:
  assumes "is_int64 n"
  shows "Atoi (dec n) = Some n"
proof (cases "n < 0")
  case True
  with assms dec_pos_chars [of "- n"] digits_dec_pos [of "- n"] show ?thesis
    by (simp add: dec_def Atoi_def)
next
  case False
  then obtain c s where cs: "dec_pos n = c # s" using dec_pos_chars [of n] by (cases "dec_pos n") auto
  with False dec_pos_plain [of n c] have "c \<noteq> CHR ''-''" "c \<noteq> CHR ''+''" by auto
  with False cs assms digits_dec_pos [of n] show ?thesis
    by (simp add: dec_def Atoi_def)
qed

end
