(* ===== verification/Status.thy ===== *)
theory Status
  imports GoStrings Leader
begin

text \<open>
  Errors on their way from the state machine to the user: the gRPC status a handler returns
  (\<open>internal/server/errors.go\<close>, \<open>cluster.go\<close>), the token that guards the replication stream
  (\<open>auth.go\<close>, \<open>creds.go\<close>), and what the client library makes of a status
  (\<open>client/errors.go\<close>, \<open>isRetryableTransport\<close> of \<open>client.go\<close>).
\<close>

subsection \<open>Status codes\<close>

text \<open>The codes of \<open>google.golang.org/grpc/codes\<close>.\<close>

datatype code =
    CodeOK | CodeCanceled | CodeUnknown | CodeInvalidArgument | CodeDeadlineExceeded | CodeNotFound
  | CodeAlreadyExists | CodePermissionDenied | CodeResourceExhausted | CodeFailedPrecondition
  | CodeAborted | CodeOutOfRange | CodeUnimplemented | CodeInternal | CodeUnavailable | CodeDataLoss
  | CodeUnauthenticated

text \<open>An error a handler returns: a status with its message, or a plain Go error.\<close>

datatype srv_error = StatusErr code string | RawErr go_error

definition store_text :: "store_error \<Rightarrow> string" where
  "store_text e = (case e of
     ErrCASConflict \<Rightarrow> ''cas conflict: expected version does not match current version''
   | ErrInstanceNotFound \<Rightarrow> ''service instance not found (lease expired?)''
   | ErrRevisionCompacted \<Rightarrow> ''requested revision has been compacted; resync required'')"

definition error_text :: "go_error \<Rightarrow> string" where
  "error_text e = (case e of
     ErrStore x \<Rightarrow> store_text x
   | ErrNoQuorum \<Rightarrow> ''replication failed: no quorum available''
   | ErrNotLeader \<Rightarrow> ''not the leader''
   | ErrCtx DeadlineExceeded \<Rightarrow> ''context deadline exceeded''
   | ErrCtx Canceled \<Rightarrow> ''context canceled''
   | ErrOther s \<Rightarrow> s)"

definition toGRPCError :: "go_error \<Rightarrow> srv_error" where
  "toGRPCError e = (case e of
     ErrStore ErrCASConflict \<Rightarrow> StatusErr CodeAborted (error_text e)
   | ErrStore ErrInstanceNotFound \<Rightarrow> StatusErr CodeNotFound (error_text e)
   | ErrStore ErrRevisionCompacted \<Rightarrow> StatusErr CodeOutOfRange (error_text e)
   | ErrNotLeader \<Rightarrow> StatusErr CodeFailedPrecondition (error_text e)
   | ErrNoQuorum \<Rightarrow> StatusErr CodeUnavailable (error_text e)
   | ErrCtx DeadlineExceeded \<Rightarrow> StatusErr CodeUnavailable (error_text e)
   | ErrCtx Canceled \<Rightarrow> StatusErr CodeCanceled (error_text e)
   | ErrOther s \<Rightarrow> StatusErr CodeInternal (error_text e))"

definition withLeaderHint :: "go_error \<Rightarrow> string \<Rightarrow> srv_error" where
  "withLeaderHint err addr =
    (if addr = [] then toGRPCError err
     else case toGRPCError err of
       StatusErr c m \<Rightarrow> StatusErr c (m @ ''; leader_hint='' @ addr)
     | RawErr e \<Rightarrow> toGRPCError err)"

definition unknownFollower :: "int32 \<Rightarrow> srv_error" where
  "unknownFollower i = StatusErr CodePermissionDenied (''unknown or self follower id: '' @ dec i)"

subsection \<open>The token of the replication stream\<close>

definition replTokenKey :: string where "replTokenKey = ''x-distconf-repl-token''"

definition replMethod :: string where
  "replMethod = ''/distconf.v1.ReplicationService/AppendEntries''"

text \<open>The metadata of a call: values by (lower case) key. None: the context carries none.\<close>

type_synonym metadata = "(string, string list) gomap option"

definition checkToken :: "metadata \<Rightarrow> string \<Rightarrow> srv_error option" where
  "checkToken md want = (case md of
     None \<Rightarrow> Some (StatusErr CodeUnauthenticated ''missing replication token'')
   | Some m \<Rightarrow>
       (let vals = (case map_of m replTokenKey of None \<Rightarrow> [] | Some vs \<Rightarrow> vs)
        in if vals = [] \<or> List.hd vals \<noteq> want
           then Some (StatusErr CodeUnauthenticated ''invalid replication token'') else None))"

definition replTokenInterceptor :: "string \<Rightarrow> string \<Rightarrow> metadata \<Rightarrow> (srv_error + 'r) \<Rightarrow> srv_error + 'r" where
  "replTokenInterceptor token fullMethod md handled =
    (if token \<noteq> [] \<and> fullMethod = replMethod
     then case checkToken md token of Some err \<Rightarrow> Inl err | None \<Rightarrow> handled
     else handled)"

definition streamReplTokenInterceptor :: "string \<Rightarrow> string \<Rightarrow> metadata \<Rightarrow> srv_error option \<Rightarrow> srv_error option" where
  "streamReplTokenInterceptor token fullMethod md handled =
    (if token \<noteq> [] \<and> fullMethod = replMethod
     then case checkToken md token of Some err \<Rightarrow> Some err | None \<Rightarrow> handled
     else handled)"

definition GetRequestMetadata :: "string \<Rightarrow> (string, string) gomap" where
  "GetRequestMetadata token = (if token = [] then [] else [(replTokenKey, token)])"

text \<open>Per-RPC credentials reach the server as metadata with one value each.\<close>

definition credential_metadata :: "(string, string) gomap \<Rightarrow> metadata" where
  "credential_metadata m = Some (map (\<lambda>(k, v). (k, [v])) m)"

subsection \<open>Errors in the client library\<close>

text \<open>A status received, a context error, any other error (of the dialer, or the end of a stream),
  or one of the errors the library defines.\<close>

datatype cli_error =
    CStatus code string
  | CCtx ctx_err
  | CPlain string
  | CErrCASConflict
  | CErrInstanceGone
  | CErrHistoryCompacted
  | CErrNoQuorum
  | CErrNotLeader
  | CErrNoEndpoints

definition mapStatus :: "cli_error \<Rightarrow> cli_error" where
  "mapStatus err = (case err of
     CStatus c m \<Rightarrow> (case c of
         CodeAborted \<Rightarrow> CErrCASConflict
       | CodeNotFound \<Rightarrow> CErrInstanceGone
       | CodeOutOfRange \<Rightarrow> CErrHistoryCompacted
       | CodeUnavailable \<Rightarrow> if Contains m ''no quorum'' then CErrNoQuorum else err
       | CodeFailedPrecondition \<Rightarrow> CErrNotLeader
       | _ \<Rightarrow> err)
   | _ \<Rightarrow> err)"

definition parseLeaderHint :: "cli_error \<Rightarrow> string" where
  "parseLeaderHint err = (case err of
     CStatus c msg \<Rightarrow>
       (let key = ''leader_hint=''; i = Index msg key
        in if i \<ge> 0
           then let rest = drop (nat i + length key) msg; j = IndexAny rest '';, ''
                in if j \<ge> 0 then take (nat j) rest else rest
           else [])
   | _ \<Rightarrow> [])"

definition isRetryableTransport :: "cli_error \<Rightarrow> bool" where
  "isRetryableTransport err = (case err of
     CStatus c m \<Rightarrow> c = CodeUnavailable
   | CCtx x \<Rightarrow> True
   | _ \<Rightarrow> False)"

text \<open>gRPC carries a status unchanged; a plain error of a handler arrives with code Unknown.\<close>

definition received_error :: "srv_error \<Rightarrow> cli_error" where
  "received_error e = (case e of StatusErr c m \<Rightarrow> CStatus c m | RawErr x \<Rightarrow> CStatus CodeUnknown (error_text x))"

lemma mapStatus_NotLeader_iff:
  "mapStatus err = CErrNotLeader \<longleftrightarrow> err = CErrNotLeader \<or> (\<exists>m. err = CStatus CodeFailedPrecondition m)"
  by (auto simp: mapStatus_def split: cli_error.splits code.splits)

lemma cut_takeWhile:
  "(if IndexAny s seps \<ge> 0 then take (nat (IndexAny s seps)) s else s) = takeWhile (\<lambda>x. x \<notin> set seps) s"
proof (induction s)
  case (Cons c s)
  then show ?case by (auto simp: Let_def nat_add_distrib split: if_splits)
qed simp

lemma parse_hint:
  assumes "Index (text @ ''; leader_hint='' @ addr) ''leader_hint='' = int (length text) + 2"
  shows "parseLeaderHint (CStatus c (text @ ''; leader_hint='' @ addr)) = takeWhile (\<lambda>x. x \<notin> set '';, '') addr"
proof -
  have "nat (int (length text) + 2) + length ''leader_hint='' = length text + 14" by simp
  then have "drop (nat (int (length text) + 2) + length ''leader_hint='') (text @ ''; leader_hint='' @ addr) = addr"
    by simp
  with assms show ?thesis
    unfolding parseLeaderHint_def cli_error.case Let_def cut_takeWhile by simp
qed

lemma hint_roundtrip:
  assumes "\<forall>s. err \<noteq> ErrOther s"
  shows "parseLeaderHint (received_error (withLeaderHint err addr)) = takeWhile (\<lambda>x. x \<notin> set '';, '') addr"
proof (cases "addr = []")
  case True
  with assms show ?thesis
    by (cases err) (auto simp: withLeaderHint_def toGRPCError_def received_error_def error_text_def store_text_def
        parseLeaderHint_def HasPrefix_def Let_def split: store_error.splits ctx_err.splits)
next
  case False
  have hint: "Index (error_text err @ ''; leader_hint='' @ addr) ''leader_hint='' = int (length (error_text err)) + 2"
    using assms
    by (cases err) (auto simp: error_text_def store_text_def HasPrefix_def Let_def split: store_error.splits ctx_err.splits)
  have "\<exists>c. toGRPCError err = StatusErr c (error_text err)"
    by (simp add: toGRPCError_def split: go_error.split store_error.split ctx_err.split)
  then obtain c where "toGRPCError err = StatusErr c (error_text err)" by blast
  with False parse_hint [OF hint] show ?thesis
    by (simp add: withLeaderHint_def received_error_def)
qed

subsection \<open>Properties\<close>

text \<open>The leader hint gets through. Whatever the error a node rejects a write with, the client
  library reads back the address that the server put into the status message, up to the first
  separator; without a hint it reads the empty string.\<close>

theorem leader_hint_roundtrip:
  assumes "\<forall>s. err \<noteq> ErrOther s"
  shows "parseLeaderHint (received_error (withLeaderHint err addr)) = takeWhile (\<lambda>x. x \<notin> set '';, '') addr"
  by (rule hint_roundtrip [OF assms])

theorem leader_hint_roundtrip_witness:
  "parseLeaderHint (received_error (withLeaderHint ErrNotLeader ''node1:9000'')) = ''node1:9000''"
  using leader_hint_roundtrip [of ErrNotLeader "''node1:9000''"] by simp

text \<open>What a failed write looks like to the user of the client library. Each error of the state
  machine and of the replicator has its own client error, with or without a leader hint, and
  exactly the two errors that say "not committed yet" (no quorum, deadline) are retried as
  transport errors.\<close>

theorem client_error_classes:
  assumes "e = received_error (withLeaderHint err addr)"
  shows "(isRetryableTransport e \<longleftrightarrow> err = ErrNoQuorum \<or> err = ErrCtx DeadlineExceeded)
    \<and> mapStatus e = (case err of
        ErrStore ErrCASConflict \<Rightarrow> CErrCASConflict
      | ErrStore ErrInstanceNotFound \<Rightarrow> CErrInstanceGone
      | ErrStore ErrRevisionCompacted \<Rightarrow> CErrHistoryCompacted
      | ErrNotLeader \<Rightarrow> CErrNotLeader
      | ErrNoQuorum \<Rightarrow> CErrNoQuorum
      | ErrCtx DeadlineExceeded \<Rightarrow>
          if Contains (error_text err @ (if addr = [] then [] else ''; leader_hint='' @ addr)) ''no quorum''
          then CErrNoQuorum else e
      | _ \<Rightarrow> e)"
proof -
  let ?c = "case err of ErrStore ErrCASConflict \<Rightarrow> CodeAborted | ErrStore ErrInstanceNotFound \<Rightarrow> CodeNotFound
    | ErrStore ErrRevisionCompacted \<Rightarrow> CodeOutOfRange | ErrNotLeader \<Rightarrow> CodeFailedPrecondition
    | ErrNoQuorum \<Rightarrow> CodeUnavailable | ErrCtx DeadlineExceeded \<Rightarrow> CodeUnavailable
    | ErrCtx Canceled \<Rightarrow> CodeCanceled | ErrOther s \<Rightarrow> CodeInternal"
  have code: "toGRPCError err = StatusErr ?c (error_text err)"
    by (simp add: toGRPCError_def split: go_error.split store_error.split ctx_err.split)
  have e: "e = CStatus ?c (error_text err @ (if addr = [] then [] else ''; leader_hint='' @ addr))"
    unfolding assms withLeaderHint_def code received_error_def by simp
  have quorum: "Contains (error_text ErrNoQuorum @ t) ''no quorum''" for t
    by (simp add: error_text_def Contains_def HasPrefix_def)
  from quorum quorum [of "[]"] show ?thesis
    unfolding e mapStatus_def isRetryableTransport_def cli_error.case
    by (auto split: go_error.split store_error.split ctx_err.split simp del: append.simps)
qed

theorem client_error_classes_witness:
  "mapStatus (received_error (withLeaderHint ErrNotLeader ''n1:9000'')) = CErrNotLeader
    \<and> \<not> isRetryableTransport (received_error (withLeaderHint (ErrStore ErrCASConflict) []))"
  using client_error_classes [OF refl, of ErrNotLeader "''n1:9000''"]
    client_error_classes [OF refl, of "ErrStore ErrCASConflict" "[]"] by simp

text \<open>The token guards the replication stream and nothing else. With a token configured, the
  stream is opened exactly if the first value of the metadata key is the token, which is what a
  follower with the same token sends; other methods, and a node without a token, are not checked.\<close>

theorem replication_token_guard:
  "streamReplTokenInterceptor token m md handled =
    (if token \<noteq> [] \<and> m = replMethod \<and> \<not> (\<exists>md' vs. md = Some md' \<and> map_of md' replTokenKey = Some (token # vs))
     then Some (StatusErr CodeUnauthenticated (if md = None then ''missing replication token'' else ''invalid replication token''))
     else handled)
   \<and> streamReplTokenInterceptor token replMethod (credential_metadata (GetRequestMetadata token)) handled = handled"
proof -
  have "checkToken md token = (if \<exists>md' vs. md = Some md' \<and> map_of md' replTokenKey = Some (token # vs) then None
     else Some (StatusErr CodeUnauthenticated (if md = None then ''missing replication token'' else ''invalid replication token'')))"
    by (auto simp: checkToken_def Let_def neq_Nil_conv split: option.splits)
  moreover have "checkToken (credential_metadata (GetRequestMetadata token)) token = None" if "token \<noteq> []"
    using that by (simp add: checkToken_def credential_metadata_def GetRequestMetadata_def)
  ultimately show ?thesis
    by (cases "token = [] \<or> m \<noteq> replMethod") (auto simp: streamReplTokenInterceptor_def)
qed

end
