(* ===== verification/Server.thy ===== *)
theory Server
  imports Status Sweeper
begin

text \<open>
  A node of the cluster (\<open>internal/server\<close>): assembly and life cycle (\<open>node.go\<close>) and the unary
  handlers of the gRPC services (\<open>kv.go\<close>, \<open>registry.go\<close>, \<open>cluster.go\<close>). The streaming handlers are
  in \<open>WatchServe\<close>.

  A write handler runs over a world \<open>'w\<close> (see \<open>Sweeper\<close>): \<open>pr\<close> is the blocking call of
  \<open>Leader.Propose\<close>, \<open>view\<close> reads the store of the node. \<open>now\<close> is the reading of \<open>time.Now()\<close>,
  \<open>clk\<close> the clock of the store.
\<close>

subsection \<open>Configuration and state\<close>

text \<open>\<open>ncListener\<close>: the address of a listener that is handed in, if there is one.\<close>

record NodeConfig =
  ncNodeID :: int32
  ncListenAddr :: string
  ncAdvertiseAddr :: string
  ncLeaderID :: int32
  ncPeers :: "(int32, string) gomap"
  ncSweepInterval :: int64
  ncToken :: string
  ncListener :: "string option"

text \<open>The store of a leader is the state of its replicator; \<open>svStore\<close> is the one of a follower. The
  map of lazy connections stays empty and is left out, as is the logger. \<open>svServices\<close> are the
  services the gRPC server has, None before it is created, \<open>svGuard\<close> the token its interceptors
  check. \<open>svOpenStreams\<close> counts the streams whose handler waits for its client: watches, and
  replication streams before their first message.\<close>

record ServerNode =
  svCfg :: NodeConfig
  svStore :: Store
  svIsLeader :: bool
  svLeader :: "Store Leader option"
  svPeers :: "PeerManager option"
  svSweeper :: "Sweeper option"
  svFollower :: "FollowerRunner option"
  svDialToken :: "string option"
  svServices :: "string list option"
  svGuard :: "string option"
  svServing :: bool
  svOpenStreams :: nat
  svCommitLoops :: nat
  svListener :: "string option"
  svCancelled :: "bool option"
  svFollowing :: bool
  svStopOnce :: bool

definition peer_addr :: "NodeConfig \<Rightarrow> int32 \<Rightarrow> string" where
  "peer_addr cfg i = (case map_of (ncPeers cfg) i of None \<Rightarrow> [] | Some a \<Rightarrow> a)"

definition repl_config :: "NodeConfig \<Rightarrow> Config" where
  "repl_config cfg = \<lparr>cfgNodeID = ncNodeID cfg, cfgLeaderID = ncLeaderID cfg,
     cfgNodeAddrs = ncPeers cfg, cfgBatchWindow = 0\<rparr>"

text \<open>Of the dial options only the token of the per-RPC credentials varies.\<close>

definition internalDialOpts :: "NodeConfig \<Rightarrow> string option" where
  "internalDialOpts cfg = (if ncToken cfg \<noteq> [] then Some (ncToken cfg) else None)"

definition NewNode :: "NodeConfig \<Rightarrow> ServerNode" where
  "NewNode cfg =
    (let isLeader = (ncNodeID cfg = ncLeaderID cfg);
         n = \<lparr>svCfg = cfg, svStore = New, svIsLeader = isLeader, svLeader = None, svPeers = None,
              svSweeper = None, svFollower = None, svDialToken = None, svServices = None,
              svGuard = None, svServing = False, svOpenStreams = 0, svCommitLoops = 0, svListener = None,
              svCancelled = None, svFollowing = False, svStopOnce = False\<rparr>
     in if isLeader
        then n\<lparr>svLeader := Some (nodeLeader (repl_config cfg)), svPeers := Some NewPeerManager,
               svSweeper := Some (NewSweeper (ncSweepInterval cfg))\<rparr>
        else n\<lparr>svFollower := Some (NewFollowerRunner (ncNodeID cfg) (peer_addr cfg (ncLeaderID cfg))),
               svDialToken := internalDialOpts cfg\<rparr>)"

definition NodeStore :: "ServerNode \<Rightarrow> Store" where
  "NodeStore n = (case svLeader n of Some l \<Rightarrow> ldState l | None \<Rightarrow> svStore n)"

definition Addr :: "ServerNode \<Rightarrow> string" where
  "Addr n = (case svListener n of None \<Rightarrow> [] | Some a \<Rightarrow> a)"

text \<open>\<open>listen\<close> is the result of \<open>net.Listen\<close>: an error or the address.\<close>

definition StartNode :: "string + string \<Rightarrow> ServerNode \<Rightarrow> ServerNode \<times> string option" where
  "StartNode listen n =
    (let n1 = n\<lparr>svCancelled := Some False\<rparr>
     in case (case ncListener (svCfg n) of Some a \<Rightarrow> Inr a | None \<Rightarrow> listen) of
          Inl err \<Rightarrow> (n1, Some err)
        | Inr a \<Rightarrow>
            let n2 = n1\<lparr>svListener := Some a,
                  svGuard := (if ncToken (svCfg n) \<noteq> [] then Some (ncToken (svCfg n)) else None),
                  svServices := Some [''KVService'', ''RegistryService'', ''ClusterService'']\<rparr>;
                n3 = (if svIsLeader n2
                  then n2\<lparr>svServices := map_option (\<lambda>s. s @ [''ReplicationService'']) (svServices n2),
                          svCommitLoops := svCommitLoops n2 + 1,
                          svSweeper := map_option StartSweeper (svSweeper n2)\<rparr>
                  else n2\<lparr>svFollowing := True\<rparr>)
            in (n3\<lparr>svServing := True\<rparr>, None))"

text \<open>\<open>Stop\<close>. The boolean says whether the call returns: it waits for the loop of the sweeper, which
  ends only if one was started (the loop then closes \<open>doneCh\<close>), and \<open>GracefulStop\<close> waits for the
  handlers of all open streams. The streams the follower runner and the push goroutines serve end
  by the cancelled context and \<open>StopChan\<close>.\<close>

definition sweeper_joined :: "Sweeper \<Rightarrow> Sweeper \<times> bool" where
  "sweeper_joined sw = (let (sw1, ready) = StopSweeper sw
     in if ready then (sw1, True)
        else if swLoops sw1 > 0 then (sw1\<lparr>swDoneClosed := True, swLoops := swLoops sw1 - 1\<rparr>, True)
        else (sw1, False))"

definition StopNode :: "ServerNode \<Rightarrow> (ServerNode \<times> bool) go" where
  "StopNode n =
    (if svStopOnce n then Inr (n, True)
     else let n1 = n\<lparr>svCancelled := map_option (\<lambda>_. True) (svCancelled n)\<rparr>;
              (n2, joined) =
                (if svIsLeader n1
                 then case svSweeper n1 of None \<Rightarrow> (n1, True)
                   | Some sw \<Rightarrow> let (sw', ok) = sweeper_joined sw in (n1\<lparr>svSweeper := Some sw'\<rparr>, ok)
                 else (n1, True))
          in if \<not> joined then Inr (n2, False)
             else go_bind (case (svIsLeader n2, svLeader n2) of
                   (True, Some l) \<Rightarrow> go_bind (Stop l) (\<lambda>l'. Inr (n2\<lparr>svLeader := Some l'\<rparr>))
                 | _ \<Rightarrow> Inr n2)
               (\<lambda>n3. if svServices n3 \<noteq> None \<and> svOpenStreams n3 > 0 then Inr (n3, False)
                     else Inr (n3\<lparr>svServing := False, svFollowing := False, svCommitLoops := 0,
                                  svStopOnce := True\<rparr>, True)))"

subsection \<open>Read handlers\<close>

definition Node_Get :: "ServerNode \<Rightarrow> int64 \<Rightarrow> GetRequest \<Rightarrow> GetResponse" where
  "Node_Get n clk req =
    (let kv = Get clk (grNamespace req) (grKey req) (NodeStore n);
         resp = \<lparr>gsFound = (kv \<noteq> None), gsKv = None, gsAppliedRevision = AppliedRevision (NodeStore n),
                 gsLeaderId = ncLeaderID (svCfg n)\<rparr>
     in if kv \<noteq> None then resp\<lparr>gsKv := kv\<rparr> else resp)"

definition Node_Discover :: "ServerNode \<Rightarrow> (svcKey \<Rightarrow> int64) \<Rightarrow> DiscoverRequest \<Rightarrow> DiscoverResponse" where
  "Node_Discover n clk req =
    \<lparr>dpInstances = Discover clk (diNamespace req) (diService req) (NodeStore n), dpIncremental = False,
     dpAdded = [], dpRemoved = [], dpAppliedRevision = AppliedRevision (NodeStore n)\<rparr>"

definition Node_Info :: "ServerNode \<Rightarrow> InfoResponse" where
  "Node_Info n = \<lparr>irNodeId = ncNodeID (svCfg n), irIsLeader = svIsLeader n, irLeaderId = ncLeaderID (svCfg n),
     irCommittedRevision = (case (svIsLeader n, svLeader n) of
         (True, Some l) \<Rightarrow> CommittedIndex l | _ \<Rightarrow> AppliedRevision (NodeStore n)),
     irAppliedRevision = AppliedRevision (NodeStore n),
     irNodes = map (\<lambda>(i, a). \<lparr>nodeId = i, nodeAddress = a\<rparr>) (ncPeers (svCfg n))\<rparr>"

subsection \<open>Write handlers\<close>

definition mapProposeError :: "ServerNode \<Rightarrow> go_error \<Rightarrow> srv_error" where
  "mapProposeError n err = withLeaderHint err (peer_addr (svCfg n) (ncLeaderID (svCfg n)))"

definition expiry :: "int64 \<Rightarrow> int64 \<Rightarrow> int64" where
  "expiry now ttl = (if ttl > 0 then add64 now ttl else 0)"

definition Node_Put :: "ServerNode \<Rightarrow> 'w Proposer \<Rightarrow> int64 \<Rightarrow> PutRequest \<Rightarrow> 'w \<Rightarrow> ('w \<times> (srv_error + PutResponse)) go" where
  "Node_Put n pr now req w =
    (if \<not> svIsLeader n then Inr (w, Inl (mapProposeError n ErrNotLeader))
     else go_bind (prPropose pr (op_entry (LogEntry_Put
              \<lparr>poNamespace = prNamespace req, poKey = prKey req, poValue = prValue req,
               poTtlMs = (if prTtlMs req > 0 then prTtlMs req else 0), poExpireAtMs = expiry now (prTtlMs req),
               poExpectedVersion = prExpectedVersion req\<rparr>)) w)
       (\<lambda>(w', r). Inr (w', case r of
          Inl err \<Rightarrow> Inl (mapProposeError n err)
        | Inr res \<Rightarrow> (case ocErr res of
            Some e \<Rightarrow> Inl (toGRPCError (ErrStore e))
          | None \<Rightarrow> Inr \<lparr>psKv = ocKV res, psLeaderId = ncLeaderID (svCfg n)\<rparr>))))"

definition Node_Delete :: "ServerNode \<Rightarrow> 'w Proposer \<Rightarrow> ('w \<Rightarrow> Store) \<Rightarrow> DeleteRequest \<Rightarrow> 'w
    \<Rightarrow> ('w \<times> (srv_error + DeleteResponse)) go" where
  "Node_Delete n pr view req w =
    (if \<not> svIsLeader n then Inr (w, Inl (mapProposeError n ErrNotLeader))
     else go_bind (prPropose pr (op_entry (LogEntry_Delete
              \<lparr>doNamespace = drNamespace req, doKey = drKey req,
               doExpectedVersion = (if drExpectedVersion req = 0 then -1 else drExpectedVersion req)\<rparr>)) w)
       (\<lambda>(w', r). Inr (w', case r of
          Inl err \<Rightarrow> Inl (mapProposeError n err)
        | Inr res \<Rightarrow> (case ocErr res of
            Some e \<Rightarrow> Inl (toGRPCError (ErrStore e))
          | None \<Rightarrow> Inr \<lparr>dsFound = ocFound res, dsRevision = AppliedRevision (view w'),
                         dsLeaderId = ncLeaderID (svCfg n)\<rparr>))))"

definition Node_Register :: "ServerNode \<Rightarrow> 'w Proposer \<Rightarrow> int64 \<Rightarrow> RegisterRequest \<Rightarrow> 'w
    \<Rightarrow> ('w \<times> (srv_error + RegisterResponse)) go" where
  "Node_Register n pr now req w =
    (if \<not> svIsLeader n then Inr (w, Inl (mapProposeError n ErrNotLeader))
     else go_bind (prPropose pr (op_entry (LogEntry_Register
              \<lparr>roNamespace = rrNamespace req, roService = rrService req, roInstanceId = rrInstanceId req,
               roAddress = rrAddress req, roMetadata = rrMetadata req, roLeaseTtlMs = rrLeaseTtlMs req,
               roExpireAtMs = expiry now (rrLeaseTtlMs req)\<rparr>)) w)
       (\<lambda>(w', r). Inr (w', case r of
          Inl err \<Rightarrow> Inl (mapProposeError n err)
        | Inr res \<Rightarrow> Inr \<lparr>rsInstance = ocInst res, rsLeaderId = ncLeaderID (svCfg n)\<rparr>)))"

definition Node_Heartbeat :: "ServerNode \<Rightarrow> 'w Proposer \<Rightarrow> ('w \<Rightarrow> Store) \<Rightarrow> int64 \<Rightarrow> int64 \<Rightarrow> HeartbeatRequest \<Rightarrow> 'w
    \<Rightarrow> ('w \<times> (srv_error + HeartbeatResponse)) go" where
  "Node_Heartbeat n pr view clk now req w =
    (if \<not> svIsLeader n then Inr (w, Inl (mapProposeError n ErrNotLeader))
     else case GetInstance clk (hrNamespace req) (hrService req) (hrInstanceId req) (view w) of
       None \<Rightarrow> Inr (w, Inl (toGRPCError (ErrStore ErrInstanceNotFound)))
     | Some cur \<Rightarrow>
         go_bind (prPropose pr (op_entry (LogEntry_Heartbeat
              \<lparr>hoNamespace = hrNamespace req, hoService = hrService req, hoInstanceId = hrInstanceId req,
               hoGuardRevision = inRevision cur, hoNewExpireAtMs = expiry now (inLeaseTtlMs cur)\<rparr>)) w)
       (\<lambda>(w', r). Inr (w', case r of
          Inl err \<Rightarrow> Inl (mapProposeError n err)
        | Inr res \<Rightarrow> (case ocErr res of
            Some e \<Rightarrow> Inl (toGRPCError (ErrStore e))
          | None \<Rightarrow> Inr \<lparr>hsInstance = ocInst res, hsLeaderId = ncLeaderID (svCfg n)\<rparr>))))"

subsection \<open>The replication service\<close>

text \<open>\<open>recv\<close> is the first receive of the stream. On success the stream is registered with the peer
  manager; the result is its number and the start state of the receive goroutine.\<close>

definition Node_AppendEntries :: "ServerNode \<Rightarrow> string + AppendEntriesResponse
    \<Rightarrow> srv_error + (ServerNode \<times> int32 \<times> int \<times> int64 option \<times> bool)" where
  "Node_AppendEntries n recv =
    (if \<not> svIsLeader n then Inl (RawErr ErrNotLeader)
     else case recv of
       Inl err \<Rightarrow> Inl (RawErr (ErrOther err))
     | Inr resp \<Rightarrow>
         let fid = arFollowerId resp
         in if map_of (ncPeers (svCfg n)) fid = None \<or> fid = ncNodeID (svCfg n) then Inl (unknownFollower fid)
            else case svPeers n of
              None \<Rightarrow> Inl (RawErr ErrNotLeader)
            | Some pm \<Rightarrow>
                let (pm', ps) = open_stream fid pm; (initial, waitFirst) = recv_start (arAckIndex resp)
                in Inr (n\<lparr>svPeers := Some pm'\<rparr>, fid, ps, initial, waitFirst))"

end
