(* ===== verification/ServerProps.thy ===== *)
theory ServerProps
  imports Server StoreProps
begin

text \<open>
  The properties of the gRPC handlers and of the life cycle of a node: what a response to a put
  promises, how a follower answers a write, expiry times at the edge of \<open>int64\<close>, and when
  \<open>Stop\<close> returns.
\<close>

subsection \<open>The put handler\<close>

definition put_request_op :: "int64 \<Rightarrow> PutRequest \<Rightarrow> PutOp" where
  "put_request_op now req = \<lparr>poNamespace = prNamespace req, poKey = prKey req, poValue = prValue req,
     poTtlMs = (if prTtlMs req > 0 then prTtlMs req else 0), poExpireAtMs = expiry now (prTtlMs req),
     poExpectedVersion = prExpectedVersion req\<rparr>"

text \<open>The put took effect as entry \<open>i\<close>, with this record, read by the clock at \<open>t\<close>.\<close>

definition put_took_effect :: "int64 \<Rightarrow> PutRequest \<Rightarrow> int64 \<Rightarrow> KeyValue \<Rightarrow> bool" where
  "put_took_effect now req i kv \<longleftrightarrow> (\<exists>s s' t cur. reachable s \<and> rev s + 1 = i
     \<and> ApplyPut t i (put_request_op now req) s = Inr (s', Inr kv)
     \<and> cur = live t (map_of (kvs s)) (prNamespace req, prKey req) \<and> cas_ok (prExpectedVersion req) cur
     \<and> kvNamespace kv = prNamespace req \<and> kvKey kv = prKey req \<and> kvValue kv = prValue req
     \<and> kvVersion kv = version_of cur + 1 \<and> kvRevision kv = i
     \<and> kvExpireAtMs kv = expiry now (prTtlMs req)
     \<and> (\<forall>t'. Get t' (prNamespace req) (prKey req) s' =
          (if kvExpireAtMs kv = 0 \<or> t' < kvExpireAtMs kv then Some kv else None)))"

definition put_conflicted :: "int64 \<Rightarrow> PutRequest \<Rightarrow> int64 \<Rightarrow> bool" where
  "put_conflicted now req i \<longleftrightarrow> (\<exists>s s' t. reachable s \<and> rev s + 1 = i
     \<and> ApplyPut t i (put_request_op now req) s = Inr (s', Inl ErrCASConflict)
     \<and> \<not> cas_ok (prExpectedVersion req) (live t (map_of (kvs s)) (prNamespace req, prKey req))
     \<and> (\<forall>t' ns key. Get t' ns key s' = Get t' ns key s))"

lemma applied_put:
  assumes "applied_as ((op_entry (LogEntry_Put (put_request_op now req)))\<lparr>leIndex := i, leTerm := 1\<rparr>) out"
    and "i < maxIndex"
  shows "case ocErr out of
      None \<Rightarrow> \<exists>kv. ocKV out = Some kv \<and> put_took_effect now req i kv
    | Some err \<Rightarrow> err = ErrCASConflict \<and> put_conflicted now req i"
proof -
  let ?op = "put_request_op now req"
  obtain s s' t where s: "reachable s" "rev s + 1 = i"
      "applyOne StoreApplier t ((op_entry (LogEntry_Put ?op))\<lparr>leIndex := i, leTerm := 1\<rparr>) s = Inr (s', out)"
    using assms(1) by (auto simp: applied_as_def op_entry_def)
  then obtain r where r: "ApplyPut t i ?op s = Inr (s', r)" "out = putOutcome r"
    by (auto simp: applyOne_def op_entry_def StoreApplier_def go_bind_Inr_iff)
  have op: "poNamespace ?op = prNamespace req" "poKey ?op = prKey req" "poValue ?op = prValue req"
    "poExpectedVersion ?op = prExpectedVersion req" by (simp_all add: put_request_op_def)
  have due: "poExpireAtMs ?op = expiry now (prTtlMs req)" by (simp add: put_request_op_def)
  let ?cur = "live t (map_of (kvs s)) (prNamespace req, prKey req)"
  have idx: "rev s < i" using s(2) by simp
  note branches = ApplyPut_branches [OF s(1) idx assms(2), of ?cur t ?op, unfolded op, OF refl]
  show ?thesis
  proof (cases "cas_ok (prExpectedVersion req) ?cur")
    case True
    with branches r(1) obtain kv where kv: "r = Inr kv"
      "kv = \<lparr>kvNamespace = prNamespace req, kvKey = prKey req, kvValue = prValue req,
               kvVersion = version_of ?cur + 1, kvRevision = i, kvTtlMs = poTtlMs ?op,
               kvExpireAtMs = poExpireAtMs ?op\<rparr>"
      "\<And>t' ns key. Get t' ns key s' =
           (if (ns, key) = (prNamespace req, prKey req)
            then if poExpireAtMs ?op = 0 \<or> t' < poExpireAtMs ?op then Some kv else None
            else Get t' ns key s)" by auto
    have "put_took_effect now req i kv"
      unfolding put_took_effect_def using s(1,2) r(1) kv True due
      by (intro exI [of _ s] exI [of _ s'] exI [of _ t] exI [of _ ?cur]) simp
    with r(2) kv(1) show ?thesis by (simp add: putOutcome_def noOutcome_def)
  next
    case False
    with branches r(1) have "r = Inl ErrCASConflict" "\<And>t' ns key. Get t' ns key s' = Get t' ns key s" by auto
    moreover from this have "put_conflicted now req i"
      unfolding put_conflicted_def using s(1,2) r(1) False
      by (intro exI [of _ s] exI [of _ s'] exI [of _ t]) simp
    ultimately show ?thesis using r(2) by (simp add: putOutcome_def noOutcome_def)
  qed
qed

subsection \<open>Handlers over any proposer\<close>

text \<open>Besides the laws of the call: the log does not outgrow its bound.\<close>

locale write_handlers = proposer +
  assumes bounded: "ok n w \<Longrightarrow> rev (view w) < maxIndex"
begin

lemma Node_Put_ok:
  assumes "ok (Suc n) w" and "svIsLeader node"
  shows "\<exists>w' r. Node_Put node pr now req w = Inr (w', r) \<and> ok n w' \<and> rev (view w) \<le> rev (view w')
    \<and> (case r of
        Inr resp \<Rightarrow> \<exists>i kv. rev (view w) < i \<and> i \<le> rev (view w') \<and> psKv resp = Some kv \<and> put_took_effect now req i kv
      | Inl e \<Rightarrow> (e = toGRPCError (ErrStore ErrCASConflict)
            \<and> (\<exists>i. rev (view w) < i \<and> i \<le> rev (view w') \<and> put_conflicted now req i))
          \<or> (\<exists>err. e = mapProposeError node err \<and> (err = ErrNotLeader \<or> (\<exists>x. err = ErrCtx x))))"
proof -
  let ?e = "op_entry (LogEntry_Put (put_request_op now req))"
  have "op_fits ?e" by (simp add: op_fits_def op_entry_def)
  from calls [OF assms(1) this] obtain w' r where call: "prPropose pr ?e w = Inr (w', r)" "ok n w'"
    "rev (view w) \<le> rev (view w')"
    and out: "\<And>out. r = Inr out \<Longrightarrow> \<exists>i. rev (view w) < i \<and> i \<le> rev (view w')
           \<and> applied_as (?e\<lparr>leIndex := i, leTerm := 1\<rparr>) out"
    and err: "\<And>err. r = Inl err \<Longrightarrow> err = ErrNotLeader \<or> (\<exists>x. err = ErrCtx x)" by blast
  have eq: "Node_Put node pr now req w = Inr (w', case r of
          Inl err \<Rightarrow> Inl (mapProposeError node err)
        | Inr res \<Rightarrow> (case ocErr res of
            Some e \<Rightarrow> Inl (toGRPCError (ErrStore e))
          | None \<Rightarrow> Inr \<lparr>psKv = ocKV res, psLeaderId = ncLeaderID (svCfg node)\<rparr>))"
    using assms(2) call(1) unfolding put_request_op_def by (simp add: Node_Put_def)
  show ?thesis
  proof (cases r)
    case (Inl e)
    with err [OF Inl] call show ?thesis unfolding eq by auto
  next
    case (Inr res)
    from out [OF this] obtain i where i: "rev (view w) < i" "i \<le> rev (view w')"
      and ap: "applied_as (?e\<lparr>leIndex := i, leTerm := 1\<rparr>) res" by blast
    have "i < maxIndex" using bounded [OF call(2)] i(2) by simp
    from applied_put [OF ap this] i call Inr show ?thesis
      unfolding eq by (cases "ocErr res") auto
  qed
qed

end

interpretation leader_writes: write_handlers scripted_propose leader_view "world_ok cfg"
proof
  fix n w assume ok: "world_ok cfg n w"
  then have reach: "leader_reach cfg (fst w)" by (simp add: world_ok_def)
  have "ldCommit (fst w) \<le> LastIndex (fst w)"
    using leader_reach_inv [OF reach] by (simp add: leader_inv_def log_inv_def)
  with ok leader_view_rev [OF reach] script_size_nonneg [of "snd w"] show "rev (leader_view w) < maxIndex"
    by (simp add: leader_view_def world_ok_def)
qed

subsection \<open>Properties\<close>


definition node_config3 :: NodeConfig where
  "node_config3 = \<lparr>ncNodeID = 1, ncListenAddr = ''a'', ncAdvertiseAddr = [], ncLeaderID = 1,
     ncPeers = [(1, ''a''), (2, ''b''), (3, ''c'')], ncSweepInterval = 0, ncToken = ''t'', ncListener = None\<rparr>"

definition put_hello :: PutRequest where
  "put_hello = \<lparr>prNamespace = ''ns'', prKey = ''k'', prValue = ''hello'', prTtlMs = 0, prExpectedVersion = -1\<rparr>"

text \<open>A run in which follower 2 acknowledges and a turn of the commit loop follows.\<close>

definition world3 :: leader_world where
  "world3 = (nodeLeader cfg3, [([ActAck 2 1, ActTurn (\<lambda>_. 0)], CaseResult)])"

lemma world3_ok: "world_ok cfg3 (Suc 0) world3"
proof -
  have "LastIndex (nodeLeader cfg3) = 0" by (simp add: leader_eval)
  then show ?thesis by (simp add: world_ok_def world3_def maxIndex_def leader_reach.start)
qed

text \<open>The first entry of the three-node leader is committed and its waiter answered.\<close>

lemma first_entry_answered:
  assumes "op_fits e"
  shows "\<exists>l' out. propose_call [ActAck 2 1, ActTurn clk] CaseResult e (nodeLeader cfg3) = Inr (Some (l', Inr out))"
proof -
  define l1 where "l1 = proposed e (nodeLeader cfg3)"
  have l1: "Propose e (nodeLeader cfg3) = Inr (l1, Inr 1)"
    by (simp add: l1_def proposed_def Propose_def leader_eval wake_def notifyReplicators_def notify_def)
  have f1: "LastIndex l1 = 1" "ldCommit l1 = 0" "wakeCh l1 = \<lparr>chBuf = [()], chCap = 1, chClosed = False\<rparr>"
    "waiters l1 = [(1, 1)]" "ldMatch l1 = []" "ldCfg l1 = cfg3"
    by (simp_all add: l1_def proposed_def Propose_def leader_eval wake_def notifyReplicators_def notify_def)
  have reach1: "leader_reach cfg3 l1"
    using op_fits_at [OF assms, of 1] by (intro leader_reach.propose [OF leader_reach.start _ l1])
      (simp add: leader_eval maxIndex_def)
  define l2 where "l2 = l1\<lparr>ldMatch := [(2, 1)]\<rparr>"
  have ack: "FollowerAck 2 1 l1 = Inr l2"
    by (simp add: FollowerAck_def wake_def MatchOf_def f1 l2_def)
  have f2: "LastIndex l2 = 1" "ldCommit l2 = 0" "chBuf (wakeCh l2) \<noteq> []" "waiters l2 = [(1, 1)]" "ldMatch l2 = [(2, 1)]"
    "ldCfg l2 = cfg3"
    using f1 by (simp_all add: l2_def LastIndex_def)
  have inv: "node_inv l2" using leader_reach_inv [OF leader_reach.acked [OF reach1 ack]] by blast
  have "votes l2 1 = 2" "needVotes l2 = 2"
    by (simp_all add: votes_def needVotes_def f2 cfg3_def MatchOf_def Quorum_def go_div_def)
  then have one: "find_commit (\<lambda>i. votes l2 i \<ge> needVotes l2) (LastIndex l2) (ldCommit l2) = 1"
    by (subst find_commit.simps) (simp add: f2)
  obtain l3 rs where l3: "commitLoop_turn clk l2 = Inr (Some l3)"
    "resChans l3 1 = Some ((make_chan 1)\<lparr>chBuf := [rs ! 0]\<rparr>)"
    using turn_ok [OF inv f2(3) one [symmetric], of clk] by (auto simp: f2)
  then show ?thesis
    by (simp add: propose_call_def l1 ack propose_select_def try_recv_def)
qed


text \<open>A follower takes no write. Each of the four write handlers returns the same error at once,
  without a proposal, and the client library makes three things of it: it is the error
  \<open>ErrNotLeader\<close>, it is not retried as a transport error, and its hint is the configured address
  of the leader.\<close>

theorem follower_redirects:
  assumes "\<not> svIsLeader node" and "addr = peer_addr (svCfg node) (ncLeaderID (svCfg node))"
    and "set addr \<inter> set '';, '' = {}"
  shows "\<exists>e. Node_Put node pr now put w = Inr (w, Inl e) \<and> Node_Delete node pr view del w = Inr (w, Inl e)
    \<and> Node_Register node pr now reg w = Inr (w, Inl e) \<and> Node_Heartbeat node pr view clk now hb w = Inr (w, Inl e)
    \<and> mapStatus (received_error e) = CErrNotLeader \<and> \<not> isRetryableTransport (received_error e)
    \<and> parseLeaderHint (received_error e) = addr"
proof -
  let ?e = "mapProposeError node ErrNotLeader"
  have e: "?e = withLeaderHint ErrNotLeader addr"
    by (simp add: mapProposeError_def assms(2))
  have "takeWhile (\<lambda>x. x \<notin> set '';, '') addr = addr"
    using assms(3) by (subst takeWhile_eq_all_conv) auto
  then have "parseLeaderHint (received_error ?e) = addr"
    unfolding e using hint_roundtrip [of ErrNotLeader addr] by simp
  moreover have "mapStatus (received_error ?e) = CErrNotLeader" "\<not> isRetryableTransport (received_error ?e)"
    unfolding e by (simp_all add: withLeaderHint_def toGRPCError_def received_error_def mapStatus_def isRetryableTransport_def)
  ultimately show ?thesis
    using assms(1) by (intro exI [of _ ?e]) (simp add: Node_Put_def Node_Delete_def Node_Register_def Node_Heartbeat_def)
qed

theorem follower_redirects_witness:
  "\<not> svIsLeader (NewNode (node_config3\<lparr>ncNodeID := 2\<rparr>))
    \<and> (\<exists>e. Node_Put (NewNode (node_config3\<lparr>ncNodeID := 2\<rparr>)) scripted_propose 5 put_hello world3 = Inr (world3, Inl e)
       \<and> parseLeaderHint (received_error e) = ''a'')"
proof
  show follower: "\<not> svIsLeader (NewNode (node_config3\<lparr>ncNodeID := 2\<rparr>))" by (simp add: NewNode_def node_config3_def)
  have addr: "''a'' = peer_addr (svCfg (NewNode (node_config3\<lparr>ncNodeID := 2\<rparr>))) (ncLeaderID (svCfg (NewNode (node_config3\<lparr>ncNodeID := 2\<rparr>))))"
    by (simp add: NewNode_def node_config3_def peer_addr_def)
  show "\<exists>e. Node_Put (NewNode (node_config3\<lparr>ncNodeID := 2\<rparr>)) scripted_propose 5 put_hello world3 = Inr (world3, Inl e)
       \<and> parseLeaderHint (received_error e) = ''a''"
    using follower_redirects [OF follower addr, of scripted_propose 5 put_hello world3 leader_view undefined undefined 0 undefined]
    by auto
qed

text \<open>C35: Expiry times at the edge of \<open>int64\<close>. A lifetime of zero or less never expires; one that ends
  within the range of \<open>int64\<close> is seen until exactly \<open>ttl\<close> milliseconds later; a longer one wraps
  around to a negative expiry time, so that the value just written is dead at every clock reading.\<close>

theorem expiry_bounds:
  assumes "0 \<le> now" and "now < 2 ^ 63" and "ttl < 2 ^ 63" and "keExpireAtMs e = expiry now ttl"
  shows "expiry now ttl < 2 ^ 63
    \<and> (if ttl \<le> 0 then (\<forall>t. aliveKV t e)
       else if now + ttl < 2 ^ 63 then (\<forall>t. aliveKV t e = (t < now + ttl))
       else expiry now ttl = now + ttl - 2 ^ 64 \<and> (\<forall>t\<ge>0. \<not> aliveKV t e))"
proof -
  have wrap: "wrap64 x = x - 2 ^ 64" if "2 ^ 63 \<le> x" "x < 2 ^ 64" for x
  proof -
    have "(x + 2 ^ 63) mod 2 ^ 64 = (x + 2 ^ 63 - 2 ^ 64) mod 2 ^ 64"
      using mod_add_self2 [of "x + 2 ^ 63 - 2 ^ 64" "2 ^ 64"] by (simp add: add.commute)
    also have "\<dots> = x + 2 ^ 63 - 2 ^ 64" using that by (intro mod_pos_pos_trivial) auto
    finally show ?thesis by (simp add: wrap64_def)
  qed
  consider "ttl \<le> 0" | "0 < ttl" "now + ttl < 2 ^ 63" | "0 < ttl" "2 ^ 63 \<le> now + ttl" by linarith
  then show ?thesis
  proof cases
    case 1
    then show ?thesis using assms(4) by (simp add: expiry_def aliveKV_def)
  next
    case 2
    have "expiry now ttl = now + ttl"
      using 2 assms(1) by (simp add: expiry_def add64_def wrap64_id is_int64_def)
    with 2 assms(1,4) show ?thesis by (auto simp: aliveKV_def)
  next
    case 3
    have "expiry now ttl = now + ttl - 2 ^ 64"
      using 3 assms(1-3) by (simp add: expiry_def add64_def wrap)
    with 3 assms show ?thesis by (auto simp: aliveKV_def)
  qed
qed

theorem expiry_bounds_witness:
  "aliveKV 1059 \<lparr>keValue = [], keVersion = 1, keRevision = 1, keTtlMs = 60, keExpireAtMs = expiry 1000 60\<rparr>
    \<and> \<not> aliveKV 1000 \<lparr>keValue = [], keVersion = 1, keRevision = 1, keTtlMs = 2 ^ 63 - 1, keExpireAtMs = expiry 1000 (2 ^ 63 - 1)\<rparr>"
  using expiry_bounds [of 1000 60 "\<lparr>keValue = [], keVersion = 1, keRevision = 1, keTtlMs = 60, keExpireAtMs = expiry 1000 60\<rparr>"]
    expiry_bounds [of 1000 "2 ^ 63 - 1" "\<lparr>keValue = [], keVersion = 1, keRevision = 1, keTtlMs = 2 ^ 63 - 1, keExpireAtMs = expiry 1000 (2 ^ 63 - 1)\<rparr>"]
  by auto



end
