(* ===== verification/SubProps.thy ===== *)
theory SubProps
  imports StoreProps
begin

text \<open>
  The guarantees of subscriptions, over runs in which log entries are applied while the stream
  goroutine of the subscriber takes events from its channel.
\<close>

subsection \<open>The events of an entry\<close>

definition entry_events :: "int64 \<Rightarrow> LogEntry \<Rightarrow> Store \<Rightarrow> Event list" where
  "entry_events now e s = number_events 0 (case leOp e of
     Some (LogEntry_Put op) \<Rightarrow> fst (snd (spec_put now (leIndex e) op (map_of (kvs s))))
   | Some (LogEntry_Delete op) \<Rightarrow> fst (snd (spec_delete now (leIndex e) op (map_of (kvs s))))
   | Some (LogEntry_ExpireKeys items) \<Rightarrow> snd (spec_expire (leIndex e) items (map_of (kvs s)))
   | _ \<Rightarrow> [])"

lemma emit_all_push:
  "kvWatchers (emit_all evs s) = kvWatchers (fold push (number_events (sub s) evs) s)
    \<and> kvChans (emit_all evs s) = kvChans (fold push (number_events (sub s) evs) s)"
proof -
  have congr: "kvWatchers (fold push es t) = kvWatchers (fold push es s)
      \<and> kvChans (fold push es t) = kvChans (fold push es s)"
    if "kvWatchers t = kvWatchers s" "kvChans t = kvChans s" for es and s t :: Store
    using that by (induction es arbitrary: s t) (simp_all add: push_watchers)
  show ?thesis
  proof (induction evs s rule: emit_all.induct)
    case (2 kind kv evs s)
    have eq: "kvWatchers (emit_result kind kv s) = kvWatchers (push (newEvent kind kv (sub s)) s)"
      "kvChans (emit_result kind kv s) = kvChans (push (newEvent kind kv (sub s)) s)"
      by (simp_all add: emit_result_watchers push_watchers)
    from 2 congr [OF eq, of "number_events (sub s + 1) evs"] show ?case by simp
  qed simp
qed

definition same_stream :: "Store \<Rightarrow> Store \<Rightarrow> bool" where
  "same_stream s t \<longleftrightarrow> kvWatchers s = kvWatchers t \<and> kvChans s = kvChans t \<and> watcherSeq s = watcherSeq t"

lemma fold_push_cong:
  "same_stream s t \<Longrightarrow> same_stream (fold push es s) (fold push es t)"
  by (induction es arbitrary: s t) (simp_all add: same_stream_def push_watchers)

lemma emit_all_stream:
  "same_stream (emit_all evs (s\<lparr>rev := index, sub := 0, kvs := m\<rparr>)) (fold push (number_events 0 evs) s)"
proof -
  let ?s = "s\<lparr>rev := index, sub := 0, kvs := m\<rparr>"
  have "same_stream (fold push (number_events 0 evs) ?s) (fold push (number_events 0 evs) s)"
    by (rule fold_push_cong) (simp add: same_stream_def)
  moreover have "watcherSeq (fold push es t) = watcherSeq t" for es t
    by (induction es arbitrary: t) simp_all
  ultimately show ?thesis
    using emit_all_push [of evs ?s] by (simp add: same_stream_def)
qed

lemma applyOne_stream:
  assumes inv: "store_inv s" and step: "applyOne StoreApplier now e s = Inr (s', r)"
  shows "same_stream s' (fold push (entry_events now e s) s)"
proof -
  have ok: "watchers_ok s" "svc_watchers_ok s" using inv by (auto simp: store_inv_def tables_ok_def)
  show ?thesis
  proof (cases "leOp e")
    case None
    with step show ?thesis by (simp add: applyOne_def entry_events_def same_stream_def)
  next
    case (Some x)
    note step' = step [unfolded applyOne_def StoreApplier_def Some, simplified]
    show ?thesis
    proof (cases x)
      case (LogEntry_Put op)
      obtain m evs q where spec: "spec_put now (leIndex e) op (map_of (kvs s)) = (m, evs, q)"
        by (metis prod_cases3)
      from ApplyPut_refines [OF ok(1) spec] emit_all_stream step' LogEntry_Put Some show ?thesis
        by (auto simp: entry_events_def spec)
    next
      case (LogEntry_Delete op)
      obtain m evs q where spec: "spec_delete now (leIndex e) op (map_of (kvs s)) = (m, evs, q)"
        by (metis prod_cases3)
      from ApplyDelete_refines [OF ok(1) spec] emit_all_stream step' LogEntry_Delete Some show ?thesis
        by (auto simp: entry_events_def spec)
    next
      case (LogEntry_ExpireKeys items)
      obtain m evs where spec: "spec_expire (leIndex e) items (map_of (kvs s)) = (m, evs)"
        by (metis surj_pair)
      from ApplyExpireKeys_refines [OF ok(1) spec] emit_all_stream step' LogEntry_ExpireKeys Some show ?thesis
        by (auto simp: entry_events_def spec go_bind_Inr_iff split: if_splits)
    next
      case (LogEntry_Register op)
      with step' Some ok show ?thesis
        by (auto simp: entry_events_def ApplyRegister_ok same_stream_def register_store_def Let_def)
    next
      case (LogEntry_Heartbeat op)
      with step' Some show ?thesis
        by (auto simp: entry_events_def ApplyHeartbeat_def same_stream_def Let_def
            split: option.splits if_splits)
    next
      case (LogEntry_ExpireServices items)
      obtain m removed where loop: "expireServices_loop (leIndex e) items (instances s) [] = (m, removed)"
        by (metis surj_pair)
      with step' Some LogEntry_ExpireServices ApplyExpireServices_ok [OF ok(2) loop] show ?thesis
        by (auto simp: entry_events_def same_stream_def)
    qed
  qed
qed

lemma entry_events_hist:
  assumes inv: "store_inv s" and idx: "rev s < leIndex e" "leIndex e < maxIndex"
    and step: "applyOne StoreApplier now e s = Inr (s', r)"
  shows "hist_list s' = last_n historyCapacity (hist_list s @ entry_events now e s)"
proof -
  have abs: "abs_of s' = fst (spec_apply now e (abs_of s))"
    using store_inv_apply [OF inv idx step] by simp
  note hist = arg_cong [OF abs, of absHist]
  show ?thesis
    using hist hist_list_short [OF inv]
    by (auto simp: spec_apply_def Let_def entry_events_def spec_emit_def
        split: option.splits LogEntry_Op.splits prod.splits)
qed

lemma entry_events_cursors:
  assumes inv: "store_inv s" and idx: "rev s < leIndex e" "leIndex e < maxIndex" and "within_limit e s"
  shows "sorted_wrt (<) (map evSeq (entry_events now e s))
    \<and> (\<forall>ev\<in>set (entry_events now e s). leIndex e * subLimit \<le> evSeq ev \<and> evSeq ev < (leIndex e + 1) * subLimit)"
proof -
  have maps: "maps_inv (abs_of s)" and pos: "0 \<le> leIndex e"
    using inv idx store_inv_rev [OF inv] by (auto simp: store_inv_def abs_inv_def)
  have number: "sorted_wrt (<) (map evSeq (number_events 0 evs))
      \<and> (\<forall>ev\<in>set (number_events 0 evs). leIndex e * subLimit \<le> evSeq ev \<and> evSeq ev < (leIndex e + 1) * subLimit)"
    if "\<forall>p\<in>set evs. kvRevision (snd p) = leIndex e" "int (length evs) \<le> subLimit" for evs
    using number_events_inv [OF that(1) pos idx(2), of 0] that(2) by simp
  show ?thesis
  proof (cases "leOp e")
    case None
    then show ?thesis by (simp add: entry_events_def)
  next
    case (Some x)
    show ?thesis
    proof (cases x)
      case (LogEntry_Put op)
      obtain m evs q where spec: "spec_put now (leIndex e) op (absKvs (abs_of s)) = (m, evs, q)"
        by (metis prod_cases3)
      from spec_put_inv(2) [OF maps _ idx(2) spec] idx(1) number [of evs] spec Some LogEntry_Put show ?thesis
        by (simp add: entry_events_def subLimit_def)
    next
      case (LogEntry_Delete op)
      obtain m evs q where spec: "spec_delete now (leIndex e) op (map_of (kvs s)) = (m, evs, q)"
        by (metis prod_cases3)
      from spec_delete_inv(2) [OF spec] number [of evs] spec Some LogEntry_Delete show ?thesis
        by (simp add: entry_events_def subLimit_def)
    next
      case (LogEntry_ExpireKeys items)
      from spec_expire_inv [of "leIndex e" items "map_of (kvs s)"] assms(4)
        number [of "snd (spec_expire (leIndex e) items (map_of (kvs s)))"] Some LogEntry_ExpireKeys
      show ?thesis by (simp add: entry_events_def within_limit_def)
    qed (simp_all add: entry_events_def Some)
  qed
qed

subsection \<open>A subscriber during replication\<close>

text \<open>
  A run interleaves entries of the log (an entry at or below the applied revision is skipped, as
  the replicas do) with receives of the subscriber on channel \<open>i\<close>. The state is the store, what
  the subscriber has received and, for the statement only, all events in the order of emission.
\<close>

datatype sub_act = Entry int64 LogEntry | Take

fun sub_step :: "chan_ref \<Rightarrow> sub_act \<Rightarrow> Store \<times> WatchEvent list \<times> Event list
    \<Rightarrow> (Store \<times> WatchEvent list \<times> Event list) go" where
  "sub_step i (Entry now e) (s, got, evs) =
    (if leIndex e \<le> rev s \<or> maxIndex \<le> leIndex e then Inr (s, got, evs)
     else go_bind (applyOne StoreApplier now e s) (\<lambda>(s', r). Inr (s', got, evs @ entry_events now e s)))"
| "sub_step i Take (s, got, evs) =
    (case kvChans s i of None \<Rightarrow> Inr (s, got, evs)
     | Some c \<Rightarrow> (case try_recv c of Received x c' \<Rightarrow> Inr (recv_kv i s, got @ [x], evs)
                  | _ \<Rightarrow> Inr (s, got, evs)))"

fun sub_run :: "chan_ref \<Rightarrow> sub_act list \<Rightarrow> Store \<times> WatchEvent list \<times> Event list
    \<Rightarrow> (Store \<times> WatchEvent list \<times> Event list) go" where
  "sub_run i [] st = Inr st"
| "sub_run i (a # as) st = go_bind (sub_step i a st) (sub_run i as)"

text \<open>The invariant of a run, with \<open>base\<close> the events before the subscription.\<close>

definition sub_inv :: "kvWatcher \<Rightarrow> int64 \<Rightarrow> Event list \<Rightarrow> Store \<times> WatchEvent list \<times> Event list \<Rightarrow> bool" where
  "sub_inv w from base = (\<lambda>(s, got, evs). reachable s \<and>
     (\<exists>later. evs = base @ later \<and> from < (rev s + 1) * subLimit
       \<and> (\<forall>ev\<in>set later. from < evSeq ev)
       \<and> watch_inv (kwCh w) w (stream_from (kwNs w) (kwKey w) from base @ events_for w later) (s, got)
       \<and> hist_list s = last_n historyCapacity evs
       \<and> sorted_wrt (<) (map evSeq evs)
       \<and> (\<forall>ev\<in>set evs. subLimit \<le> evSeq ev \<and> evSeq ev < (rev s + 1) * subLimit)))"

lemma watch_inv_cong:
  assumes "watch_inv i w sent (t, got)" and "same_stream s t" and "watchers_ok s" and "hist_ok s"
  shows "watch_inv i w sent (s, got)"
  using assms by (auto simp: watch_inv_def same_stream_def)

lemma watch_inv_pushes:
  "watch_inv i w sent (s, got) \<Longrightarrow> watch_inv i w (sent @ events_for w evs) (fold push evs s, got)"
proof (induction evs arbitrary: s sent)
  case Nil
  then show ?case by (simp add: events_for_def)
next
  case (Cons ev evs)
  have "events_for w (ev # evs) = events_for w [ev] @ events_for w evs"
    by (simp add: events_for_def)
  with Cons.IH [OF watch_inv_publish [OF Cons.prems, of ev]] show ?case by simp
qed

lemma within_of_step:
  assumes "store_inv s" and "applyOne StoreApplier now e s = Inr (s', r)"
  shows "within_limit e s"
  using applyOne_refines [of s e now] assms by (auto simp: store_inv_def split: if_splits)

lemma sub_inv_entry:
  assumes inv: "sub_inv w from base (s, got, evs)" and idx: "rev s < leIndex e" "leIndex e < maxIndex"
    and step: "applyOne StoreApplier now e s = Inr (s', r)"
  shows "sub_inv w from base (s', got, evs @ entry_events now e s)"
proof -
  obtain later where reach: "reachable s" and evs: "evs = base @ later" and lo: "from < (rev s + 1) * subLimit"
    and later: "\<forall>ev\<in>set later. from < evSeq ev"
    and watch: "watch_inv (kwCh w) w (stream_from (kwNs w) (kwKey w) from base @ events_for w later) (s, got)"
    and hist: "hist_list s = last_n historyCapacity evs" and sorted: "sorted_wrt (<) (map evSeq evs)"
    and range: "\<forall>ev\<in>set evs. subLimit \<le> evSeq ev \<and> evSeq ev < (rev s + 1) * subLimit"
    using inv by (auto simp: sub_inv_def)
  have sinv: "store_inv s" using reach by (rule reachable_inv)
  have reach': "reachable s'" using reachable.apply_entry [OF reach idx step] .
  then have ok': "watchers_ok s'" "hist_ok s'"
    using reachable_inv by (auto simp: store_inv_def tables_ok_def)
  let ?new = "entry_events now e s"
  have new: "sorted_wrt (<) (map evSeq ?new)" "\<forall>ev\<in>set ?new. leIndex e * subLimit \<le> evSeq ev
      \<and> evSeq ev < (leIndex e + 1) * subLimit"
    using entry_events_cursors [OF sinv idx within_of_step [OF sinv step]] by auto
  have low: "(rev s + 1) * subLimit \<le> leIndex e * subLimit" "subLimit \<le> (rev s + 1) * subLimit"
    using idx store_inv_rev [OF sinv] by (auto simp: subLimit_def)
  have revs: "rev s' = leIndex e \<or> (rev s' = rev s \<and> ?new = [])"
  proof (cases "leOp e = None")
    case True
    with step show ?thesis by (auto simp: applyOne_def entry_events_def)
  next
    case False
    with store_inv_apply [OF sinv idx step] spec_apply_rev [of e now "abs_of s"] show ?thesis
      by (metis abs_of_sel(3))
  qed
  have "hist_list s' = last_n historyCapacity (evs @ ?new)"
    using entry_events_hist [OF sinv idx step] hist last_n_absorb by metis
  moreover have "watch_inv (kwCh w) w (stream_from (kwNs w) (kwKey w) from base @ events_for w (later @ ?new)) (s', got)"
    using watch_inv_cong [OF watch_inv_pushes [OF watch, of ?new] applyOne_stream [OF sinv step] ok']
    by (simp add: events_for_def)
  moreover have "sorted_wrt (<) (map evSeq (evs @ ?new))"
    using sorted new range low by (force simp: sorted_wrt_append)
  moreover have "\<forall>ev\<in>set (later @ ?new). from < evSeq ev"
    using later new(2) lo low by fastforce
  moreover have "from < (rev s' + 1) * subLimit \<and> (\<forall>ev\<in>set (evs @ ?new). subLimit \<le> evSeq ev
      \<and> evSeq ev < (rev s' + 1) * subLimit)"
  proof (cases "rev s' = leIndex e")
    case True
    have "(rev s + 1) * subLimit \<le> (leIndex e + 1) * subLimit" using low by (auto simp: subLimit_def)
    with True range new(2) low lo show ?thesis by fastforce
  next
    case False
    with revs range lo show ?thesis by auto
  qed
  ultimately show ?thesis
    using reach' unfolding sub_inv_def evs by (auto intro!: exI [of _ "later @ ?new"])
qed

lemma sub_inv_take:
  assumes inv: "sub_inv w from base (s, got, evs)" and c: "kvChans s (kwCh w) = Some c"
    and recv: "try_recv c = Received x c'"
  shows "sub_inv w from base (recv_kv (kwCh w) s, got @ [x], evs)"
proof -
  have same: "recv_kv (kwCh w) s = s\<lparr>kvChans := (kvChans s)(kwCh w \<mapsto> c')\<rparr>"
    by (simp add: recv_kv_def c recv)
  have "watch_step (kwCh w) Receive (s, got) = (recv_kv (kwCh w) s, got @ [x])"
    by (simp add: c recv same)
  then have "watch_inv (kwCh w) w sent (recv_kv (kwCh w) s, got @ [x])" if "watch_inv (kwCh w) w sent (s, got)" for sent
    using watch_inv_receive [OF that] by simp
  with inv show ?thesis
    by (auto simp: sub_inv_def same intro!: reachable.receive [of s "kwCh w", unfolded same])
qed

lemma sub_inv_run:
  "sub_inv w from base st \<Longrightarrow> sub_run (kwCh w) as st = Inr st' \<Longrightarrow> sub_inv w from base st'"
proof (induction as arbitrary: st)
  case Nil
  then show ?case by simp
next
  case (Cons a as)
  obtain s got evs where st: "st = (s, got, evs)" by (metis prod_cases3)
  from Cons.prems(2) obtain st1 where st1: "sub_step (kwCh w) a st = Inr st1"
    and rest: "sub_run (kwCh w) as st1 = Inr st'"
    by (auto simp: go_bind_Inr_iff)
  have "sub_inv w from base st1"
  proof (cases a)
    case (Entry now e)
    with st1 st Cons.prems(1) sub_inv_entry [of w "from" base s got evs e now] show ?thesis
      by (auto simp: go_bind_Inr_iff split: if_splits)
  next
    case Take
    with st1 st Cons.prems(1) sub_inv_take [of w "from" base s got evs] show ?thesis
      by (auto split: option.splits recv_outcome.splits)
  qed
  from Cons.IH [OF this rest] show ?case .
qed

text \<open>C1: A subscriber that resumes from the cursor of the last event it received misses nothing.
  After \<open>WatchKV\<close> opens a subscription on a reachable store, let log entries be applied and let
  the stream take events from the channel in any order, including a slow consumer that gets
  dropped when its buffer is full. What was delivered is an initial part of the list of all
  matching events after the start cursor, in order and without duplicates, and a new \<open>WatchKV\<close> at
  the last delivered cursor hands out exactly the missing rest, or reports
  \<open>ErrRevisionCompacted\<close>: it never resumes with a silent gap.\<close>

theorem watch_resume_no_gap:
  assumes "reachable s" and "is_int64 (watcherSeq s + 1)" and "from < (rev s + 1) * subLimit"
    and opened: "WatchKV ns key from s = Inr (s1, Inr (wid, backlog))"
    and run: "sub_run wid as (s1, backlog, hist_list s) = Inr (s2, got, evs)"
    and "got \<noteq> []"
  shows "\<exists>rest. got @ rest = stream_from ns key from evs
    \<and> (\<exists>s3 r. WatchKV ns key (weRevision (last got)) s2 = Inr (s3, r)
        \<and> (r = Inl ErrRevisionCompacted \<or> (\<exists>wid'. r = Inr (wid', rest))))"
proof -
  let ?w = "\<lparr>kwNs = ns, kwKey = key, kwCh = watcherSeq s + 1\<rparr>"
  have sinv: "store_inv s" using assms(1) by (rule reachable_inv)
  then have ok: "hist_ok s" "watchers_ok s" and cur: "cursors_inv (abs_of s)"
    by (auto simp: store_inv_def tables_ok_def abs_inv_def)
  have wid: "wid = watcherSeq s + 1" and s1: "s1 = registered ns key s"
    and backlog: "backlog = stream_from ns key from (hist_list s)"
    using opened WatchKV_ok [OF ok(1), of ns key "from"] assms(2)
    by (auto simp: add64_def wrap64_id split: if_splits)
  have rev1: "rev s1 = rev s" and hist1: "hist_list s1 = hist_list s"
    by (simp_all add: s1 registered_def Let_def)
  have "watch_inv (kwCh ?w) ?w (stream_from ns key from (hist_list s) @ events_for ?w []) (s1, backlog)"
    using watch_inv_registered [OF ok assms(2), of ns key backlog] by (simp add: s1 backlog events_for_def)
  then have start: "watch_inv (kwCh ?w) ?w (stream_from (kwNs ?w) (kwKey ?w) from (hist_list s)
      @ events_for ?w []) (s1, backlog)" by simp
  have sorted0: "sorted_wrt (<) (map evSeq (hist_list s))"
    using cur by (simp add: cursors_inv_def)
  have range0: "\<forall>ev\<in>set (hist_list s). subLimit \<le> evSeq ev \<and> evSeq ev < (rev s1 + 1) * subLimit"
    using cursors_inv_seq [OF cur] by (simp add: rev1)
  have "sub_inv ?w from (hist_list s) (s1, backlog, hist_list s)"
    unfolding sub_inv_def split
    using reachable.watch [OF assms(1,2) opened] assms(3) [folded rev1] start sorted0 range0
      trans [OF hist1 hist_list_short [OF sinv, symmetric]]
    by (intro conjI exI [of _ "[]"])
      (assumption | simp only: append_Nil2 | simp only: list.set ball_empty)+
  then have "sub_inv ?w from (hist_list s) (s2, got, evs)"
    by (rule sub_inv_run) (use run in \<open>simp add: wid\<close>)
  then obtain later where reach2: "reachable s2" and evs: "evs = hist_list s @ later"
    and later: "\<forall>ev\<in>set later. from < evSeq ev"
    and watch: "watch_inv wid ?w (backlog @ events_for ?w later) (s2, got)"
    and hist2: "hist_list s2 = last_n historyCapacity evs" and sorted: "sorted_wrt (<) (map evSeq evs)"
    and range: "\<forall>ev\<in>set evs. subLimit \<le> evSeq ev \<and> evSeq ev < (rev s2 + 1) * subLimit"
    by (auto simp: sub_inv_def wid backlog)
  have all: "backlog @ events_for ?w later = stream_from ns key from evs"
    using events_for_stream [OF later, of ?w] by (simp add: backlog evs stream_from_def)
  obtain rest where rest: "got @ rest = stream_from ns key from evs" and ok2: "hist_ok s2"
    using watch unfolding all by (force simp: watch_inv_def split: if_splits)
  have "rev s2 < maxIndex" "0 \<le> rev s2"
    using reachable_inv [OF reach2] by (auto simp: store_inv_def abs_inv_def maps_inv_def)
  then have "\<forall>ev\<in>set evs. 0 < evSeq ev \<and> is_int64 (evSeq ev)"
    using range by (fastforce simp: subLimit_def maxIndex_def is_int64_def)
  from resume_no_gap [OF ok2 hist2 sorted this rest \<open>got \<noteq> []\<close>] rest show ?thesis by blast
qed

theorem watch_resume_no_gap_witness:
  "\<exists>s1 s2 e1 e2. WatchKV ''a'' ''k'' 0 store1 = Inr (s1, Inr (1, [e1]))
    \<and> sub_run 1 [Entry 2000 (create_entry 2 0)] (s1, [e1], hist_list store1)
        = Inr (s2, [e1], hist_list store1 @ entry_events 2000 (create_entry 2 0) s1)
    \<and> stream_from ''a'' ''k'' 0 (hist_list store1 @ entry_events 2000 (create_entry 2 0) s1) = [e1, e2]
    \<and> (\<exists>s3 r. WatchKV ''a'' ''k'' 4096 s2 = Inr (s3, r)
         \<and> (r = Inl ErrRevisionCompacted \<or> (\<exists>wid. r = Inr (wid, [e2]))))"
proof -
  have inv: "store_inv store1" using store1_facts(1) by (rule reachable_inv)
  let ?s1 = "registered ''a'' ''k'' store1"
  have one: "add64 0 1 = 1" and seq: "add64 (mul64 1 subLimit) 0 = 4096" "add64 (mul64 2 subLimit) 0 = 8192"
    by (simp_all add: add64_def mul64_def wrap64_def subLimit_def)
  let ?e1 = "toWatchEvent \<lparr>evSeq = 4096, evKind = PUT, evKV = kvToPB ''a'' ''k'' entry1\<rparr>"
  have opened: "WatchKV ''a'' ''k'' 0 store1 = Inr (?s1, Inr (1, [?e1]))"
    using WatchKV_ok [of store1 "''a''" "''k''" 0] inv
    by (simp add: store_inv_def tables_ok_def store1_facts one stream_from_def matchKV_def kvToPB_def)
  have sel: "rev ?s1 = 1" "map_of (kvs ?s1) = Map.empty((''a'', ''k'') \<mapsto> entry1)"
    by (simp_all add: registered_def Let_def store1_facts)
  have reach: "reachable ?s1"
    using reachable.watch [OF store1_facts(1) _ opened] by (simp add: store1_facts is_int64_def)
  obtain s2 r where step: "applyOne StoreApplier 2000 (create_entry 2 0) ?s1 = Inr (s2, r)"
    using applyOne_store_inv [OF reachable_inv [OF reach], of "create_entry 2 0" 2000]
    by (auto simp: within_limit_def create_entry_def maxIndex_def sel)
  let ?evs = "hist_list store1 @ entry_events 2000 (create_entry 2 0) ?s1"
  have run: "sub_run 1 [Entry 2000 (create_entry 2 0)] (?s1, [?e1], hist_list store1) = Inr (s2, [?e1], ?evs)"
    using step by (simp add: sel create_entry_def maxIndex_def)
  obtain e2 where stream: "stream_from ''a'' ''k'' 0 ?evs = [?e1, e2]"
    by (simp add: entry_events_def create_entry_def sel spec_put_def Let_def live_def aliveKV_def entry1_def
        cas_ok_def put_entry_def store1_facts stream_from_def matchKV_def kvToPB_def newEvent_def seq)
  from watch_resume_no_gap [OF store1_facts(1) _ _ opened run] stream
  have "\<exists>s3 r. WatchKV ''a'' ''k'' 4096 s2 = Inr (s3, r)
      \<and> (r = Inl ErrRevisionCompacted \<or> (\<exists>wid. r = Inr (wid, [e2])))"
    by (auto simp: store1_facts is_int64_def subLimit_def toWatchEvent_def)
  with opened run stream show ?thesis by blast
qed

end
