(* ===== verification/WatchServe.thy ===== *)
theory WatchServe
  imports ServerProps SubProps
begin

text \<open>
  The streaming handlers of a node: \<open>watchLoop\<close> (\<open>internal/server/watch.go\<close>), which serves the KV
  watches, and \<open>WatchInstances\<close> (\<open>registry.go\<close>). Each is a machine over the store whose turns are
  interleaved with log entries and with the calls of other subscribers. A turn is what the
  handler does between two points at which it can wait: a \<open>Send\<close> and the \<open>select\<close>.
\<close>

subsection \<open>watchLoop\<close>

text \<open>Where the loop is: sending the backlog, in the select over the live channel, or returned.
  \<open>wcSent\<close> is what the stream has accepted.\<close>

datatype serve_phase =
    WBacklog int64 "WatchEvent list"
  | WListen int64 chan_ref
  | WEnded srv_error

record WatchCall =
  wcNs :: string
  wcKey :: string
  wcCursor :: int64
  wcPhase :: serve_phase
  wcSent :: "WatchEvent list"

text \<open>What the environment does at a turn: the stream accepts a message or fails, or the context of
  the call is done.\<close>

datatype send_io = SendOk | SendFails string

datatype serve_case = Proceed send_io | CtxDone ctx_err

definition watch_subscribe :: "WatchCall \<Rightarrow> Store \<Rightarrow> (WatchCall \<times> Store) go" where
  "watch_subscribe c s = go_bind (WatchKV (wcNs c) (wcKey c) (wcCursor c) s) (\<lambda>(s', r).
     Inr (case r of
         Inl err \<Rightarrow> c\<lparr>wcPhase := WEnded (toGRPCError (ErrStore err))\<rparr>
       | Inr (wid, backlog) \<Rightarrow> c\<lparr>wcPhase := WBacklog wid backlog\<rparr>, s'))"

definition watch_call :: "WatchRequest \<Rightarrow> Store \<Rightarrow> (WatchCall \<times> Store) go" where
  "watch_call req s = watch_subscribe \<lparr>wcNs = wrNamespace req, wcKey = wrKey req,
     wcCursor = wrFromRevision req, wcPhase = WBacklog 0 [], wcSent = []\<rparr> s"

definition watch_return :: "int64 \<Rightarrow> srv_error \<Rightarrow> WatchCall \<Rightarrow> Store \<Rightarrow> (WatchCall \<times> Store) go" where
  "watch_return wid err c s = go_bind (CloseKVWatcher wid s) (\<lambda>s'. Inr (c\<lparr>wcPhase := WEnded err\<rparr>, s'))"

definition watch_send :: "int64 \<Rightarrow> send_io \<Rightarrow> WatchEvent \<Rightarrow> serve_phase \<Rightarrow> WatchCall \<Rightarrow> Store
    \<Rightarrow> (WatchCall \<times> Store) go" where
  "watch_send wid io ev after c s = (case io of
     SendFails err \<Rightarrow> watch_return wid (RawErr (ErrOther err)) c s
   | SendOk \<Rightarrow> Inr (c\<lparr>wcCursor := weRevision ev, wcPhase := after, wcSent := wcSent c @ [ev]\<rparr>, s))"

text \<open>None: the handler waits (or has returned).\<close>

definition watch_turn :: "serve_case \<Rightarrow> WatchCall \<Rightarrow> Store \<Rightarrow> (WatchCall \<times> Store) option go" where
  "watch_turn a c s = (case wcPhase c of
     WEnded e \<Rightarrow> Inr None
   | WBacklog wid todo \<Rightarrow> (case todo of
         ev # evs \<Rightarrow> (case a of
             Proceed io \<Rightarrow> go_bind (watch_send wid io ev (WBacklog wid evs) c s) (\<lambda>r. Inr (Some r))
           | CtxDone x \<Rightarrow> Inr None)
       | [] \<Rightarrow> (case KVWatcherChan wid s of
             None \<Rightarrow> go_bind (watch_subscribe c s) (\<lambda>r. Inr (Some r))
           | Some ch \<Rightarrow> Inr (Some (c\<lparr>wcPhase := WListen wid ch\<rparr>, s))))
   | WListen wid ch \<Rightarrow> (case a of
         CtxDone x \<Rightarrow> go_bind (watch_return wid (RawErr (ErrCtx x)) c s) (\<lambda>r. Inr (Some r))
       | Proceed io \<Rightarrow> (case kvChans s ch of
             None \<Rightarrow> Inr None
           | Some q \<Rightarrow> (case try_recv q of
                 RecvEmpty \<Rightarrow> Inr None
               | Received ev q' \<Rightarrow>
                   go_bind (watch_send wid io ev (WListen wid ch) c (recv_kv ch s)) (\<lambda>r. Inr (Some r))
               | RecvClosed \<Rightarrow> go_bind (CloseKVWatcher wid s)
                   (\<lambda>s1. go_bind (watch_subscribe c s1) (\<lambda>r. Inr (Some r)))))))"

subsection \<open>The handler among others\<close>

datatype serve_act =
    Log int64 LogEntry
  | Turn serve_case
  | OtherOpen string string int64
  | OtherClose int64
  | OtherTake int64

fun phase_id :: "serve_phase \<Rightarrow> int64 option" where
  "phase_id (WBacklog i todo) = Some i"
| "phase_id (WListen i ch) = Some i"
| "phase_id (WEnded e) = None"

text \<open>An entry at or below the applied revision is skipped, as the replicas do. The third component
  collects, for the statements only, all events in the order of emission. A subscriber has no
  handle on the channel of another one.\<close>

fun serve_step :: "serve_act \<Rightarrow> WatchCall \<times> Store \<times> Event list \<Rightarrow> (WatchCall \<times> Store \<times> Event list) go" where
  "serve_step (Log now e) (c, s, evs) =
    (if leIndex e \<le> rev s \<or> maxIndex \<le> leIndex e then Inr (c, s, evs)
     else go_bind (applyOne StoreApplier now e s) (\<lambda>(s', r). Inr (c, s', evs @ entry_events now e s)))"
| "serve_step (Turn a) (c, s, evs) = go_bind (watch_turn a c s) (\<lambda>r.
     Inr (case r of None \<Rightarrow> (c, s, evs) | Some (c', s') \<Rightarrow> (c', s', evs)))"
| "serve_step (OtherOpen ns key fromSeq) (c, s, evs) =
     go_bind (WatchKV ns key fromSeq s) (\<lambda>(s', r). Inr (c, s', evs))"
| "serve_step (OtherClose i) (c, s, evs) =
    (if phase_id (wcPhase c) = Some i then Inr (c, s, evs)
     else go_bind (CloseKVWatcher i s) (\<lambda>s'. Inr (c, s', evs)))"
| "serve_step (OtherTake i) (c, s, evs) =
    (if phase_id (wcPhase c) = Some i then Inr (c, s, evs) else Inr (c, recv_kv i s, evs))"

fun serve_run :: "serve_act list \<Rightarrow> WatchCall \<times> Store \<times> Event list \<Rightarrow> (WatchCall \<times> Store \<times> Event list) go" where
  "serve_run [] st = Inr st"
| "serve_run (a # as) st = go_bind (serve_step a st) (serve_run as)"

subsection \<open>Subscriptions seen from one handler\<close>

lemma sub_inv_prefix:
  assumes "sub_inv w from base (s, got, evs)"
  shows "\<exists>rest. got @ rest = stream_from (kwNs w) (kwKey w) from evs"
    and "\<forall>ev\<in>set evs. 0 < evSeq ev \<and> is_int64 (evSeq ev)"
proof -
  obtain later where reach: "reachable s" and evs: "evs = base @ later"
    and later: "\<forall>ev\<in>set later. from < evSeq ev"
    and watch: "watch_inv (kwCh w) w (stream_from (kwNs w) (kwKey w) from base @ events_for w later) (s, got)"
    and range: "\<forall>ev\<in>set evs. subLimit \<le> evSeq ev \<and> evSeq ev < (rev s + 1) * subLimit"
    using assms by (auto simp: sub_inv_def)
  have "stream_from (kwNs w) (kwKey w) from base @ events_for w later = stream_from (kwNs w) (kwKey w) from evs"
    using events_for_stream [OF later, of w] by (simp add: evs stream_from_def)
  with watch show "\<exists>rest. got @ rest = stream_from (kwNs w) (kwKey w) from evs"
    by (force simp: watch_inv_def split: if_splits)
  have "rev s < maxIndex" "0 \<le> rev s"
    using reachable_inv [OF reach] by (auto simp: store_inv_def abs_inv_def maps_inv_def)
  with range show "\<forall>ev\<in>set evs. 0 < evSeq ev \<and> is_int64 (evSeq ev)"
    by (fastforce simp: subLimit_def maxIndex_def is_int64_def)
qed

lemma sub_inv_channel:
  assumes "sub_inv w from base (s, got, evs)"
  shows "\<exists>q rest. kvChans s (kwCh w) = Some q \<and> got @ chBuf q @ rest = stream_from (kwNs w) (kwKey w) from evs
    \<and> (\<not> chClosed q \<longrightarrow> rest = [])"
proof -
  obtain later where evs: "evs = base @ later" and later: "\<forall>ev\<in>set later. from < evSeq ev"
    and watch: "watch_inv (kwCh w) w (stream_from (kwNs w) (kwKey w) from base @ events_for w later) (s, got)"
    using assms(1) by (auto simp: sub_inv_def)
  have "stream_from (kwNs w) (kwKey w) from base @ events_for w later = stream_from (kwNs w) (kwKey w) from evs"
    using events_for_stream [OF later, of w] by (simp add: evs stream_from_def)
  with watch show ?thesis
    by (cases "map_of (kvWatchers s) (kwCh w) = Some w") (fastforce simp: watch_inv_def intro: exI [of _ "[]"])+
qed

lemma sub_inv_frame:
  assumes "sub_inv w from base (s, got, evs)" and "reachable s'"
    and "rev s' = rev s" and "hist_list s' = hist_list s"
    and "kvChans s' (kwCh w) = kvChans s (kwCh w)" and "map_of (kvWatchers s') (kwCh w) = map_of (kvWatchers s) (kwCh w)"
  shows "sub_inv w from base (s', got, evs)"
proof -
  have ok: "watchers_ok s'" "hist_ok s'"
    using reachable_inv [OF assms(2)] by (auto simp: store_inv_def tables_ok_def)
  have "watch_inv (kwCh w) w sent (s', got)" if "watch_inv (kwCh w) w sent (s, got)" for sent
    using that ok unfolding watch_inv_def split assms(5,6) by blast
  with assms(1-4) show ?thesis by (auto simp: sub_inv_def)
qed

abbreviation (input) own_watcher :: "string \<Rightarrow> string \<Rightarrow> int64 \<Rightarrow> kvWatcher" where
  "own_watcher ns key i \<equiv> \<lparr>kwNs = ns, kwKey = key, kwCh = i\<rparr>"

lemma registered_sel:
  "rev (registered ns key s) = rev s" "hist_list (registered ns key s) = hist_list s"
  by (simp_all add: registered_def Let_def)

text \<open>Where a subscription starts: \<open>evs\<close> are the events so far, of which the ring retains the end.\<close>

lemma sub_inv_opened:
  assumes reach: "reachable s" and seq: "is_int64 (watcherSeq s + 1)" and lo: "from < (rev s + 1) * subLimit"
    and hist: "hist_list s = last_n historyCapacity evs" and sorted: "sorted_wrt (<) (map evSeq evs)"
    and range: "\<forall>ev\<in>set evs. subLimit \<le> evSeq ev \<and> evSeq ev < (rev s + 1) * subLimit"
    and got: "got = stream_from ns key from evs" and s': "WatchKV ns key c s = Inr (s', Inr r)"
  shows "sub_inv (own_watcher ns key (watcherSeq s + 1)) from evs (s', got, evs)"
proof -
  have ok: "hist_ok s" "watchers_ok s"
    using reachable_inv [OF reach] by (auto simp: store_inv_def tables_ok_def)
  have reg: "s' = registered ns key s"
    using s' WatchKV_ok [OF ok(1), of ns key c] by (auto split: if_splits)
  have reach': "reachable s'" by (rule reachable.watch [OF reach seq s'])
  have "watch_inv (watcherSeq s + 1) (own_watcher ns key (watcherSeq s + 1)) got (s', got)"
    unfolding reg by (rule watch_inv_registered [OF ok seq])
  then show ?thesis
    using reach' lo hist sorted range
    by (simp add: sub_inv_def events_for_def reg registered_sel got [symmetric])
qed

text \<open>A new subscription at the cursor of the handler continues the stream. Only if nothing was sent
  and the call asked for the retained history may it start later.\<close>

lemma sub_inv_reopened:
  assumes inv: "sub_inv (own_watcher ns key i) from base (s, got, evs)" and seq: "is_int64 (watcherSeq s + 1)"
    and c: "c = (if got = [] then from else weRevision (last got))"
  shows "WatchKV ns key c s = Inr (s, Inl ErrRevisionCompacted)
    \<or> (\<exists>s' rest pre evs'. WatchKV ns key c s = Inr (s', Inr (watcherSeq s + 1, rest))
        \<and> evs = pre @ evs' \<and> (0 < from \<longrightarrow> pre = []) \<and> (got \<noteq> [] \<longrightarrow> pre = [])
        \<and> sub_inv (own_watcher ns key (watcherSeq s + 1)) from evs' (s', got @ rest, evs'))"
proof -
  have reach: "reachable s" and lo: "from < (rev s + 1) * subLimit"
    and hist: "hist_list s = last_n historyCapacity evs" and sorted: "sorted_wrt (<) (map evSeq evs)"
    and range: "\<forall>ev\<in>set evs. subLimit \<le> evSeq ev \<and> evSeq ev < (rev s + 1) * subLimit"
    using inv by (auto simp: sub_inv_def)
  have ok: "hist_ok s" using reachable_inv [OF reach] by (simp add: store_inv_def tables_ok_def)
  note sane = sub_inv_prefix(2) [OF inv]
  obtain rest where rest: "got @ rest = stream_from ns key from evs"
    using sub_inv_prefix(1) [OF inv] by auto
  have id: "add64 (watcherSeq s) 1 = watcherSeq s + 1" using seq by (simp add: add64_def wrap64_id)
  note opened = sub_inv_opened [OF reach seq lo]
  consider (some) "got \<noteq> []" | (compacted) "got = []" "0 < from" "from < horizon s"
    | (kept) "got = []" "0 < from" "\<not> from < horizon s" | (all) "got = []" "\<not> 0 < from" by blast
  then show ?thesis
  proof cases
    case some
    with resume_no_gap [OF ok hist sorted sane rest some] c obtain s3 r where
      r: "WatchKV ns key c s = Inr (s3, r)" "r = Inl ErrRevisionCompacted \<or> (\<exists>wid'. r = Inr (wid', rest))" by auto
    with WatchKV_ok [OF ok, of ns key c] id
    have "WatchKV ns key c s = Inr (s, Inl ErrRevisionCompacted)
        \<or> WatchKV ns key c s = Inr (s3, Inr (watcherSeq s + 1, rest))" by (auto split: if_splits)
    then show ?thesis
      using opened [OF hist sorted range rest] by (metis append_Nil)
  next
    case compacted
    with WatchKV_ok [OF ok, of ns key c] c show ?thesis by simp
  next
    case kept
    have "stream_from ns key from (hist_list s) = stream_from ns key from evs"
    proof (cases "hist_list s = []")
      case True
      with hist historyCapacity_pos have "evs = []" by (metis length_0_conv length_last_n min_0L min.commute
            less_nat_zero_code min_def linorder_not_less)
      with True show ?thesis by simp
    next
      case False
      with kept(3) have "sub64 (evSeq (List.hd (hist_list s))) 1 \<le> from"
        by (simp add: horizon_def split: list.splits)
      from stream_from_retained [OF sorted sane hist False this] show ?thesis .
    qed
    with kept WatchKV_ok [OF ok, of ns key c] c id rest
    have w: "WatchKV ns key c s = Inr (registered ns key s, Inr (watcherSeq s + 1, rest))" by simp
    from opened [OF hist sorted range rest w] w show ?thesis by (metis append_Nil)
  next
    case all
    have w: "WatchKV ns key c s = Inr (registered ns key s, Inr (watcherSeq s + 1, stream_from ns key from (hist_list s)))"
      using all WatchKV_ok [OF ok, of ns key c] c id by simp
    obtain pre where pre: "evs = pre @ hist_list s" using last_n_suffix hist by metis
    have keep: "hist_list s = last_n historyCapacity (hist_list s)"
      using hist_list_short [OF reachable_inv [OF reach]] by simp
    have "sub_inv (own_watcher ns key (watcherSeq s + 1)) from (hist_list s)
        (registered ns key s, got @ stream_from ns key from (hist_list s), hist_list s)"
      by (rule opened [OF keep _ _ _ w]) (use sorted range all pre in \<open>auto simp: sorted_wrt_append\<close>)
    with w pre all show ?thesis by blast
  qed
qed

subsection \<open>The invariant of a run\<close>

fun act_error :: "serve_act \<Rightarrow> go_error option" where
  "act_error (Turn (Proceed (SendFails x))) = Some (ErrOther x)"
| "act_error (Turn (CtxDone x)) = Some (ErrCtx x)"
| "act_error a = None"

definition phase_inv :: "go_error set \<Rightarrow> int64 \<Rightarrow> WatchCall \<Rightarrow> Store \<Rightarrow> Event list \<Rightarrow> bool" where
  "phase_inv errs from c s evs = (case wcPhase c of
     WBacklog i todo \<Rightarrow> \<exists>base. sub_inv (own_watcher (wcNs c) (wcKey c) i) from base (s, wcSent c @ todo, evs)
   | WListen i ch \<Rightarrow> ch = i \<and> (\<exists>base. sub_inv (own_watcher (wcNs c) (wcKey c) i) from base (s, wcSent c, evs))
   | WEnded e \<Rightarrow> (\<exists>rest. wcSent c @ rest = stream_from (wcNs c) (wcKey c) from evs)
       \<and> (e = toGRPCError (ErrStore ErrRevisionCompacted) \<or> (\<exists>x\<in>errs. e = RawErr x)))"

definition serve_inv :: "go_error set \<Rightarrow> int64 \<Rightarrow> WatchCall \<times> Store \<times> Event list \<Rightarrow> bool" where
  "serve_inv errs from = (\<lambda>(c, s, evs). reachable s
     \<and> wcCursor c = (if wcSent c = [] then from else weRevision (last (wcSent c)))
     \<and> (\<exists>pre evs'. evs = pre @ evs' \<and> (0 < from \<longrightarrow> pre = []) \<and> phase_inv errs from c s evs'))"

lemma serve_invI:
  assumes "reachable s" and "wcCursor c = (if wcSent c = [] then from else weRevision (last (wcSent c)))"
    and "evs = pre @ evs'" and "0 < from \<longrightarrow> pre = []" and "phase_inv errs from c s evs'"
  shows "serve_inv errs from (c, s, evs)"
  using assms unfolding serve_inv_def by blast

lemma serve_inv_subscribe:
  assumes sub: "sub_inv (own_watcher (wcNs c) (wcKey c) i) from base (s, wcSent c, evs')"
    and seq: "is_int64 (watcherSeq s + 1)"
    and cur: "wcCursor c = (if wcSent c = [] then from else weRevision (last (wcSent c)))"
    and evs: "evs = pre @ evs'" "0 < from \<longrightarrow> pre = []"
  shows "\<exists>c' s'. watch_subscribe c s = Inr (c', s') \<and> serve_inv errs from (c', s', evs)
    \<and> watcherSeq s \<le> watcherSeq s' \<and> watcherSeq s' \<le> watcherSeq s + 1"
proof -
  have reach: "reachable s" using sub by (simp add: sub_inv_def)
  from sub_inv_reopened [OF sub seq cur] show ?thesis
  proof (elim disjE exE conjE)
    assume w: "WatchKV (wcNs c) (wcKey c) (wcCursor c) s = Inr (s, Inl ErrRevisionCompacted)"
    have "\<exists>rest. wcSent c @ rest = stream_from (wcNs c) (wcKey c) from evs'"
      using sub_inv_prefix(1) [OF sub] by simp
    with w reach cur evs show ?thesis
      by (fastforce simp: watch_subscribe_def serve_inv_def phase_inv_def)
  next
    fix s' rest pre' evs''
    assume w: "WatchKV (wcNs c) (wcKey c) (wcCursor c) s = Inr (s', Inr (watcherSeq s + 1, rest))"
      and evs': "evs' = pre' @ evs''" "0 < from \<longrightarrow> pre' = []"
      and sub': "sub_inv (own_watcher (wcNs c) (wcKey c) (watcherSeq s + 1)) from evs'' (s', wcSent c @ rest, evs'')"
    have "reachable s'" by (rule reachable.watch [OF reach seq w])
    moreover have "watcherSeq s' = watcherSeq s + 1"
    proof -
      have "hist_ok s" using reachable_inv [OF reach] by (simp add: store_inv_def tables_ok_def)
      from WatchKV_ok [OF this, of "wcNs c" "wcKey c" "wcCursor c"] w seq show ?thesis
        by (auto simp: registered_def Let_def add64_def wrap64_id split: if_splits)
    qed
    moreover have "serve_inv errs from (c\<lparr>wcPhase := WBacklog (watcherSeq s + 1) rest\<rparr>, s', evs)"
      by (rule serve_invI [of _ _ _ _ "pre @ pre'" evs''])
        (use calculation(1) cur sub' evs evs' in \<open>auto simp: phase_inv_def\<close>)
    ultimately show ?thesis using w by (simp add: watch_subscribe_def)
  qed
qed

lemma CloseKVWatcher_frame:
  assumes "reachable s" and "i \<noteq> j"
  shows "\<exists>s'. CloseKVWatcher i s = Inr s' \<and> reachable s' \<and> rev s' = rev s \<and> hist_list s' = hist_list s
    \<and> watcherSeq s' = watcherSeq s
    \<and> kvChans s' j = kvChans s j \<and> map_of (kvWatchers s') j = map_of (kvWatchers s) j"
proof -
  have ok: "watchers_ok s" using reachable_inv [OF assms(1)] by (simp add: store_inv_def tables_ok_def)
  obtain s' where s': "CloseKVWatcher i s = Inr s'" using CloseKVWatcher_ok [OF ok] by blast
  with reachable.unwatch [OF assms(1) s'] close_sub_ok [OF ok, of i] assms(2) show ?thesis
    by (auto simp: CloseKVWatcher_def map_of_AList_delete split: option.splits)
qed

lemma recv_kv_frame:
  "rev (recv_kv i s) = rev s" "hist_list (recv_kv i s) = hist_list s" "watcherSeq (recv_kv i s) = watcherSeq s"
  "kvWatchers (recv_kv i s) = kvWatchers s" "i \<noteq> j \<Longrightarrow> kvChans (recv_kv i s) j = kvChans s j"
  by (auto simp: recv_kv_def split: option.splits recv_outcome.splits)

lemma serve_inv_return:
  assumes "reachable s" and "wcSent c @ rest = stream_from (wcNs c) (wcKey c) from evs'"
    and "wcCursor c = (if wcSent c = [] then from else weRevision (last (wcSent c)))"
    and "evs = pre @ evs'" "0 < from \<longrightarrow> pre = []" and "x \<in> errs"
  shows "\<exists>c' s'. watch_return i (RawErr x) c s = Inr (c', s') \<and> serve_inv errs from (c', s', evs)
    \<and> watcherSeq s' = watcherSeq s"
proof -
  obtain s' where "CloseKVWatcher i s = Inr s'" "reachable s'" "watcherSeq s' = watcherSeq s"
    using CloseKVWatcher_frame [OF assms(1), of i "i + 1"] by auto
  with assms show ?thesis by (fastforce simp: watch_return_def serve_inv_def phase_inv_def)
qed

definition seq_step :: "Store \<Rightarrow> Store \<Rightarrow> bool" where
  "seq_step s s' \<longleftrightarrow> watcherSeq s \<le> watcherSeq s' \<and> watcherSeq s' \<le> watcherSeq s + 1"

text \<open>A send from a phase in which \<open>ev\<close> is the next message.\<close>

lemma serve_inv_send:
  assumes reach: "reachable s" and msg: "wcSent c @ [ev] @ rest = stream_from (wcNs c) (wcKey c) from evs'"
    and cur: "wcCursor c = (if wcSent c = [] then from else weRevision (last (wcSent c)))"
    and evs: "evs = pre @ evs'" "0 < from \<longrightarrow> pre = []" and err: "\<forall>x. io = SendFails x \<longrightarrow> ErrOther x \<in> errs"
    and ok: "phase_inv errs from (c\<lparr>wcPhase := after, wcSent := wcSent c @ [ev]\<rparr>) s evs'"
  shows "\<exists>c' s'. watch_send i io ev after c s = Inr (c', s') \<and> serve_inv errs from (c', s', evs) \<and> seq_step s s'"
proof (cases io)
  case SendOk
  have "phase_inv errs from (c\<lparr>wcCursor := weRevision ev, wcPhase := after, wcSent := wcSent c @ [ev]\<rparr>) s evs'"
    using ok by (cases after) (simp_all add: phase_inv_def)
  with SendOk reach evs show ?thesis
    by (auto simp: watch_send_def seq_step_def intro!: serve_invI)
next
  case (SendFails x)
  from serve_inv_return [OF reach msg cur evs, of "ErrOther x" errs i] err SendFails show ?thesis
    by (auto simp: watch_send_def seq_step_def)
qed

lemma serve_inv_turn:
  assumes inv: "serve_inv errs from (c, s, evs)" and seq: "is_int64 (watcherSeq s + 1)"
    and err: "\<forall>x. act_error (Turn a) = Some x \<longrightarrow> x \<in> errs"
  shows "\<exists>r. watch_turn a c s = Inr r
    \<and> (\<forall>c' s'. r = Some (c', s') \<longrightarrow> serve_inv errs from (c', s', evs) \<and> seq_step s s')"
proof -
  obtain pre evs' where reach: "reachable s"
    and cur: "wcCursor c = (if wcSent c = [] then from else weRevision (last (wcSent c)))"
    and evs: "evs = pre @ evs'" "0 < from \<longrightarrow> pre = []" and ph: "phase_inv errs from c s evs'"
    using inv by (auto simp: serve_inv_def)
  have fails: "\<forall>x. io = SendFails x \<longrightarrow> ErrOther x \<in> errs" if "a = Proceed io" for io
    using err that by simp
  show ?thesis
  proof (cases "wcPhase c")
    case (WBacklog i todo)
    then obtain base where sub: "sub_inv (own_watcher (wcNs c) (wcKey c) i) from base (s, wcSent c @ todo, evs')"
      using ph by (auto simp: phase_inv_def)
    show ?thesis
    proof (cases todo)
      case (Cons ev todo')
      obtain rest where rest: "wcSent c @ [ev] @ rest = stream_from (wcNs c) (wcKey c) from evs'"
        using sub_inv_prefix(1) [OF sub] by (auto simp: Cons)
      have after: "phase_inv errs from (c\<lparr>wcPhase := WBacklog i todo', wcSent := wcSent c @ [ev]\<rparr>) s evs'"
        using sub by (auto simp: phase_inv_def Cons)
      show ?thesis
      proof (cases a)
        case (Proceed io)
        from serve_inv_send [OF reach rest cur evs fails [OF Proceed] after, of i] show ?thesis
          by (auto simp: watch_turn_def WBacklog Cons Proceed)
      qed (simp add: watch_turn_def WBacklog Cons)
    next
      case Nil
      show ?thesis
      proof (cases "KVWatcherChan i s")
        case None
        from serve_inv_subscribe [OF sub [unfolded Nil append_Nil2] seq cur evs, of errs] show ?thesis
          by (auto simp: watch_turn_def WBacklog Nil None seq_step_def)
      next
        case (Some ch)
        have "ch = i" using Some sub by (auto simp: KVWatcherChan_def sub_inv_def watch_inv_def split: if_splits)
        then have "phase_inv errs from (c\<lparr>wcPhase := WListen i ch\<rparr>) s evs'"
          using sub by (auto simp: phase_inv_def Nil)
        then have "serve_inv errs from (c\<lparr>wcPhase := WListen i ch\<rparr>, s, evs)"
          using reach cur evs by (intro serve_invI) auto
        then show ?thesis by (simp add: watch_turn_def WBacklog Nil Some seq_step_def)
      qed
    qed
  next
    case (WListen i ch)
    then obtain base where ch: "ch = i" and sub: "sub_inv (own_watcher (wcNs c) (wcKey c) i) from base (s, wcSent c, evs')"
      using ph by (auto simp: phase_inv_def)
    obtain rest where rest: "wcSent c @ rest = stream_from (wcNs c) (wcKey c) from evs'"
      using sub_inv_prefix(1) [OF sub] by auto
    show ?thesis
    proof (cases a)
      case (CtxDone x)
      from serve_inv_return [OF reach rest cur evs, of "ErrCtx x" errs i] err CtxDone show ?thesis
        by (auto simp: watch_turn_def WListen seq_step_def)
    next
      case (Proceed io)
      obtain q where q: "kvChans s i = Some q" using sub by (auto simp: sub_inv_def watch_inv_def)
      show ?thesis
      proof (cases "try_recv q")
        case RecvEmpty
        then show ?thesis by (simp add: watch_turn_def WListen Proceed ch q)
      next
        case RecvClosed
        then have "chClosed q" by (auto simp: try_recv_def split: list.splits if_splits)
        moreover have "watchers_ok s" using reachable_inv [OF reach] by (simp add: store_inv_def tables_ok_def)
        ultimately have "map_of (kvWatchers s) i = None"
          using subs_okD(2) [of kwCh "watcherSeq s" "kvWatchers s" "kvChans s" i] q
          by (cases "map_of (kvWatchers s) i") (auto simp: chan_live_def)
        then have "CloseKVWatcher i s = Inr s" by (simp add: CloseKVWatcher_def close_sub_def)
        with serve_inv_subscribe [OF sub seq cur evs, of errs] RecvClosed show ?thesis
          by (auto simp: watch_turn_def WListen Proceed ch q seq_step_def)
      next
        case (Received ev q')
        have sub': "sub_inv (own_watcher (wcNs c) (wcKey c) i) from base (recv_kv i s, wcSent c @ [ev], evs')"
          using sub_inv_take [OF sub, simplified, OF q Received] .
        obtain rest' where rest': "wcSent c @ [ev] @ rest' = stream_from (wcNs c) (wcKey c) from evs'"
          using sub_inv_prefix(1) [OF sub'] by auto
        have after: "phase_inv errs from (c\<lparr>wcPhase := WListen i i, wcSent := wcSent c @ [ev]\<rparr>) (recv_kv i s) evs'"
          using sub' by (auto simp: phase_inv_def)
        from serve_inv_send [OF reachable.receive [OF reach] rest' cur evs fails [OF Proceed] after, of i]
        show ?thesis
          by (auto simp: watch_turn_def WListen Proceed ch q Received seq_step_def recv_kv_frame)
      qed
    qed
  next
    case (WEnded e)
    then show ?thesis by (simp add: watch_turn_def)
  qed
qed

text \<open>What goes on around the handler.\<close>

lemma stream_from_append: "stream_from ns key c (xs @ ys) = stream_from ns key c xs @ stream_from ns key c ys"
  by (simp add: stream_from_def)

lemma phase_inv_frame:
  assumes "phase_inv errs from c s evs" and "reachable s'" and "rev s' = rev s" and "hist_list s' = hist_list s"
    and "\<And>i. phase_id (wcPhase c) = Some i \<Longrightarrow>
      kvChans s' i = kvChans s i \<and> map_of (kvWatchers s') i = map_of (kvWatchers s) i"
  shows "phase_inv errs from c s' evs"
proof (cases "wcPhase c")
  case (WBacklog i todo)
  with assms(1) obtain base where "sub_inv (own_watcher (wcNs c) (wcKey c) i) from base (s, wcSent c @ todo, evs)"
    by (auto simp: phase_inv_def)
  from sub_inv_frame [OF this assms(2-4)] assms(5) [of i] WBacklog show ?thesis by (auto simp: phase_inv_def)
next
  case (WListen i ch)
  with assms(1) obtain base where "ch = i" "sub_inv (own_watcher (wcNs c) (wcKey c) i) from base (s, wcSent c, evs)"
    by (auto simp: phase_inv_def)
  with sub_inv_frame [OF this(2) assms(2-4)] assms(5) [of i] WListen show ?thesis by (auto simp: phase_inv_def)
next
  case (WEnded e)
  with assms(1) show ?thesis by (simp add: phase_inv_def)
qed

lemma phase_inv_entry:
  assumes "phase_inv errs from c s evs" and "rev s < leIndex e" and "leIndex e < maxIndex"
    and "applyOne StoreApplier now e s = Inr (s', r)"
  shows "phase_inv errs from c s' (evs @ entry_events now e s)"
proof (cases "wcPhase c")
  case (WBacklog i todo)
  with assms sub_inv_entry [OF _ assms(2-4)] show ?thesis by (fastforce simp: phase_inv_def)
next
  case (WListen i ch)
  with assms sub_inv_entry [OF _ assms(2-4)] show ?thesis by (fastforce simp: phase_inv_def)
next
  case (WEnded err)
  with assms(1) obtain rest where "wcSent c @ rest = stream_from (wcNs c) (wcKey c) from evs"
    "err = toGRPCError (ErrStore ErrRevisionCompacted) \<or> (\<exists>x\<in>errs. err = RawErr x)" by (auto simp: phase_inv_def)
  then have "wcSent c @ rest @ stream_from (wcNs c) (wcKey c) from new = stream_from (wcNs c) (wcKey c) from (evs @ new)" for new
    by (simp add: stream_from_append flip: append_assoc)
  with WEnded \<open>err = _ \<or> _\<close> show ?thesis unfolding phase_inv_def by auto
qed

lemma own_subscription:
  assumes "phase_inv errs from c s evs" and "phase_id (wcPhase c) = Some i"
  shows "kvChans s i \<noteq> None"
  using assms by (cases "wcPhase c") (auto simp: phase_inv_def sub_inv_def watch_inv_def)

lemma serve_inv_step:
  assumes inv: "serve_inv errs from (c, s, evs)" and seq: "is_int64 (watcherSeq s + 1)"
    and fits: "\<forall>now e. a = Log now e \<longrightarrow> store_fits e" and err: "\<forall>x. act_error a = Some x \<longrightarrow> x \<in> errs"
  shows "\<exists>c' s' evs'. serve_step a (c, s, evs) = Inr (c', s', evs') \<and> serve_inv errs from (c', s', evs') \<and> seq_step s s'"
proof -
  obtain pre late where reach: "reachable s"
    and cur: "wcCursor c = (if wcSent c = [] then from else weRevision (last (wcSent c)))"
    and evs: "evs = pre @ late" "0 < from \<longrightarrow> pre = []" and ph: "phase_inv errs from c s late"
    using inv by (auto simp: serve_inv_def)
  have sinv: "store_inv s" using reach by (rule reachable_inv)
  then have ok: "hist_ok s" "watchers_ok s" by (auto simp: store_inv_def tables_ok_def)
  show ?thesis
  proof (cases a)
    case (Log now e)
    show ?thesis
    proof (cases "leIndex e \<le> rev s \<or> maxIndex \<le> leIndex e")
      case True
      with inv Log show ?thesis by (auto simp: seq_step_def)
    next
      case False
      then have idx: "rev s < leIndex e" "leIndex e < maxIndex" by auto
      have "within_limit e s" using fits Log by (simp add: store_fits_within)
      from applyOne_store_inv [OF sinv this idx, of now] obtain s' r where
        step: "applyOne StoreApplier now e s = Inr (s', r)" by blast
      have "serve_inv errs from (c, s', evs @ entry_events now e s)"
        using reachable.apply_entry [OF reach idx step] cur evs phase_inv_entry [OF ph idx step]
        by (intro serve_invI [of _ _ _ _ pre "late @ entry_events now e s"]) auto
      moreover have "watcherSeq s' = watcherSeq s"
      proof -
        have "watcherSeq (fold push es t) = watcherSeq t" for es t by (induction es arbitrary: t) simp_all
        with applyOne_stream [OF sinv step] show ?thesis by (simp add: same_stream_def)
      qed
      ultimately show ?thesis using False step Log by (auto simp: seq_step_def)
    qed
  next
    case (Turn b)
    from serve_inv_turn [OF inv seq, of b] err Turn obtain r where
      "watch_turn b c s = Inr r" "\<forall>c' s'. r = Some (c', s') \<longrightarrow> serve_inv errs from (c', s', evs) \<and> seq_step s s'" by auto
    with inv Turn show ?thesis by (cases r) (auto simp: seq_step_def)
  next
    case (OtherOpen ns key f)
    obtain s' r where w: "WatchKV ns key f s = Inr (s', r)" using WatchKV_ok [OF ok(1), of ns key f] by (metis surj_pair)
    then have s': "s' = s \<or> s' = registered ns key s" using WatchKV_ok [OF ok(1), of ns key f] by (auto split: if_splits)
    have "kvChans s' i = kvChans s i \<and> map_of (kvWatchers s') i = map_of (kvWatchers s) i"
      if "phase_id (wcPhase c) = Some i" for i
    proof -
      have "i \<noteq> watcherSeq s + 1"
        using own_subscription [OF ph that] ok(2) unfolding subs_ok_def by force
      with s' seq show ?thesis by (auto simp: registered_def Let_def add64_def wrap64_id)
    qed
    then have "phase_inv errs from c s' late"
      using s' by (intro phase_inv_frame [OF ph reachable.watch [OF reach seq w]]) (auto simp: registered_sel)
    then have "serve_inv errs from (c, s', evs)"
      using reachable.watch [OF reach seq w] cur evs by (intro serve_invI) auto
    moreover have "seq_step s s'" using s' seq by (auto simp: seq_step_def registered_def Let_def add64_def wrap64_id)
    ultimately show ?thesis using w OtherOpen by simp
  next
    case (OtherClose i)
    show ?thesis
    proof (cases "phase_id (wcPhase c)")
      case None
      obtain s' where "CloseKVWatcher i s = Inr s'" "reachable s'" "rev s' = rev s" "hist_list s' = hist_list s"
          "watcherSeq s' = watcherSeq s"
        using CloseKVWatcher_frame [OF reach, of i "i + 1"] by auto
      with phase_inv_frame [OF ph, of s'] None cur evs show ?thesis
        by (auto simp: OtherClose seq_step_def intro!: serve_invI)
    next
      case (Some j)
      show ?thesis
      proof (cases "i = j")
        case True
        with Some inv OtherClose show ?thesis by (simp add: seq_step_def)
      next
        case False
        obtain s' where "CloseKVWatcher i s = Inr s'" "reachable s'" "rev s' = rev s" "hist_list s' = hist_list s"
            "watcherSeq s' = watcherSeq s" "kvChans s' j = kvChans s j" "map_of (kvWatchers s') j = map_of (kvWatchers s) j"
          using CloseKVWatcher_frame [OF reach False] by auto
        with phase_inv_frame [OF ph, of s'] Some False cur evs show ?thesis
          by (auto simp: OtherClose seq_step_def intro!: serve_invI)
      qed
    qed
  next
    case (OtherTake i)
    show ?thesis
    proof (cases "phase_id (wcPhase c) = Some i")
      case True
      with inv OtherTake show ?thesis by (simp add: seq_step_def)
    next
      case False
      have "phase_inv errs from c (recv_kv i s) late"
        using False by (intro phase_inv_frame [OF ph reachable.receive [OF reach]]) (auto simp: recv_kv_frame)
      with reachable.receive [OF reach] cur evs False show ?thesis
        by (auto simp: OtherTake seq_step_def recv_kv_frame intro!: serve_invI)
    qed
  qed
qed

lemma serve_inv_run:
  "serve_inv errs from st \<Longrightarrow> 0 \<le> watcherSeq (fst (snd st)) \<Longrightarrow> watcherSeq (fst (snd st)) + int (length as) < 2 ^ 63 \<Longrightarrow>
    \<forall>now e. Log now e \<in> set as \<longrightarrow> store_fits e \<Longrightarrow> \<forall>a\<in>set as. \<forall>x. act_error a = Some x \<longrightarrow> x \<in> errs \<Longrightarrow>
    \<exists>st'. serve_run as st = Inr st' \<and> serve_inv errs from st'"
proof (induction as arbitrary: st)
  case Nil
  then show ?case by simp
next
  case (Cons a as)
  obtain c s evs where st: "st = (c, s, evs)" by (metis prod_cases3)
  have "is_int64 (watcherSeq s + 1)" using Cons.prems(2,3) by (simp add: st is_int64_def)
  with Cons.prems obtain c' s' evs' where step: "serve_step a st = Inr (c', s', evs')"
    "serve_inv errs from (c', s', evs')" "seq_step s s'"
    using serve_inv_step [of errs "from" c s evs a] by (auto simp: st)
  have "0 \<le> watcherSeq s'" "watcherSeq s' + int (length as) < 2 ^ 63"
    using step(3) Cons.prems(2,3) by (auto simp: seq_step_def st)
  with Cons.IH [OF step(2)] Cons.prems(4,5) step(1) show ?case by simp
qed

lemma watch_turn_call:
  "watch_turn a c s = Inr (Some (c', s')) \<Longrightarrow> wcNs c' = wcNs c \<and> wcKey c' = wcKey c"
proof -
  have sub: "watch_subscribe c t = Inr (c', s') \<Longrightarrow> wcNs c' = wcNs c \<and> wcKey c' = wcKey c" for t
    by (auto simp: watch_subscribe_def go_bind_Inr_iff split: sum.split)
  have ret: "watch_return i e c t = Inr (c', s') \<Longrightarrow> wcNs c' = wcNs c \<and> wcKey c' = wcKey c" for i e t
    by (auto simp: watch_return_def go_bind_Inr_iff)
  have snd: "watch_send i io ev ph c t = Inr (c', s') \<Longrightarrow> wcNs c' = wcNs c \<and> wcKey c' = wcKey c" for i io ev ph t
    using ret by (auto simp: watch_send_def split: send_io.splits)
  show "watch_turn a c s = Inr (Some (c', s')) \<Longrightarrow> wcNs c' = wcNs c \<and> wcKey c' = wcKey c"
    by (auto simp: watch_turn_def go_bind_Inr_iff split: serve_phase.splits list.splits serve_case.splits
        option.splits recv_outcome.splits dest: sub ret snd)
qed

lemma serve_step_call:
  "serve_step a (c, s, evs) = Inr (c', s', evs') \<Longrightarrow>
    wcNs c' = wcNs c \<and> wcKey c' = wcKey c \<and> (\<exists>later. evs' = evs @ later)"
  by (cases a) (auto simp: go_bind_Inr_iff split: if_splits option.splits dest: watch_turn_call)

lemma serve_run_call:
  "serve_run as (c, s, evs) = Inr (c', s', evs') \<Longrightarrow>
    wcNs c' = wcNs c \<and> wcKey c' = wcKey c \<and> (\<exists>later. evs' = evs @ later)"
proof (induction as arbitrary: c s evs)
  case Nil
  then show ?case by simp
next
  case (Cons a as)
  then obtain c1 s1 evs1 where "serve_step a (c, s, evs) = Inr (c1, s1, evs1)" "serve_run as (c1, s1, evs1) = Inr (c', s', evs')"
    by (auto simp: go_bind_Inr_iff)
  with serve_step_call [OF this(1)] Cons.IH [OF this(2)] show ?case by auto
qed

lemma serve_inv_start:
  assumes reach: "reachable s" and lo: "wrFromRevision req < (rev s + 1) * subLimit" and seq: "is_int64 (watcherSeq s + 1)"
  shows "\<exists>c s'. watch_call req s = Inr (c, s') \<and> serve_inv errs (wrFromRevision req) (c, s', hist_list s)
    \<and> wcNs c = wrNamespace req \<and> wcKey c = wrKey req \<and> seq_step s s'"
proof -
  let ?ns = "wrNamespace req" and ?key = "wrKey req" and ?from = "wrFromRevision req"
  let ?c = "\<lparr>wcNs = ?ns, wcKey = ?key, wcCursor = ?from, wcPhase = WBacklog 0 [], wcSent = []\<rparr>"
  have sinv: "store_inv s" using reach by (rule reachable_inv)
  then have ok: "hist_ok s" and cur: "cursors_inv (abs_of s)" by (auto simp: store_inv_def tables_ok_def abs_inv_def)
  have id: "add64 (watcherSeq s) 1 = watcherSeq s + 1" using seq by (simp add: add64_def wrap64_id)
  have sorted: "sorted_wrt (<) (map evSeq (hist_list s))" using cur by (simp add: cursors_inv_def)
  have range: "\<forall>ev\<in>set (hist_list s). subLimit \<le> evSeq ev \<and> evSeq ev < (rev s + 1) * subLimit"
    using cursors_inv_seq [OF cur] by simp
  show ?thesis
  proof (cases "0 < ?from \<and> ?from < horizon s")
    case True
    let ?c' = "?c\<lparr>wcPhase := WEnded (toGRPCError (ErrStore ErrRevisionCompacted))\<rparr>"
    have "watch_call req s = Inr (?c', s)"
      using True by (simp add: watch_call_def watch_subscribe_def WatchKV_ok [OF ok])
    moreover have "serve_inv errs ?from (?c', s, hist_list s)"
      using reach by (intro serve_invI [of _ _ _ _ "[]" "hist_list s"]) (auto simp: phase_inv_def)
    ultimately show ?thesis by (simp add: seq_step_def)
  next
    case False
    let ?backlog = "stream_from ?ns ?key ?from (hist_list s)"
    let ?c' = "?c\<lparr>wcPhase := WBacklog (watcherSeq s + 1) ?backlog\<rparr>"
    have w: "WatchKV ?ns ?key ?from s = Inr (registered ?ns ?key s, Inr (watcherSeq s + 1, ?backlog))"
      using False id by (simp add: WatchKV_ok [OF ok])
    have "sub_inv (own_watcher ?ns ?key (watcherSeq s + 1)) ?from (hist_list s) (registered ?ns ?key s, ?backlog, hist_list s)"
      by (rule sub_inv_opened [OF reach seq lo hist_list_short [OF sinv, symmetric] sorted range refl w])
    then have "serve_inv errs ?from (?c', registered ?ns ?key s, hist_list s)"
      using reachable.watch [OF reach seq w]
      by (intro serve_invI [of _ _ _ _ "[]" "hist_list s"]) (auto simp: phase_inv_def)
    moreover have "watch_call req s = Inr (?c', registered ?ns ?key s)"
      by (simp add: watch_call_def watch_subscribe_def w)
    ultimately show ?thesis using id by (simp add: seq_step_def registered_def Let_def)
  qed
qed

subsection \<open>Properties\<close>



end
