(* ===== verification/ServeGaps.thy ===== *)
theory ServeGaps
  imports WatchServe RegistryProps
begin

text \<open>
  The machine of \<open>WatchInstances\<close> (\<open>internal/server/registry.go\<close>), and what the two streaming
  handlers do not tell their clients: an instance that registers again before its expired
  registration was swept, events that a snapshot jumps over, and a node that is behind the
  cursor of the client.
\<close>

subsection \<open>WatchInstances\<close>

datatype svc_phase =
    SSnapshot int64 "Instance list" chan_ref
  | SListen int64 chan_ref
  | SEnded srv_error

record InstancesCall =
  icNs :: string
  icService :: string
  icPhase :: svc_phase
  icSent :: "DiscoverResponse list"

definition snapshot_response :: "Instance list \<Rightarrow> Store \<Rightarrow> DiscoverResponse" where
  "snapshot_response ins s = \<lparr>dpInstances = ins, dpIncremental = False, dpAdded = [], dpRemoved = [],
     dpAppliedRevision = AppliedRevision s\<rparr>"

definition change_response :: "ServiceChange \<Rightarrow> Store \<Rightarrow> DiscoverResponse" where
  "change_response change s = \<lparr>dpInstances = [], dpIncremental = True, dpAdded = scAdded change,
     dpRemoved = scRemoved change, dpAppliedRevision = AppliedRevision s\<rparr>"

definition instances_subscribe :: "(svcKey \<Rightarrow> int64) \<Rightarrow> InstancesCall \<Rightarrow> Store \<Rightarrow> InstancesCall \<times> Store" where
  "instances_subscribe clk c s = (let (s', wid, snapshot, ch) = WatchService clk (icNs c) (icService c) s
     in (c\<lparr>icPhase := SSnapshot wid snapshot ch\<rparr>, s'))"

definition instances_call :: "(svcKey \<Rightarrow> int64) \<Rightarrow> DiscoverRequest \<Rightarrow> Store \<Rightarrow> InstancesCall \<times> Store" where
  "instances_call clk req s = instances_subscribe clk
     \<lparr>icNs = diNamespace req, icService = diService req, icPhase = SSnapshot 0 [] 0, icSent = []\<rparr> s"

definition instances_return :: "int64 \<Rightarrow> srv_error \<Rightarrow> InstancesCall \<Rightarrow> Store \<Rightarrow> (InstancesCall \<times> Store) go" where
  "instances_return wid err c s = go_bind (CloseServiceWatcher wid s) (\<lambda>s'. Inr (c\<lparr>icPhase := SEnded err\<rparr>, s'))"

definition instances_send :: "int64 \<Rightarrow> send_io \<Rightarrow> DiscoverResponse \<Rightarrow> svc_phase \<Rightarrow> InstancesCall \<Rightarrow> Store
    \<Rightarrow> (InstancesCall \<times> Store) go" where
  "instances_send wid io resp after c s = (case io of
     SendFails err \<Rightarrow> instances_return wid (RawErr (ErrOther err)) c s
   | SendOk \<Rightarrow> Inr (c\<lparr>icPhase := after, icSent := icSent c @ [resp]\<rparr>, s))"

text \<open>A turn, as in \<open>WatchServe\<close>. \<open>clk\<close> is the clock of a new snapshot.\<close>

definition instances_turn :: "(svcKey \<Rightarrow> int64) \<Rightarrow> serve_case \<Rightarrow> InstancesCall \<Rightarrow> Store
    \<Rightarrow> (InstancesCall \<times> Store) option go" where
  "instances_turn clk a c s = (case icPhase c of
     SEnded e \<Rightarrow> Inr None
   | SSnapshot wid snapshot ch \<Rightarrow> (case a of
         CtxDone x \<Rightarrow> Inr None
       | Proceed io \<Rightarrow> go_bind (instances_send wid io (snapshot_response snapshot s) (SListen wid ch) c s)
           (\<lambda>r. Inr (Some r)))
   | SListen wid ch \<Rightarrow> (case a of
         CtxDone x \<Rightarrow> go_bind (instances_return wid (RawErr (ErrCtx x)) c s) (\<lambda>r. Inr (Some r))
       | Proceed io \<Rightarrow> (case svcChans s ch of
             None \<Rightarrow> Inr None
           | Some q \<Rightarrow> (case try_recv q of
                 RecvEmpty \<Rightarrow> Inr None
               | Received change q' \<Rightarrow> go_bind (instances_send wid io (change_response change (recv_svc ch s))
                   (SListen wid ch) c (recv_svc ch s)) (\<lambda>r. Inr (Some r))
               | RecvClosed \<Rightarrow> go_bind (CloseServiceWatcher wid s)
                   (\<lambda>s1. Inr (Some (instances_subscribe clk c s1)))))))"

subsection \<open>Properties\<close>

text \<open>C30: A service watch is not told of a registration of an id that the store knows. The snapshot of a new
  watch has the old record if it is alive, and nothing if its lease has run out and the sweeper has not removed
  it yet. When the instance registers again, for example at a new address after a restart, every
  \<open>Discover\<close> returns the new record, but nothing is sent to the watcher, since the store announces only
  registrations of unknown ids: its view keeps the old address, or misses the instance for good.\<close>

theorem reregistration_unannounced:
  assumes "reachable s" and "is_int64 (watcherSeq s + 1)" and "rev s < index" and "index < maxIndex"
    and "map_of (instances s) (register_key op) = Some old"
    and "roExpireAtMs op = 0 \<or> now < roExpireAtMs op"
    and "req = \<lparr>diNamespace = roNamespace op, diService = roService op, diWatch = w\<rparr>"
  shows "\<exists>c s1 c2 s2. instances_call (\<lambda>_. now) req s = (c, s1)
    \<and> instances_turn clk (Proceed SendOk) c s1 = Inr (Some (c2, s1))
    \<and> (\<exists>snapshot. icSent c2 = [snapshot_response snapshot s1]
         \<and> {x \<in> set snapshot. inInstanceId x = roInstanceId op}
           = (if instAlive now old then {instToPB (roNamespace op) (roService op) (roInstanceId op) old} else {}))
    \<and> ApplyRegister index op s1 = Inr (s2, reg_outcome index op)
    \<and> reg_outcome index op \<in> set (Discover (\<lambda>_. now) (roNamespace op) (roService op) s2)
    \<and> instances_turn clk (Proceed SendOk) c2 s2 = Inr None"
proof -
  have sinv: "store_inv s" using assms(1) by (rule reachable_inv)
  have id: "add64 (watcherSeq s) 1 = watcherSeq s + 1" using assms(2) by (simp add: add64_def wrap64_id)
  let ?ns = "roNamespace op" and ?svc = "roService op" and ?iid = "roInstanceId op" and ?wid = "watcherSeq s + 1"
  obtain s1 snapshot where w: "WatchService (\<lambda>_. now) ?ns ?svc s = (s1, ?wid, snapshot, ?wid)"
    and s1: "instances s1 = instances s" "svcChans s1 ?wid = Some (make_chan watcherBuffer)" "rev s1 = rev s"
    and snapshot: "snapshot = discoverLocked (\<lambda>_. now) ?ns ?svc s"
    by (simp add: WatchService_def Let_def id discoverLocked_def)
  have sinv1: "store_inv s1" by (rule store_inv_watch_service [OF sinv assms(2) w])
  have uniq: "gomap_ok (instances s)" using sinv by (simp add: store_inv_def tables_ok_def)
  have view: "{x \<in> set snapshot. inInstanceId x = ?iid} = (if instAlive now old then {instToPB ?ns ?svc ?iid old} else {})"
  proof -
    have "((?ns, ?svc, ?iid), e) \<in> set (instances s) \<longleftrightarrow> e = old" for e
      using gomap_set_iff [OF uniq] assms(5) by auto
    then show ?thesis by (force simp: snapshot discoverLocked_def instToPB_def)
  qed
  let ?s2 = "register_store index op s1"
  have reg: "ApplyRegister index op s1 = Inr (?s2, reg_outcome index op)"
    using ApplyRegister_ok [of s1 index op] sinv1 assms(5)
    by (simp add: store_inv_def tables_ok_def s1 instToPB_def register_entry_def reg_outcome_def Let_def)
  have chan: "svcChans ?s2 ?wid = Some (make_chan watcherBuffer)" by (simp add: register_store_def s1)
  have "((?ns, ?svc, ?iid), register_entry index op) \<in> set (instances ?s2)"
    using in_set_update_iff [OF uniq] by (simp add: register_store_def s1)
  then have "reg_outcome index op \<in> set (Discover (\<lambda>_. now) ?ns ?svc ?s2)"
    using assms(6)
    by (force simp: Discover_def discoverLocked_def instAlive_def register_entry_def reg_outcome_def instToPB_def image_iff)
  then show ?thesis
    using w view reg chan
    by (auto simp: instances_call_def instances_subscribe_def assms(7) instances_turn_def instances_send_def try_recv_def make_chan_def)
qed


theorem reregistration_unannounced_witness:
  "\<exists>c s1 c2 s2. instances_call (\<lambda>_. 1000) \<lparr>diNamespace = ''a'', diService = ''s'', diWatch = True\<rparr> store2 = (c, s1)
    \<and> instances_turn (\<lambda>_. 1000) (Proceed SendOk) c s1 = Inr (Some (c2, s1))
    \<and> (\<exists>snapshot. icSent c2 = [snapshot_response snapshot s1] \<and> {x \<in> set snapshot. inInstanceId x = roInstanceId register_op} = {})
    \<and> ApplyRegister 2 (register_op\<lparr>roExpireAtMs := 0\<rparr>) s1 = Inr (s2, reg_outcome 2 (register_op\<lparr>roExpireAtMs := 0\<rparr>))
    \<and> instances_turn (\<lambda>_. 1000) (Proceed SendOk) c2 s2 = Inr None"
proof -
  let ?op = "register_op\<lparr>roExpireAtMs := 0\<rparr>"
  have "watcherSeq store2 = 0"
    using ApplyRegister_ok [of New 1 register_op] reachable_inv [OF reachable.init]
    by (simp add: store2_def store_inv_def tables_ok_def register_store_def svc_deliver_def Let_def New_def)
  then have seq: "is_int64 (watcherSeq store2 + 1)" by (simp add: is_int64_def)
  have old: "map_of (instances store2) (register_key ?op) = Some (register_entry 1 register_op)"
    using store2_facts(3) by (simp add: register_op_def)
  have "\<not> instAlive 1000 (register_entry 1 register_op)"
    by (simp add: instAlive_def register_entry_def register_op_def)
  with reregistration_unannounced [OF store2_facts(1) seq _ _ old, of 2 1000
      "\<lparr>diNamespace = ''a'', diService = ''s'', diWatch = True\<rparr>" True "\<lambda>_. 1000"]
  show ?thesis by (auto simp: store2_facts maxIndex_def register_op_def)
qed

text \<open>C31: A watch on a follower can skip events in silence. When a snapshot of the leader replaces the
  state of a follower, the comment of \<open>RestoreSnapshot\<close> says that all subscribers are removed; the
  code keeps them. A handler that listens is not told anything, however many events the snapshot
  jumped over, while a new subscription at the same cursor would be refused as compacted.\<close>

theorem restore_skips_watchers:
  assumes "reachable s" and "reachable t" and "rev s \<le> rev t"
    and "ApplySnapshot (Some (SnapshotToProto (ExportSnapshot t))) s = Inr s'"
    and "wcPhase c = WListen i ch" and "kvChans s ch = Some q" and "chBuf q = []" and "\<not> chClosed q"
  shows "rev s' = rev t \<and> map_of (kvs s') = map_of (kvs t) \<and> watch_turn (Proceed io) c s' = Inr None
    \<and> (0 < wcCursor c \<and> wcCursor c < rev t * subLimit \<longrightarrow>
         WatchKV (wcNs c) (wcKey c) (wcCursor c) s' = Inr (s', Inl ErrRevisionCompacted))"
proof -
  have inv: "store_inv s" "store_inv t" using assms(1,2) reachable_inv by auto
  have maps: "gomap_ok (kvs t)" "gomap_ok (instances t)" "metadata_ok t"
    using inv(2) by (auto simp: store_inv_def tables_ok_def)
  have s': "s' = restored t s"
    using assms(4) RestoreSnapshot_export [OF maps assms(3)] by (simp add: ApplySnapshot_def proto_export_id maps)
  have rev: "0 \<le> rev t" "rev t < maxIndex"
    using inv(2) store_inv_rev [OF inv(2)] by (auto simp: store_inv_def abs_inv_def)
  have base: "baselineSeq s' = rev t * subLimit + (subLimit - 1)"
  proof -
    have "is_int64 (rev t * subLimit)" "is_int64 (rev t * subLimit + (subLimit - 1))"
      using rev by (auto simp: is_int64_def subLimit_def maxIndex_def)
    then show ?thesis by (simp add: s' restored_def add64_def mul64_def wrap64_id)
  qed
  have ok: "hist_ok s'" "hist_list s' = []"
    using reachable_inv [OF reachable.restore [OF assms(1,2,4)]] by (auto simp: store_inv_def tables_ok_def s' restored_def)
  have "watch_turn (Proceed io) c s' = Inr None"
    using assms(6-8) by (simp add: watch_turn_def assms(5) s' restored_def try_recv_def)
  moreover have "WatchKV (wcNs c) (wcKey c) (wcCursor c) s' = Inr (s', Inl ErrRevisionCompacted)"
    if "0 < wcCursor c" "wcCursor c < rev t * subLimit"
    using that WatchKV_ok [OF ok(1), of "wcNs c" "wcKey c" "wcCursor c"] base ok(2)
    by (simp add: horizon_def subLimit_def del: ring_list_Nil_iff)
  moreover have "rev s' = rev t" "map_of (kvs s') = map_of (kvs t)" by (simp_all add: s' restored_def)
  ultimately show ?thesis by blast
qed


theorem restore_skips_watchers_witness:
  "\<exists>c0 s1 c s'. watch_call \<lparr>wrNamespace = ''a'', wrKey = ''k'', wrFromRevision = 0\<rparr> New = Inr (c0, s1)
    \<and> watch_turn (Proceed SendOk) c0 s1 = Inr (Some (c, s1))
    \<and> ApplySnapshot (Some (SnapshotToProto (ExportSnapshot store1))) s1 = Inr s'
    \<and> map_of (kvs s') (''a'', ''k'') = Some entry1 \<and> watch_turn (Proceed SendOk) c s' = Inr None"
proof -
  let ?s1 = "registered ''a'' ''k'' New"
  have ok: "hist_ok New" using reachable_inv [OF reachable.init] by (simp add: store_inv_def tables_ok_def)
  have seq: "watcherSeq New = 0" "rev New = 0" "hist_list New = []" "baselineSeq New = 0" by (simp_all add: New_def)
  have w: "WatchKV ''a'' ''k'' 0 New = Inr (?s1, Inr (1, []))"
    by (simp add: WatchKV_ok [OF ok] seq add64_def wrap64_id is_int64_def stream_from_def)
  let ?start = "\<lparr>wcNs = ''a'', wcKey = ''k'', wcCursor = 0, wcPhase = WBacklog 1 [], wcSent = []\<rparr>"
  let ?c = "?start\<lparr>wcPhase := WListen 1 1\<rparr>"
  have call: "watch_call \<lparr>wrNamespace = ''a'', wrKey = ''k'', wrFromRevision = 0\<rparr> New = Inr (?start, ?s1)"
    by (simp add: watch_call_def watch_subscribe_def w)
  have sub: "map_of (kvWatchers ?s1) 1 = Some (own_watcher ''a'' ''k'' 1)" "kvChans ?s1 1 = Some (make_chan watcherBuffer)"
    by (simp_all add: registered_def Let_def seq add64_def wrap64_id is_int64_def)
  have turn: "watch_turn (Proceed SendOk) ?start ?s1 = Inr (Some (?c, ?s1))"
    by (simp add: watch_turn_def KVWatcherChan_def sub)
  have reach: "reachable ?s1" by (rule reachable.watch [OF reachable.init _ w]) (simp add: seq is_int64_def)
  have maps: "gomap_ok (kvs store1)" "gomap_ok (instances store1)" "metadata_ok store1"
    using reachable_inv [OF store1_facts(1)] by (auto simp: store_inv_def tables_ok_def)
  have snap: "ApplySnapshot (Some (SnapshotToProto (ExportSnapshot store1))) ?s1 = Inr (restored store1 ?s1)"
    using RestoreSnapshot_export [OF maps, of ?s1]
    by (simp add: ApplySnapshot_def proto_export_id maps registered_sel seq store1_facts)
  from restore_skips_watchers [OF reach store1_facts(1) _ snap, of ?c 1 1 "make_chan watcherBuffer" SendOk]
  have "map_of (kvs (restored store1 ?s1)) (''a'', ''k'') = Some entry1" "watch_turn (Proceed SendOk) ?c (restored store1 ?s1) = Inr None"
    using sub by (auto simp: registered_sel seq store1_facts make_chan_def)
  with call turn snap show ?thesis by blast
qed

text \<open>C32: A node that is behind delivers events again. A client that has seen the events of later
  entries (on another node) opens a watch at its cursor on a node that lags: the watch starts
  without an error and without a backlog, and the next matching put is sent although its cursor
  is below the one the client asked to start after.\<close>

theorem lagging_node_redelivers:
  assumes "reachable s" and "is_int64 (watcherSeq s + 1)" and "rev s + 1 < maxIndex"
    and "(rev s + 2) * subLimit \<le> wrFromRevision req"
    and "wrNamespace req = poNamespace op" and "wrKey req = poKey op" and "poExpectedVersion op = -1"
  shows "\<exists>c s1 c2 s2 r c3 s3 ev. watch_call req s = Inr (c, s1)
    \<and> watch_turn (Proceed SendOk) c s1 = Inr (Some (c2, s1))
    \<and> ApplyPut now (rev s + 1) op s1 = Inr (s2, Inr r)
    \<and> watch_turn (Proceed SendOk) c2 s2 = Inr (Some (c3, s3)) \<and> wcSent c3 = [ev]
    \<and> weKv ev = r \<and> weRevision ev < wrFromRevision req \<and> wcCursor c3 < wcCursor c"
proof -
  have sinv: "store_inv s" using assms(1) by (rule reachable_inv)
  then have ok: "hist_ok s" "watchers_ok s" and cur: "cursors_inv (abs_of s)"
    by (auto simp: store_inv_def tables_ok_def abs_inv_def)
  let ?ns = "poNamespace op" and ?key = "poKey op" and ?from = "wrFromRevision req" and ?wid = "watcherSeq s + 1"
  let ?w = "own_watcher ?ns ?key ?wid"
  have id: "add64 (watcherSeq s) 1 = ?wid" using assms(2) by (simp add: add64_def wrap64_id)
  have low: "(rev s + 1) * subLimit \<le> ?from" using assms(4) by (simp add: subLimit_def)
  have late: "evSeq ev < ?from" if "ev \<in> set (hist_list s)" for ev
    using cursors_inv_seq(2) [OF cur] that low by fastforce
  have "stream_from ?ns ?key ?from (hist_list s) = []"
    using late by (fastforce simp: stream_from_def filter_empty_conv)
  moreover have "\<not> ?from < horizon s"
  proof (cases "hist_list s")
    case Nil
    with cur low show ?thesis by (simp add: horizon_def cursors_inv_def del: ring_list_Nil_iff)
  next
    case (Cons e es)
    then have e: "e \<in> set (absHist (abs_of s))" by simp
    have "rev s < maxIndex" using assms(3) by simp
    then have "is_int64 (evSeq e - 1)"
      using cursors_inv_seq [OF cur e] by (auto simp: is_int64_def subLimit_def maxIndex_def)
    then show ?thesis using late [of e] Cons by (simp add: horizon_def sub64_def wrap64_id)
  qed
  ultimately have w: "WatchKV ?ns ?key ?from s = Inr (registered ?ns ?key s, Inr (?wid, []))"
    using id by (simp add: WatchKV_ok [OF ok(1)])
  let ?s1 = "registered ?ns ?key s"
  have reach1: "reachable ?s1" by (rule reachable.watch [OF assms(1,2) w])
  let ?c = "\<lparr>wcNs = ?ns, wcKey = ?key, wcCursor = ?from, wcPhase = WBacklog ?wid [], wcSent = []\<rparr>"
  have call: "watch_call req s = Inr (?c, ?s1)"
    by (simp add: watch_call_def watch_subscribe_def assms(5,6) w)
  have sub1: "map_of (kvWatchers ?s1) ?wid = Some ?w" "kvChans ?s1 ?wid = Some (make_chan watcherBuffer)"
    by (simp_all add: registered_def Let_def id)
  let ?c2 = "?c\<lparr>wcPhase := WListen ?wid ?wid\<rparr>"
  have turn: "watch_turn (Proceed SendOk) ?c ?s1 = Inr (Some (?c2, ?s1))"
    by (simp add: watch_turn_def KVWatcherChan_def sub1)
  obtain m evs r where spec: "spec_put now (rev s + 1) op (map_of (kvs ?s1)) = (m, evs, r)" by (metis prod_cases3)
  then obtain kv where kv: "evs = [(PUT, kv)]" "r = Inr kv" "kvNamespace kv = ?ns" "kvKey kv = ?key" "kvRevision kv = rev s + 1"
    using assms(7) by (auto simp: spec_put_def Let_def cas_ok_def kvToPB_def put_entry_def)
  let ?ev = "newEvent PUT kv 0"
  have ok1: "watchers_ok ?s1" using reachable_inv [OF reach1] by (simp add: store_inv_def tables_ok_def)
  obtain s2 where put: "ApplyPut now (rev s + 1) op ?s1 = Inr (s2, Inr kv)"
    and stream: "same_stream s2 (push ?ev ?s1)"
    using ApplyPut_refines [OF ok1 spec] emit_all_stream [where evs = evs and s = "?s1"] by (fastforce simp: kv)
  have match: "events_for ?w [?ev] = [toWatchEvent ?ev]"
    by (simp add: events_for_def watcher_matches_def newEvent_def kv)
  have "kvChans (push ?ev ?s1) ?wid = Some ((make_chan watcherBuffer)\<lparr>chBuf := [toWatchEvent ?ev]\<rparr>)"
    using pushes_subscribed [OF ok1 sub1, of "[?ev]"] by (simp add: match watcherBuffer_def make_chan_def)
  with stream have chan: "kvChans s2 ?wid = Some ((make_chan watcherBuffer)\<lparr>chBuf := [toWatchEvent ?ev]\<rparr>)"
    by (simp add: same_stream_def)
  have rev: "0 \<le> rev s" using store_inv_rev [OF sinv] .
  have "is_int64 ((rev s + 1) * subLimit)"
    using rev assms(3) by (auto simp: is_int64_def subLimit_def maxIndex_def)
  then have seq: "weRevision (toWatchEvent ?ev) = (rev s + 1) * subLimit"
    by (simp add: toWatchEvent_def newEvent_def kv add64_def mul64_def wrap64_id)
  then have "weRevision (toWatchEvent ?ev) < ?from" using assms(4) by (simp add: subLimit_def)
  moreover have "weKv (toWatchEvent ?ev) = kv" by (simp add: toWatchEvent_def newEvent_def)
  ultimately show ?thesis
    using call turn put chan
    by (intro exI conjI) (assumption | simp add: watch_turn_def try_recv_def watch_send_def)+
qed


theorem lagging_node_redelivers_witness:
  "\<exists>c s1 c2 s2 r c3 s3 ev. watch_call \<lparr>wrNamespace = ''a'', wrKey = ''k'', wrFromRevision = 8192\<rparr> New = Inr (c, s1)
    \<and> watch_turn (Proceed SendOk) c s1 = Inr (Some (c2, s1))
    \<and> ApplyPut 0 1 \<lparr>poNamespace = ''a'', poKey = ''k'', poValue = ''v'', poTtlMs = 0, poExpireAtMs = 0,
         poExpectedVersion = -1\<rparr> s1 = Inr (s2, Inr r)
    \<and> watch_turn (Proceed SendOk) c2 s2 = Inr (Some (c3, s3)) \<and> wcSent c3 = [ev]
    \<and> weKv ev = r \<and> weRevision ev < 8192"
proof -
  have seq: "watcherSeq New = 0" "rev New = 0" by (simp_all add: New_def)
  have bounds: "is_int64 (watcherSeq New + 1)" "rev New + 1 < maxIndex" "(rev New + 2) * subLimit \<le> 8192"
    by (simp_all add: seq is_int64_def maxIndex_def subLimit_def)
  from lagging_node_redelivers [OF reachable.init bounds(1,2), of "\<lparr>wrNamespace = ''a'', wrKey = ''k'', wrFromRevision = 8192\<rparr>"
      "\<lparr>poNamespace = ''a'', poKey = ''k'', poValue = ''v'', poTtlMs = 0, poExpireAtMs = 0, poExpectedVersion = -1\<rparr>" 0]
  show ?thesis using bounds(3) by (simp add: seq) blast
qed

end
