(* ===== verification/Client.thy ===== *)
theory Client
  imports Status
begin

text \<open>
  The client library (\<open>client/client.go\<close>): connections, discovery of the leader, reads that go
  from node to node, writes that follow the leader. Watches are in \<open>ClientWatch\<close>, leases in \<open>Lease\<close>.

  The network and the cluster behind it are a world \<open>'w\<close> with one function for each RPC: an address
  and a request give a reply or an error, and the next world. The methods of one client run one
  after the other.
\<close>

subsection \<open>The network\<close>

text \<open>\<open>ntDial\<close> is \<open>grpc.NewClient\<close>: it connects lazily and fails for a malformed address only.\<close>

record 'w Net =
  ntDial :: "string \<Rightarrow> cli_error option"
  ntInfo :: "string \<Rightarrow> 'w \<Rightarrow> 'w \<times> (cli_error + InfoResponse)"
  ntGet :: "string \<Rightarrow> GetRequest \<Rightarrow> 'w \<Rightarrow> 'w \<times> (cli_error + GetResponse)"
  ntDiscover :: "string \<Rightarrow> DiscoverRequest \<Rightarrow> 'w \<Rightarrow> 'w \<times> (cli_error + DiscoverResponse)"
  ntPut :: "string \<Rightarrow> PutRequest \<Rightarrow> 'w \<Rightarrow> 'w \<times> (cli_error + PutResponse)"
  ntDelete :: "string \<Rightarrow> DeleteRequest \<Rightarrow> 'w \<Rightarrow> 'w \<times> (cli_error + DeleteResponse)"
  ntRegister :: "string \<Rightarrow> RegisterRequest \<Rightarrow> 'w \<Rightarrow> 'w \<times> (cli_error + RegisterResponse)"
  ntHeartbeat :: "string \<Rightarrow> HeartbeatRequest \<Rightarrow> 'w \<Rightarrow> 'w \<times> (cli_error + HeartbeatResponse)"

subsection \<open>Connections and endpoints\<close>

text \<open>\<open>clRrIndex\<close> is a \<open>uint64\<close>; \<open>clConns\<close> are the addresses with an open connection.\<close>

record Client =
  clEndpoints :: "string list"
  clConns :: "string list"
  clLeader :: string
  clRrIndex :: int

definition NewClient :: "string list \<Rightarrow> cli_error + Client" where
  "NewClient endpoints = (if length endpoints = 0 then Inl CErrNoEndpoints
     else Inr \<lparr>clEndpoints = endpoints, clConns = [], clLeader = [], clRrIndex = 0\<rparr>)"

text \<open>\<open>closing\<close> is the result of \<open>ClientConn.Close\<close>.\<close>

fun close_conns :: "(string \<Rightarrow> cli_error option) \<Rightarrow> string list \<Rightarrow> cli_error option \<Rightarrow> cli_error option" where
  "close_conns closing [] firstErr = firstErr"
| "close_conns closing (addr # addrs) firstErr =
     close_conns closing addrs (if closing addr \<noteq> None \<and> firstErr = None then closing addr else firstErr)"

definition CloseClient :: "(string \<Rightarrow> cli_error option) \<Rightarrow> Client \<Rightarrow> Client \<times> cli_error option" where
  "CloseClient closing c = (c\<lparr>clConns := []\<rparr>, close_conns closing (clConns c) None)"

definition conn :: "'w Net \<Rightarrow> string \<Rightarrow> Client \<Rightarrow> Client \<times> cli_error option" where
  "conn net addr c =
    (if addr \<in> set (clConns c) then (c, None)
     else case ntDial net addr of
       Some err \<Rightarrow> (c, Some err)
     | None \<Rightarrow> (c\<lparr>clConns := clConns c @ [addr]\<rparr>, None))"

definition kvClient :: "'w Net \<Rightarrow> string \<Rightarrow> Client \<Rightarrow> Client \<times> cli_error option" where
  "kvClient net addr c = conn net addr c"

definition registryClient :: "'w Net \<Rightarrow> string \<Rightarrow> Client \<Rightarrow> Client \<times> cli_error option" where
  "registryClient net addr c = conn net addr c"

definition clusterClient :: "'w Net \<Rightarrow> string \<Rightarrow> Client \<Rightarrow> Client \<times> cli_error option" where
  "clusterClient net addr c = conn net addr c"

definition addUint64 :: "int \<Rightarrow> int \<Rightarrow> int" where
  "addUint64 a b = (a + b) mod 2 ^ 64"

text \<open>The new value of \<open>rrIndex\<close> less one, converted to \<open>int\<close>.\<close>

definition next_start :: "Client \<Rightarrow> Client \<times> int64" where
  "next_start c = (let idx = addUint64 (clRrIndex c) 1
     in (c\<lparr>clRrIndex := idx\<rparr>, wrap64 (addUint64 idx (-1))))"

definition pickEndpoint :: "Client \<Rightarrow> (Client \<times> string) go" where
  "pickEndpoint c = (let (c', k) = next_start c
     in go_bind (slice_at (clEndpoints c') (go_mod k (int (length (clEndpoints c'))))) (\<lambda>addr. Inr (c', addr)))"

definition endpoint_at :: "Client \<Rightarrow> int64 \<Rightarrow> nat \<Rightarrow> string go" where
  "endpoint_at c start i = slice_at (clEndpoints c) (go_mod (add64 start (int i)) (int (length (clEndpoints c))))"

subsection \<open>Reads\<close>

text \<open>An error value is an option, since nil can be returned.\<close>

type_synonym 'r reply = "cli_error option + 'r"

text \<open>The loop that the reads share: \<open>stop e\<close> is the error with which a failed call ends the loop,
  None to go on to the next endpoint with \<open>keep e\<close> as \<open>lastErr\<close>; after the last endpoint \<open>finish\<close>
  is applied to \<open>lastErr\<close>.\<close>

fun try_endpoints :: "'w Net \<Rightarrow> (string \<Rightarrow> 'w \<Rightarrow> 'w \<times> (cli_error + 'r)) \<Rightarrow> (cli_error \<Rightarrow> cli_error option)
    \<Rightarrow> (cli_error \<Rightarrow> cli_error) \<Rightarrow> (cli_error \<Rightarrow> cli_error) \<Rightarrow> int64 \<Rightarrow> nat list \<Rightarrow> cli_error option \<Rightarrow> Client \<Rightarrow> 'w
    \<Rightarrow> (Client \<times> 'w \<times> 'r reply) go" where
  "try_endpoints net call stop keep finish start [] lastErr c w = Inr (c, w, Inl (map_option finish lastErr))"
| "try_endpoints net call stop keep finish start (i # is) lastErr c w =
    go_bind (endpoint_at c start i) (\<lambda>addr.
      case conn net addr c of
        (c1, Some err) \<Rightarrow> try_endpoints net call stop keep finish start is (Some err) c1 w
      | (c1, None) \<Rightarrow> (case call addr w of
            (w1, Inr resp) \<Rightarrow> Inr (c1, w1, Inr resp)
          | (w1, Inl err) \<Rightarrow> (case stop err of
                Some e \<Rightarrow> Inr (c1, w1, Inl (Some e))
              | None \<Rightarrow> try_endpoints net call stop keep finish start is (Some (keep err)) c1 w1)))"

definition stop_unless_retryable :: "cli_error \<Rightarrow> cli_error option" where
  "stop_unless_retryable err = (if \<not> isRetryableTransport err then Some (mapStatus err) else None)"

definition Client_Info :: "'w Net \<Rightarrow> Client \<Rightarrow> 'w \<Rightarrow> (Client \<times> 'w \<times> InfoResponse reply) go" where
  "Client_Info net c w = (let (c1, start) = next_start c
     in try_endpoints net (ntInfo net) (\<lambda>_. None) id id start [0..<length (clEndpoints c1)] None c1 w)"

definition Client_Get :: "'w Net \<Rightarrow> string \<Rightarrow> string \<Rightarrow> Client \<Rightarrow> 'w \<Rightarrow> (Client \<times> 'w \<times> GetResponse reply) go" where
  "Client_Get net ns key c w = (let (c1, start) = next_start c
     in try_endpoints net (\<lambda>addr. ntGet net addr \<lparr>grNamespace = ns, grKey = key\<rparr>) stop_unless_retryable mapStatus id
          start [0..<length (clEndpoints c1)] None c1 w)"

definition Client_Discover :: "'w Net \<Rightarrow> DiscoverRequest \<Rightarrow> Client \<Rightarrow> 'w \<Rightarrow> (Client \<times> 'w \<times> DiscoverResponse reply) go" where
  "Client_Discover net req c w = (let (c1, start) = next_start c
     in try_endpoints net (\<lambda>addr. ntDiscover net addr req) stop_unless_retryable id mapStatus
          start [0..<length (clEndpoints c1)] None c1 w)"

subsection \<open>Finding the leader\<close>

definition leaderAddress :: "InfoResponse \<Rightarrow> string" where
  "leaderAddress info = (case List.find (\<lambda>n. nodeId n = irLeaderId info) (irNodes info) of
     Some n \<Rightarrow> nodeAddress n | None \<Rightarrow> [])"

fun discover_loop :: "'w Net \<Rightarrow> int64 \<Rightarrow> nat list \<Rightarrow> cli_error option \<Rightarrow> Client \<Rightarrow> 'w
    \<Rightarrow> (Client \<times> 'w \<times> string \<times> cli_error option) go" where
  "discover_loop net start [] lastErr c w = Inr (c, w, [], lastErr)"
| "discover_loop net start (i # is) lastErr c w =
    go_bind (endpoint_at c start i) (\<lambda>addr.
      case clusterClient net addr c of
        (c1, Some err) \<Rightarrow> discover_loop net start is (Some err) c1 w
      | (c1, None) \<Rightarrow> (case ntInfo net addr w of
            (w1, Inl err) \<Rightarrow> discover_loop net start is (Some err) c1 w1
          | (w1, Inr info) \<Rightarrow>
              (let la = leaderAddress info
               in if la \<noteq> [] then Inr (c1\<lparr>clLeader := la\<rparr>, w1, la, None)
                  else discover_loop net start is lastErr c1 w1)))"

definition discoverLeader :: "'w Net \<Rightarrow> Client \<Rightarrow> 'w \<Rightarrow> (Client \<times> 'w \<times> string \<times> cli_error option) go" where
  "discoverLeader net c w = (let (c1, start) = next_start c
     in discover_loop net start [0..<length (clEndpoints c1)] None c1 w)"

definition knownLeader :: "Client \<Rightarrow> string" where
  "knownLeader c = clLeader c"

definition ensureLeader :: "'w Net \<Rightarrow> Client \<Rightarrow> 'w \<Rightarrow> (Client \<times> 'w \<times> string \<times> cli_error option) go" where
  "ensureLeader net c w = (let l = knownLeader c
     in if l \<noteq> [] then Inr (c, w, l, None) else discoverLeader net c w)"

subsection \<open>Writes\<close>

text \<open>The attempts of \<open>Put\<close> and \<open>Delete\<close>. The two methods have the same loop around their RPC.\<close>

fun kv_attempts :: "'w Net \<Rightarrow> (string \<Rightarrow> 'w \<Rightarrow> 'w \<times> (cli_error + 'r)) \<Rightarrow> nat list \<Rightarrow> Client \<Rightarrow> 'w
    \<Rightarrow> (Client \<times> 'w \<times> 'r reply) go" where
  "kv_attempts net call [] c w = Inr (c, w, Inl (Some CErrNoQuorum))"
| "kv_attempts net call (attempt # rest) c w =
    go_bind (ensureLeader net c w) (\<lambda>(c1, w1, addr, lerr).
      case lerr of Some err \<Rightarrow> Inr (c1, w1, Inl (Some err))
      | None \<Rightarrow> (case kvClient net addr c1 of
            (c2, Some err) \<Rightarrow> Inr (c2, w1, Inl (Some err))
          | (c2, None) \<Rightarrow> (case call addr w1 of
                (w2, Inr resp) \<Rightarrow> Inr (c2, w2, Inr resp)
              | (w2, Inl err) \<Rightarrow>
                  if mapStatus err = CErrNotLeader
                  then (let hint = parseLeaderHint err
                        in if hint \<noteq> [] then kv_attempts net call rest (c2\<lparr>clLeader := hint\<rparr>) w2
                           else go_bind (discoverLeader net c2 w2)
                                  (\<lambda>(c3, w3, _). kv_attempts net call rest c3 w3))
                  else if isRetryableTransport err \<and> attempt = 0
                  then kv_attempts net call rest (c2\<lparr>clLeader := []\<rparr>) w2
                  else Inr (c2, w2, Inl (Some (mapStatus err))))))"

definition Client_Put :: "'w Net \<Rightarrow> PutRequest \<Rightarrow> Client \<Rightarrow> 'w \<Rightarrow> (Client \<times> 'w \<times> PutResponse reply) go" where
  "Client_Put net req = kv_attempts net (\<lambda>addr. ntPut net addr req) [0, 1]"

text \<open>\<open>Delete\<close> turns the expected version 0 into -1.\<close>

definition Client_Delete :: "'w Net \<Rightarrow> DeleteRequest \<Rightarrow> Client \<Rightarrow> 'w \<Rightarrow> (Client \<times> 'w \<times> DeleteResponse reply) go" where
  "Client_Delete net req = (let req' = (if drExpectedVersion req = 0 then req\<lparr>drExpectedVersion := -1\<rparr> else req)
     in kv_attempts net (\<lambda>addr. ntDelete net addr req') [0, 1])"

text \<open>The attempts of \<open>Register\<close> and \<open>Heartbeat\<close>.\<close>

fun registry_attempts :: "'w Net \<Rightarrow> (string \<Rightarrow> 'w \<Rightarrow> 'w \<times> (cli_error + 'r)) \<Rightarrow> nat list \<Rightarrow> Client \<Rightarrow> 'w
    \<Rightarrow> (Client \<times> 'w \<times> 'r reply) go" where
  "registry_attempts net call [] c w = Inr (c, w, Inl (Some CErrNoQuorum))"
| "registry_attempts net call (attempt # rest) c w =
    go_bind (ensureLeader net c w) (\<lambda>(c1, w1, addr, lerr).
      case lerr of Some err \<Rightarrow> Inr (c1, w1, Inl (Some err))
      | None \<Rightarrow> (case registryClient net addr c1 of
            (c2, Some err) \<Rightarrow> Inr (c2, w1, Inl (Some err))
          | (c2, None) \<Rightarrow> (case call addr w1 of
                (w2, Inr resp) \<Rightarrow> Inr (c2, w2, Inr resp)
              | (w2, Inl err) \<Rightarrow>
                  if mapStatus err = CErrNotLeader \<or> (isRetryableTransport err \<and> attempt = 0)
                  then (let c3 = c2\<lparr>clLeader := []\<rparr>; hint = parseLeaderHint err
                        in if hint \<noteq> [] then registry_attempts net call rest (c3\<lparr>clLeader := hint\<rparr>) w2
                           else go_bind (discoverLeader net c3 w2)
                                  (\<lambda>(c4, w4, _). registry_attempts net call rest c4 w4))
                  else Inr (c2, w2, Inl (Some (mapStatus err))))))"

definition Client_Register :: "'w Net \<Rightarrow> RegisterRequest \<Rightarrow> Client \<Rightarrow> 'w \<Rightarrow> (Client \<times> 'w \<times> RegisterResponse reply) go" where
  "Client_Register net req = registry_attempts net (\<lambda>addr. ntRegister net addr req) [0, 1]"

definition Client_Heartbeat :: "'w Net \<Rightarrow> HeartbeatRequest \<Rightarrow> Client \<Rightarrow> 'w \<Rightarrow> (Client \<times> 'w \<times> HeartbeatResponse reply) go" where
  "Client_Heartbeat net req = registry_attempts net (\<lambda>addr. ntHeartbeat net addr req) [0, 1]"

end
