(* ===== verification/ClientWatch.thy ===== *)
theory ClientWatch
  imports Client WatchServe
begin

text \<open>
  The subscriptions of the client library (\<open>client/client.go\<close>): \<open>Watch\<close>, with the loop that connects
  to one endpoint after the other and resumes at the last cursor, and \<open>WatchInstances\<close>.

  A round of a loop is one connection. What happens in it, from the dialing to the end of the
  stream and the choice of the select that follows, is a record of the round, so a run is a list
  of rounds. How long the loop sleeps is a number; the receives of the consumer are not seen: an
  event counts as delivered when it is put into the channel.
\<close>

subsection \<open>Watch\<close>

text \<open>\<open>wtErr\<close> is what the channel \<open>err\<close> got, \<open>wtClosed\<close> says that \<open>events\<close> is closed.\<close>

record Watcher =
  wtEvents :: "WatchEvent list"
  wtErr :: "cli_error option"
  wtDone :: bool
  wtClosed :: bool

definition CloseWatcher :: "Watcher \<Rightarrow> Watcher" where
  "CloseWatcher w = w\<lparr>wtDone := True\<rparr>"

text \<open>The state of the loop goroutine.\<close>

record WatchLoop =
  wlClient :: Client
  wlWatcher :: Watcher
  wlCursor :: int64
  wlBackoff :: int64

text \<open>The cases of a select on the context, \<open>done\<close> and the timer (or default).\<close>

datatype loop_select = SelectCtx ctx_err | SelectDone | SelectGo

text \<open>One round: the select before it, the reply of an endpoint to the request (the call fails, or a
  stream of events ends with an error, or with None because \<open>done\<close> was closed at the next event),
  and the select after it.\<close>

record 'ev round =
  rdBefore :: loop_select
  rdServe :: "string \<Rightarrow> int64 \<Rightarrow> cli_error + ('ev list \<times> cli_error option)"
  rdAfter :: loop_select

definition watch_start :: "Client \<Rightarrow> int64 \<Rightarrow> WatchLoop" where
  "watch_start c fromSeq = \<lparr>wlClient = c, wlWatcher = \<lparr>wtEvents = [], wtErr = None, wtDone = False, wtClosed = False\<rparr>,
     wlCursor = fromSeq, wlBackoff = 200 * 1000000\<rparr>"

definition loop_end :: "cli_error option \<Rightarrow> WatchLoop \<Rightarrow> WatchLoop" where
  "loop_end err l = l\<lparr>wlWatcher := (wlWatcher l)\<lparr>wtErr := (if err = None then wtErr (wlWatcher l) else err), wtClosed := True\<rparr>\<rparr>"

fun pumpWatch :: "WatchEvent list \<Rightarrow> cli_error option \<Rightarrow> WatchLoop \<Rightarrow> WatchLoop \<times> cli_error option" where
  "pumpWatch [] err l = (l, err)"
| "pumpWatch (ev # evs) err l = pumpWatch evs err
     (l\<lparr>wlWatcher := (wlWatcher l)\<lparr>wtEvents := wtEvents (wlWatcher l) @ [ev]\<rparr>, wlCursor := weRevision ev\<rparr>)"

definition grow_backoff :: "int64 \<Rightarrow> int64" where
  "grow_backoff b = (if b < 2 * 1000000000 then mul64 b 2 else b)"

text \<open>A turn of \<open>watchLoop\<close>; the boolean says whether the loop goes on.\<close>

definition client_watch_turn :: "'w Net \<Rightarrow> WatchEvent round \<Rightarrow> WatchLoop \<Rightarrow> (WatchLoop \<times> bool) go" where
  "client_watch_turn net rd l = (case rdBefore rd of
     SelectCtx x \<Rightarrow> Inr (loop_end (Some (CCtx x)) l, False)
   | SelectDone \<Rightarrow> Inr (loop_end None l, False)
   | SelectGo \<Rightarrow> go_bind (pickEndpoint (wlClient l)) (\<lambda>(c1, addr).
       let (c2, derr) = kvClient net addr c1;
           l1 = l\<lparr>wlClient := c2\<rparr>;
           (l2, err) = (case derr of
               Some e \<Rightarrow> (l1, Some e)
             | None \<Rightarrow> (case rdServe rd addr (wlCursor l1) of
                   Inl e \<Rightarrow> (l1, Some e)
                 | Inr (evs, e) \<Rightarrow> pumpWatch evs e l1))
       in Inr (case err of
           None \<Rightarrow> (loop_end None l2, False)
         | Some e \<Rightarrow>
             if mapStatus e = CErrHistoryCompacted then (loop_end (Some CErrHistoryCompacted) l2, False)
             else (case rdAfter rd of
                 SelectCtx x \<Rightarrow> (loop_end (Some (CCtx x)) l2, False)
               | SelectDone \<Rightarrow> (loop_end None l2, False)
               | SelectGo \<Rightarrow> (l2\<lparr>wlBackoff := grow_backoff (wlBackoff l2)\<rparr>, True)))))"

fun client_watch :: "'w Net \<Rightarrow> WatchEvent round list \<Rightarrow> WatchLoop \<Rightarrow> WatchLoop go" where
  "client_watch net [] l = Inr l"
| "client_watch net (rd # rds) l = go_bind (client_watch_turn net rd l)
     (\<lambda>(l', more). if more then client_watch net rds l' else Inr l')"

subsection \<open>WatchInstances\<close>

record DiscoverWatcher =
  dwUpdates :: "DiscoverResponse list"
  dwErr :: "cli_error option"
  dwDone :: bool
  dwClosed :: bool

definition CloseDiscoverWatcher :: "DiscoverWatcher \<Rightarrow> DiscoverWatcher" where
  "CloseDiscoverWatcher d = d\<lparr>dwDone := True\<rparr>"

record DiscoverLoop =
  dlClient :: Client
  dlWatcher :: DiscoverWatcher
  dlBackoff :: int64

definition discover_watch_start :: "Client \<Rightarrow> DiscoverLoop" where
  "discover_watch_start c = \<lparr>dlClient = c, dlWatcher = \<lparr>dwUpdates = [], dwErr = None, dwDone = False, dwClosed = False\<rparr>,
     dlBackoff = 200 * 1000000\<rparr>"

definition discover_end :: "cli_error option \<Rightarrow> DiscoverLoop \<Rightarrow> DiscoverLoop" where
  "discover_end err l = l\<lparr>dlWatcher := (dlWatcher l)\<lparr>dwErr := (if err = None then dwErr (dlWatcher l) else err), dwClosed := True\<rparr>\<rparr>"

text \<open>The stream of a round: its messages are delivered; None at the end: \<open>done\<close> was closed at the next
  one. No error ends the loop.\<close>

definition discover_watch_turn :: "'w Net \<Rightarrow> DiscoverResponse round \<Rightarrow> DiscoverLoop \<Rightarrow> (DiscoverLoop \<times> bool) go" where
  "discover_watch_turn net rd l = (case rdBefore rd of
     SelectCtx x \<Rightarrow> Inr (discover_end (Some (CCtx x)) l, False)
   | SelectDone \<Rightarrow> Inr (discover_end None l, False)
   | SelectGo \<Rightarrow> go_bind (pickEndpoint (dlClient l)) (\<lambda>(c1, addr).
       let (c2, derr) = registryClient net addr c1;
           l1 = l\<lparr>dlClient := c2\<rparr>;
           (l2, closed) = (case derr of
               Some e \<Rightarrow> (l1, False)
             | None \<Rightarrow> (case rdServe rd addr 0 of
                   Inl e \<Rightarrow> (l1, False)
                 | Inr (resps, e) \<Rightarrow>
                     (l1\<lparr>dlWatcher := (dlWatcher l1)\<lparr>dwUpdates := dwUpdates (dlWatcher l1) @ resps\<rparr>\<rparr>, e = None)))
       in Inr (if closed then (discover_end None l2, False)
          else (case rdAfter rd of
              SelectCtx x \<Rightarrow> (discover_end (Some (CCtx x)) l2, False)
            | SelectDone \<Rightarrow> (discover_end None l2, False)
            | SelectGo \<Rightarrow> (l2\<lparr>dlBackoff := grow_backoff (dlBackoff l2)\<rparr>, True)))))"

fun discover_watch :: "'w Net \<Rightarrow> DiscoverResponse round list \<Rightarrow> DiscoverLoop \<Rightarrow> DiscoverLoop go" where
  "discover_watch net [] l = Inr l"
| "discover_watch net (rd # rds) l = go_bind (discover_watch_turn net rd l)
     (\<lambda>(l', more). if more then discover_watch net rds l' else Inr l')"

end
