(* ===== verification/ClientProps.thy ===== *)
theory ClientProps
  imports Client ServerProps
begin

text \<open>
  The properties of the client library: the rotation over the endpoints, reads that fail over, and
  writes that follow the leader, composed with the handlers of the servers.
\<close>

subsection \<open>The rotation\<close>

lemma next_start_eq:
  assumes "0 \<le> clRrIndex c" and "clRrIndex c < 2 ^ 64"
  shows "next_start c = (c\<lparr>clRrIndex := (clRrIndex c + 1) mod 2 ^ 64\<rparr>, wrap64 (clRrIndex c))"
proof -
  have "((clRrIndex c + 1) mod 2 ^ 64 + -1) mod 2 ^ 64 = clRrIndex c"
    using assms by (subst mod_add_left_eq) simp
  then show ?thesis by (simp add: next_start_def addUint64_def Let_def)
qed

text \<open>Reads ask the endpoints in the order of the list rotated by the counter.\<close>

lemma endpoint_at_rotate:
  assumes "i < length (clEndpoints c)" and "0 \<le> k" and "k + int i < 2 ^ 63"
  shows "endpoint_at c k i = Inr (rotate (nat k) (clEndpoints c) ! i)"
proof -
  let ?n = "length (clEndpoints c)"
  have pos: "0 < int ?n" using assms(1) by linarith
  have "go_mod (add64 k (int i)) (int ?n) = (k + int i) mod int ?n"
  proof -
    have "0 \<le> k + int i" using assms(2) by simp
    from go_mod_nonneg [OF this pos] show ?thesis using assms(2,3) by (simp only: add64_def) (simp add: wrap64_id is_int64_def)
  qed
  moreover have "nat ((k + int i) mod int ?n) = (nat k + i) mod ?n"
    using assms(2) by (simp add: nat_mod_distrib nat_add_distrib)
  moreover have "0 \<le> (k + int i) mod int ?n" "(k + int i) mod int ?n < int ?n"
    by (rule pos_mod_sign [OF pos], rule pos_mod_bound [OF pos])
  ultimately show ?thesis
    using assms(1) by (simp add: endpoint_at_def slice_at_ok nth_rotate)
qed

subsection \<open>Reads\<close>

text \<open>What a read returns when the endpoint \<open>a\<close> answers \<open>reply a\<close>.\<close>

fun first_reply :: "(string \<Rightarrow> cli_error + 'r) \<Rightarrow> string list \<Rightarrow> cli_error option \<Rightarrow> 'r reply" where
  "first_reply reply [] lastErr = Inl lastErr"
| "first_reply reply (a # as) lastErr = (case reply a of
     Inr r \<Rightarrow> Inr r
   | Inl e \<Rightarrow> if isRetryableTransport e then first_reply reply as (Some (mapStatus e)) else Inl (Some (mapStatus e)))"

definition conns_only :: "Client \<Rightarrow> Client \<Rightarrow> bool" where
  "conns_only c c' \<longleftrightarrow> (\<exists>cs. c' = c\<lparr>clConns := cs\<rparr>)"

lemma conn_ok:
  assumes "ntDial net a = None"
  shows "\<exists>c'. conn net a c = (c', None) \<and> conns_only c c'"
proof (cases "a \<in> set (clConns c)")
  case True
  then show ?thesis by (auto simp: conn_def conns_only_def intro: exI [of _ "clConns c"])
next
  case False
  with assms show ?thesis by (auto simp: conn_def conns_only_def)
qed

lemma conns_only_sel:
  assumes "conns_only c c'"
  shows "clEndpoints c' = clEndpoints c" "clLeader c' = clLeader c" "clRrIndex c' = clRrIndex c"
  using assms by (auto simp: conns_only_def)

lemma conns_only_trans: "conns_only a b \<Longrightarrow> conns_only b c \<Longrightarrow> conns_only a c"
  by (auto simp: conns_only_def)

lemma try_endpoints_stateless:
  assumes "\<And>a. call a w = (w, reply a)" and "\<And>a. a \<in> set (clEndpoints c) \<Longrightarrow> ntDial net a = None"
    and "\<forall>i\<in>set is. i < length (clEndpoints c)" and "0 \<le> k" and "k + int (length (clEndpoints c)) < 2 ^ 63"
  shows "\<exists>c'. try_endpoints net call stop_unless_retryable mapStatus id k is lastErr c w =
      Inr (c', w, first_reply reply (map ((!) (rotate (nat k) (clEndpoints c))) is) lastErr) \<and> conns_only c c'"
  using assms(2,3,5)
proof (induction "is" arbitrary: c lastErr)
  case Nil
  then show ?case by (cases lastErr) (auto simp: conns_only_def intro: exI [of _ "clConns c"])
next
  case (Cons i "is")
  let ?a = "rotate (nat k) (clEndpoints c) ! i"
  have i: "i < length (clEndpoints c)" using Cons.prems by simp
  have at: "endpoint_at c k i = Inr ?a"
    using Cons.prems i assms(4) by (intro endpoint_at_rotate) auto
  have "?a \<in> set (clEndpoints c)" using i by (metis length_rotate nth_mem set_rotate)
  then obtain c1 where c1: "conn net ?a c = (c1, None)" "conns_only c c1"
    using conn_ok [OF Cons.prems(1)] by blast
  note sel = conns_only_sel [OF c1(2)]
  show ?case
  proof (cases "reply ?a")
    case (Inl e)
    show ?thesis
    proof (cases "isRetryableTransport e")
      case True
      with Cons.IH [of c1 "Some (mapStatus e)"] Cons.prems conns_only_trans [OF c1(2)] show ?thesis
        by (auto simp: at c1(1) assms(1) Inl stop_unless_retryable_def sel)
    next
      case False
      with c1 show ?thesis by (simp add: at assms(1) Inl stop_unless_retryable_def)
    qed
  next
    case (Inr r)
    with c1 show ?thesis by (simp add: at assms(1))
  qed
qed

subsection \<open>Properties of the rotation and of reads\<close>

text \<open>The round robin over the endpoints works for \<open>2 ^ 63\<close> calls. \<open>pickEndpoint\<close> returns the endpoint
  that the counter selects, modulo their number. Once the counter, a \<open>uint64\<close>, is converted to a
  negative \<open>int\<close>, the remainder is negative too, and the call panics unless it is zero.\<close>

theorem pick_endpoint_bounds:
  assumes "clEndpoints c \<noteq> []" and "0 \<le> clRrIndex c" and "clRrIndex c < 2 ^ 64"
  shows "pickEndpoint c =
    (let n = int (length (clEndpoints c)); c' = c\<lparr>clRrIndex := (clRrIndex c + 1) mod 2 ^ 64\<rparr>
     in if clRrIndex c < 2 ^ 63 then Inr (c', clEndpoints c ! nat (clRrIndex c mod n))
        else if (2 ^ 64 - clRrIndex c) mod n = 0 then Inr (c', clEndpoints c ! 0)
        else Inl PanicIndexOutOfRange)"
proof -
  let ?k = "clRrIndex c" and ?n = "int (length (clEndpoints c))"
  have n: "0 < ?n" using assms(1) by simp
  show ?thesis
  proof (cases "?k < 2 ^ 63")
    case True
    have "wrap64 ?k = ?k" using True assms(2) by (simp add: wrap64_id is_int64_def)
    moreover have "go_mod ?k ?n = ?k mod ?n" using assms(2) n by (rule go_mod_nonneg)
    moreover have "0 \<le> ?k mod ?n" "?k mod ?n < ?n" using n by simp_all
    ultimately show ?thesis
      using True by (simp add: pickEndpoint_def next_start_eq [OF assms(2,3)] slice_at_ok Let_def)
  next
    case False
    let ?m = "2 ^ 64 - ?k"
    have m: "0 < ?m" using assms(3) by simp
    have "wrap64 ?k = - ?m"
    proof -
      have "(?k + 2 ^ 63) mod 2 ^ 64 = (?k + 2 ^ 63 - 2 ^ 64) mod 2 ^ 64"
        using mod_add_self2 [of "?k + 2 ^ 63 - 2 ^ 64" "2 ^ 64"] by (simp add: add.commute)
      also have "\<dots> = ?k + 2 ^ 63 - 2 ^ 64" using False assms(3) by (intro mod_pos_pos_trivial) auto
      finally show ?thesis by (simp add: wrap64_def)
    qed
    moreover have "go_mod (- ?m) ?n = - (?m mod ?n)"
    proof -
      have "go_div (- ?m) ?n = - (?m div ?n)" using m n by (simp add: go_div_def sgn_if)
      then show ?thesis using minus_div_mult_eq_mod [of ?m ?n] by (simp add: go_mod_def)
    qed
    ultimately have pick: "pickEndpoint c = go_bind (slice_at (clEndpoints c) (- (?m mod ?n)))
        (\<lambda>addr. Inr (c\<lparr>clRrIndex := (?k + 1) mod 2 ^ 64\<rparr>, addr))"
      by (simp add: pickEndpoint_def next_start_eq [OF assms(2,3)])
    show ?thesis
    proof (cases "?m mod ?n = 0")
      case True
      with False n show ?thesis unfolding pick by (simp add: slice_at_def Let_def)
    next
      case nonzero: False
      have "0 \<le> ?m mod ?n" using n by simp
      with nonzero have "- (?m mod ?n) < 0" by linarith
      with False nonzero show ?thesis unfolding pick by (simp add: slice_at_def Let_def)
    qed
  qed
qed

theorem pick_endpoint_bounds_witness:
  "pickEndpoint \<lparr>clEndpoints = [''a'', ''b'', ''c''], clConns = [], clLeader = [], clRrIndex = 4\<rparr>
      = Inr (\<lparr>clEndpoints = [''a'', ''b'', ''c''], clConns = [], clLeader = [], clRrIndex = 5\<rparr>, ''b'')
    \<and> pickEndpoint \<lparr>clEndpoints = [''a'', ''b'', ''c''], clConns = [], clLeader = [], clRrIndex = 2 ^ 63\<rparr>
      = Inl PanicIndexOutOfRange"
  using pick_endpoint_bounds [of "\<lparr>clEndpoints = [''a'', ''b'', ''c''], clConns = [], clLeader = [], clRrIndex = 4\<rparr>"]
    pick_endpoint_bounds [of "\<lparr>clEndpoints = [''a'', ''b'', ''c''], clConns = [], clLeader = [], clRrIndex = 2 ^ 63\<rparr>"]
  by (simp add: Let_def)

text \<open>C34: A read goes from node to node. \<open>Get\<close> asks each endpoint at most once, in the rotated order, until
  one gives an answer or an error that no other node would cure; it returns that, or the error of
  the last endpoint. So it succeeds whenever some endpoint answers and the others are only
  unreachable. The known leader does not change.\<close>

theorem read_fails_over:
  assumes "\<And>a. ntGet net a \<lparr>grNamespace = ns, grKey = key\<rparr> w = (w, reply a)"
    and "\<And>a. a \<in> set (clEndpoints c) \<Longrightarrow> ntDial net a = None"
    and "0 \<le> clRrIndex c" and "clRrIndex c + int (length (clEndpoints c)) < 2 ^ 63"
  shows "(\<exists>c'. Client_Get net ns key c w =
        Inr (c', w, first_reply reply (rotate (nat (clRrIndex c)) (clEndpoints c)) None)
      \<and> clRrIndex c' = clRrIndex c + 1 \<and> clLeader c' = clLeader c \<and> clEndpoints c' = clEndpoints c)
    \<and> ((\<exists>a\<in>set (clEndpoints c). (\<exists>r. reply a = Inr r)) \<longrightarrow>
       (\<forall>a\<in>set (clEndpoints c). case reply a of Inl e \<Rightarrow> isRetryableTransport e | Inr r \<Rightarrow> True) \<longrightarrow>
       (\<exists>a\<in>set (clEndpoints c). \<exists>r. reply a = Inr r
          \<and> first_reply reply (rotate (nat (clRrIndex c)) (clEndpoints c)) None = Inr r))"
proof -
  let ?k = "clRrIndex c" and ?n = "length (clEndpoints c)"
  let ?order = "rotate (nat ?k) (clEndpoints c)" and ?c1 = "c\<lparr>clRrIndex := ?k + 1\<rparr>"
  have start: "next_start c = (?c1, ?k)"
    using next_start_eq [OF assms(3)] assms(3,4) by (simp add: wrap64_id is_int64_def)
  have order: "map ((!) ?order) [0..<?n] = ?order" by (metis length_rotate map_nth)
  obtain c' where "try_endpoints net (\<lambda>addr. ntGet net addr \<lparr>grNamespace = ns, grKey = key\<rparr>) stop_unless_retryable
      mapStatus id ?k [0..<?n] None ?c1 w = Inr (c', w, first_reply reply ?order None)" "conns_only ?c1 c'"
    using try_endpoints_stateless [of "\<lambda>addr. ntGet net addr \<lparr>grNamespace = ns, grKey = key\<rparr>" w reply ?c1 net "[0..<?n]" ?k None]
      assms order by auto
  moreover from this(2) have "clRrIndex c' = ?k + 1" "clLeader c' = clLeader c" "clEndpoints c' = clEndpoints c"
    by (auto dest: conns_only_sel)
  moreover have "\<exists>a\<in>set as. \<exists>r. reply a = Inr r \<and> first_reply reply as last = Inr r"
    if "\<exists>a\<in>set as. (\<exists>r. reply a = Inr r)" "\<forall>a\<in>set as. case reply a of Inl e \<Rightarrow> isRetryableTransport e | Inr r \<Rightarrow> True" for as last
    using that by (induction as arbitrary: last) (auto split: sum.splits)
  from this [of ?order None] have "(\<exists>a\<in>set (clEndpoints c). (\<exists>r. reply a = Inr r)) \<longrightarrow>
       (\<forall>a\<in>set (clEndpoints c). case reply a of Inl e \<Rightarrow> isRetryableTransport e | Inr r \<Rightarrow> True) \<longrightarrow>
       (\<exists>a\<in>set (clEndpoints c). \<exists>r. reply a = Inr r \<and> first_reply reply ?order None = Inr r)" by simp
  ultimately show ?thesis by (simp add: Client_Get_def start)
qed

definition unavailable :: cli_error where
  "unavailable = CStatus CodeUnavailable ''connection error''"

definition silent_net :: "'w Net" where
  "silent_net = \<lparr>ntDial = \<lambda>_. None, ntInfo = \<lambda>_ w. (w, Inl unavailable), ntGet = \<lambda>_ _ w. (w, Inl unavailable),
     ntDiscover = \<lambda>_ _ w. (w, Inl unavailable), ntPut = \<lambda>_ _ w. (w, Inl unavailable),
     ntDelete = \<lambda>_ _ w. (w, Inl unavailable), ntRegister = \<lambda>_ _ w. (w, Inl unavailable),
     ntHeartbeat = \<lambda>_ _ w. (w, Inl unavailable)\<rparr>"

definition client_of :: "string list \<Rightarrow> Client" where
  "client_of eps = \<lparr>clEndpoints = eps, clConns = [], clLeader = [], clRrIndex = 0\<rparr>"

theorem read_fails_over_witness:
  "\<exists>c'. Client_Get (silent_net\<lparr>ntGet := \<lambda>a _ w. (w, if a = ''b'' then Inr \<lparr>gsFound = False, gsKv = None,
        gsAppliedRevision = 7, gsLeaderId = 1\<rparr> else Inl unavailable)\<rparr>) ''ns'' ''k'' (client_of [''a'', ''b'']) ()
      = Inr (c', (), Inr \<lparr>gsFound = False, gsKv = None, gsAppliedRevision = 7, gsLeaderId = 1\<rparr>)"
proof -
  let ?resp = "\<lparr>gsFound = False, gsKv = None, gsAppliedRevision = 7, gsLeaderId = 1\<rparr>"
  let ?reply = "\<lambda>a. if a = ''b'' then Inr ?resp else Inl unavailable"
  let ?net = "silent_net\<lparr>ntGet := \<lambda>a _ w. (w, ?reply a)\<rparr>"
  have "first_reply ?reply (rotate (nat (clRrIndex (client_of [''a'', ''b'']))) (clEndpoints (client_of [''a'', ''b'']))) None = Inr ?resp"
    by (simp add: client_of_def unavailable_def isRetryableTransport_def)
  with read_fails_over [of ?net "''ns''" "''k''" "()" ?reply "client_of [''a'', ''b'']"]
  show ?thesis by (auto simp: client_of_def silent_net_def)
qed

subsection \<open>A cluster behind the network\<close>

text \<open>The RPCs of writes and of \<open>Info\<close>, answered by the handlers of the nodes. The call of a handler
  that panics, and of an address without a node, ends with a transport error. The other RPCs are
  those of \<open>base\<close>.\<close>

definition served :: "(string \<Rightarrow> ServerNode option) \<Rightarrow> (ServerNode \<Rightarrow> 'w \<Rightarrow> ('w \<times> (srv_error + 'r)) go)
    \<Rightarrow> string \<Rightarrow> 'w \<Rightarrow> 'w \<times> (cli_error + 'r)" where
  "served nodes handler addr w = (case nodes addr of
     None \<Rightarrow> (w, Inl unavailable)
   | Some n \<Rightarrow> (case handler n w of
       Inl p \<Rightarrow> (w, Inl unavailable)
     | Inr (w', r) \<Rightarrow> (w', map_sum received_error id r)))"

definition cluster_net :: "(string \<Rightarrow> ServerNode option) \<Rightarrow> 'w Proposer \<Rightarrow> ('w \<Rightarrow> Store) \<Rightarrow> ('w \<Rightarrow> int64)
    \<Rightarrow> 'w Net \<Rightarrow> 'w Net" where
  "cluster_net nodes pr view clk base = base\<lparr>ntDial := \<lambda>_. None,
     ntInfo := served nodes (\<lambda>n w. Inr (w, Inr (Node_Info n))),
     ntPut := \<lambda>addr req. served nodes (\<lambda>n w. Node_Put n pr (clk w) req w) addr,
     ntDelete := \<lambda>addr req. served nodes (\<lambda>n w. Node_Delete n pr view req w) addr,
     ntRegister := \<lambda>addr req. served nodes (\<lambda>n w. Node_Register n pr (clk w) req w) addr,
     ntHeartbeat := \<lambda>addr req. served nodes (\<lambda>n w. Node_Heartbeat n pr view (clk w) (clk w) req w) addr\<rparr>"

text \<open>All nodes are configured with the same leader, at \<open>lead\<close>, and one of them is it.\<close>

definition cluster_ok :: "(string \<Rightarrow> ServerNode option) \<Rightarrow> string \<Rightarrow> bool" where
  "cluster_ok nodes lead \<longleftrightarrow> lead \<noteq> [] \<and> set lead \<inter> set '';, '' = {} \<and> nodes lead \<noteq> None
     \<and> (\<forall>a n. nodes a = Some n \<longrightarrow> peer_addr (svCfg n) (ncLeaderID (svCfg n)) = lead
          \<and> (svIsLeader n \<longleftrightarrow> a = lead))"

lemma leaderAddress_Node_Info: "leaderAddress (Node_Info n) = peer_addr (svCfg n) (ncLeaderID (svCfg n))"
proof -
  have "(case List.find (\<lambda>x. nodeId x = l) (map (\<lambda>(i, a). \<lparr>nodeId = i, nodeAddress = a\<rparr>) m) of
      Some x \<Rightarrow> nodeAddress x | None \<Rightarrow> []) = (case map_of m l of None \<Rightarrow> [] | Some a \<Rightarrow> a)" for m l
    by (induction m) auto
  then show ?thesis by (simp add: leaderAddress_def Node_Info_def peer_addr_def)
qed

definition client_ok :: "(string \<Rightarrow> ServerNode option) \<Rightarrow> nat \<Rightarrow> Client \<Rightarrow> bool" where
  "client_ok nodes m c \<longleftrightarrow> clEndpoints c \<noteq> [] \<and> (\<forall>a\<in>set (clEndpoints c). nodes a \<noteq> None)
     \<and> (clLeader c \<noteq> [] \<longrightarrow> nodes (clLeader c) \<noteq> None)
     \<and> 0 \<le> clRrIndex c \<and> clRrIndex c + int m + int (length (clEndpoints c)) < 2 ^ 63"

lemma conn_cluster: "\<exists>c'. conn (cluster_net nodes pr view clk base) a c = (c', None) \<and> conns_only c c'"
  by (rule conn_ok) (simp add: cluster_net_def)

lemma discoverLeader_cluster:
  assumes "cluster_ok nodes lead" and "client_ok nodes (Suc m) c"
  shows "\<exists>c'. discoverLeader (cluster_net nodes pr view clk base) c w = Inr (c', w, lead, None)
    \<and> client_ok nodes m c' \<and> clLeader c' = lead"
proof -
  let ?net = "cluster_net nodes pr view clk base" and ?k = "clRrIndex c" and ?n = "length (clEndpoints c)"
  let ?c1 = "c\<lparr>clRrIndex := ?k + 1\<rparr>"
  have k: "0 \<le> ?k" "?k + 1 + int ?n < 2 ^ 63" and n: "0 < ?n"
    using assms(2) by (auto simp: client_ok_def)
  have start: "next_start c = (?c1, ?k)"
    using next_start_eq [of c] k by (simp add: wrap64_id is_int64_def)
  let ?a = "rotate (nat ?k) (clEndpoints c) ! 0"
  have at: "endpoint_at ?c1 ?k 0 = Inr ?a"
    using endpoint_at_rotate [of 0 ?c1 ?k] k n by simp
  have "?a \<in> set (clEndpoints c)" using n by (metis length_rotate nth_mem set_rotate)
  then obtain node where node: "nodes ?a = Some node" using assms(2) by (auto simp: client_ok_def)
  then have lead: "leaderAddress (Node_Info node) = lead" "lead \<noteq> []"
    using assms(1) by (auto simp: leaderAddress_Node_Info cluster_ok_def)
  obtain c2 where c2: "conn ?net ?a ?c1 = (c2, None)" "conns_only ?c1 c2" using conn_cluster by blast
  have "ntInfo ?net ?a w = (w, Inr (Node_Info node))" by (simp add: cluster_net_def served_def node)
  moreover have "[0..<?n] = 0 # [1..<?n]" using n by (simp add: upt_conv_Cons)
  ultimately have "discoverLeader ?net c w = Inr (c2\<lparr>clLeader := lead\<rparr>, w, lead, None)"
    using at c2(1) lead by (simp add: discoverLeader_def start clusterClient_def)
  moreover have "client_ok nodes m (c2\<lparr>clLeader := lead\<rparr>)"
    using assms k by (auto simp: client_ok_def conns_only_sel [OF c2(2)] cluster_ok_def)
  ultimately show ?thesis by simp
qed

lemma ensureLeader_cluster:
  assumes "cluster_ok nodes lead" and "client_ok nodes (Suc m) c"
  shows "\<exists>c' a. ensureLeader (cluster_net nodes pr view clk base) c w = Inr (c', w, a, None)
    \<and> client_ok nodes m c' \<and> nodes a \<noteq> None \<and> (clLeader c = [] \<or> clLeader c = lead \<longrightarrow> a = lead) \<and> clLeader c' = a"
proof (cases "clLeader c = []")
  case True
  with discoverLeader_cluster [OF assms] assms(1) show ?thesis
    by (fastforce simp: ensureLeader_def knownLeader_def cluster_ok_def)
next
  case False
  then have "ensureLeader (cluster_net nodes pr view clk base) c w = Inr (c, w, clLeader c, None)"
    by (simp add: ensureLeader_def knownLeader_def)
  moreover have "client_ok nodes m c" "nodes (clLeader c) \<noteq> None" using assms(2) False by (auto simp: client_ok_def)
  ultimately show ?thesis using False by blast
qed

text \<open>The replies of a follower and of the leader to a put.\<close>

lemma not_leader_error:
  assumes "lead \<noteq> []" and "set lead \<inter> set '';, '' = {}"
  shows "mapStatus (received_error (withLeaderHint ErrNotLeader lead)) = CErrNotLeader"
    and "parseLeaderHint (received_error (withLeaderHint ErrNotLeader lead)) = lead"
proof -
  have "takeWhile (\<lambda>x. x \<notin> set '';, '') lead = lead"
    using assms(2) by (subst takeWhile_eq_all_conv) auto
  then show "parseLeaderHint (received_error (withLeaderHint ErrNotLeader lead)) = lead"
    using hint_roundtrip [of ErrNotLeader lead] by simp
qed (use assms(1) in \<open>simp add: withLeaderHint_def toGRPCError_def received_error_def mapStatus_def\<close>)

lemma put_at_follower:
  assumes "cluster_ok nodes lead" and "nodes a \<noteq> None" and "a \<noteq> lead"
  shows "ntPut (cluster_net nodes pr view clk base) a req w = (w, Inl (received_error (withLeaderHint ErrNotLeader lead)))"
proof -
  obtain n where n: "nodes a = Some n" using assms(2) by blast
  then have "\<not> svIsLeader n" "peer_addr (svCfg n) (ncLeaderID (svCfg n)) = lead"
    using assms(1,3) by (auto simp: cluster_ok_def)
  then show ?thesis by (simp add: cluster_net_def served_def n Node_Put_def mapProposeError_def)
qed

definition put_committed :: "PutRequest \<Rightarrow> Store \<Rightarrow> Store \<Rightarrow> PutResponse \<Rightarrow> bool" where
  "put_committed req s s' resp \<longleftrightarrow> (\<exists>i kv now. rev s < i \<and> i \<le> rev s' \<and> psKv resp = Some kv \<and> put_took_effect now req i kv)"

definition put_refused :: "PutRequest \<Rightarrow> Store \<Rightarrow> Store \<Rightarrow> bool" where
  "put_refused req s s' \<longleftrightarrow> (\<exists>i now. rev s < i \<and> i \<le> rev s' \<and> put_conflicted now req i)"

lemma put_at_leader:
  assumes "cluster_ok nodes lead" and "world_ok cfg (Suc k) w"
  shows "\<exists>w' r. ntPut (cluster_net nodes scripted_propose leader_view clk base) lead req w = (w', r) \<and> world_ok cfg k w'
    \<and> rev (leader_view w) \<le> rev (leader_view w')
    \<and> (case r of
        Inr resp \<Rightarrow> put_committed req (leader_view w) (leader_view w') resp
      | Inl e \<Rightarrow> (e = received_error (toGRPCError (ErrStore ErrCASConflict)) \<and> put_refused req (leader_view w) (leader_view w'))
          \<or> (\<exists>err. e = received_error (withLeaderHint err lead) \<and> (err = ErrNotLeader \<or> (\<exists>x. err = ErrCtx x))))"
proof -
  obtain n where n: "nodes lead = Some n" "svIsLeader n" "peer_addr (svCfg n) (ncLeaderID (svCfg n)) = lead"
    using assms(1) by (auto simp: cluster_ok_def)
  from leader_writes.Node_Put_ok [OF assms(2) n(2), of "clk w" req] obtain w' r where
    "Node_Put n scripted_propose (clk w) req w = Inr (w', r)" "world_ok cfg k w'"
    "rev (leader_view w) \<le> rev (leader_view w')"
    "case r of
        Inr resp \<Rightarrow> \<exists>i kv. rev (leader_view w) < i \<and> i \<le> rev (leader_view w') \<and> psKv resp = Some kv
          \<and> put_took_effect (clk w) req i kv
      | Inl e \<Rightarrow> (e = toGRPCError (ErrStore ErrCASConflict)
            \<and> (\<exists>i. rev (leader_view w) < i \<and> i \<le> rev (leader_view w') \<and> put_conflicted (clk w) req i))
          \<or> (\<exists>err. e = mapProposeError n err \<and> (err = ErrNotLeader \<or> (\<exists>x. err = ErrCtx x)))" by blast
  with n show ?thesis
    by (cases r) (auto simp: cluster_net_def served_def put_committed_def put_refused_def mapProposeError_def)
qed

text \<open>What a put returns to the user.\<close>

definition put_answer :: "PutRequest \<Rightarrow> Store \<Rightarrow> Store \<Rightarrow> PutResponse reply \<Rightarrow> bool" where
  "put_answer req s s' r \<longleftrightarrow> rev s \<le> rev s' \<and> (case r of
     Inr resp \<Rightarrow> put_committed req s s' resp
   | Inl err \<Rightarrow> (err = Some CErrCASConflict \<and> put_refused req s s') \<or> err = Some CErrNoQuorum
       \<or> (\<exists>m. err = Some (CStatus CodeUnavailable m)) \<or> (\<exists>m. err = Some (CStatus CodeCanceled m)))"

lemma put_answer_later: "rev s0 \<le> rev s \<Longrightarrow> put_answer req s s' r \<Longrightarrow> put_answer req s0 s' r"
  unfolding put_answer_def put_committed_def put_refused_def
  by (cases r) (fastforce intro: order_trans le_less_trans)+

text \<open>The error codes of the leader, as the client sees them.\<close>

lemma leader_error_codes:
  "mapStatus (received_error (toGRPCError (ErrStore ErrCASConflict))) = CErrCASConflict"
  "\<not> isRetryableTransport (received_error (toGRPCError (ErrStore ErrCASConflict)))"
  "\<exists>m. received_error (withLeaderHint (ErrCtx DeadlineExceeded) lead) = CStatus CodeUnavailable m"
  "\<exists>m. received_error (withLeaderHint (ErrCtx Canceled) lead) = CStatus CodeCanceled m"
  by (simp_all add: toGRPCError_def withLeaderHint_def received_error_def mapStatus_def isRetryableTransport_def)

lemma put_attempts:
  assumes "cluster_ok nodes lead" and "as = [] \<or> as = [1] \<or> as = [0, 1]"
    and "as \<noteq> [0, 1] \<longrightarrow> clLeader c = [] \<or> clLeader c = lead"
    and "client_ok nodes (length as) c" and "world_ok cfg (k + length as) w"
  shows "\<exists>c' w' r. kv_attempts (cluster_net nodes scripted_propose leader_view clk base)
      (\<lambda>a. ntPut (cluster_net nodes scripted_propose leader_view clk base) a req) as c w = Inr (c', w', r)
    \<and> world_ok cfg k w' \<and> put_answer req (leader_view w) (leader_view w') r \<and> (clLeader c' = [] \<or> clLeader c' = lead)"
  using assms(2-5)
proof (induction "as" arbitrary: c w)
  case Nil
  then show ?case by (auto simp: put_answer_def)
next
  case (Cons attempt rest)
  let ?net = "cluster_net nodes scripted_propose leader_view clk base"
  have lead: "lead \<noteq> []" "set lead \<inter> set '';, '' = {}" using assms(1) by (auto simp: cluster_ok_def)
  have later: "rest = [] \<or> rest = [1]" using Cons.prems(1) by auto
  obtain c1 a where c1: "ensureLeader ?net c w = Inr (c1, w, a, None)" "client_ok nodes (length rest) c1" "nodes a \<noteq> None" "clLeader c1 = a"
    using ensureLeader_cluster [OF assms(1), of "length rest" c scripted_propose leader_view clk base w] Cons.prems(3) by auto
  obtain c2 where c2: "conn ?net a c1 = (c2, None)" "conns_only c1 c2" using conn_cluster by blast
  have ok2: "client_ok nodes (length rest) (c2\<lparr>clLeader := l\<rparr>)" if "l = [] \<or> l = lead" for l
    using c1(2) that assms(1) by (auto simp: client_ok_def conns_only_sel [OF c2(2)] cluster_ok_def)
  have step: "kv_attempts ?net (\<lambda>a. ntPut ?net a req) (attempt # rest) c w =
      (case ntPut ?net a req w of
          (w2, Inr resp) \<Rightarrow> Inr (c2, w2, Inr resp)
        | (w2, Inl err) \<Rightarrow>
            if mapStatus err = CErrNotLeader
            then (let hint = parseLeaderHint err
                  in if hint \<noteq> [] then kv_attempts ?net (\<lambda>a. ntPut ?net a req) rest (c2\<lparr>clLeader := hint\<rparr>) w2
                     else go_bind (discoverLeader ?net c2 w2)
                            (\<lambda>(c3, w3, _). kv_attempts ?net (\<lambda>a. ntPut ?net a req) rest c3 w3))
            else if isRetryableTransport err \<and> attempt = 0
            then kv_attempts ?net (\<lambda>a. ntPut ?net a req) rest (c2\<lparr>clLeader := []\<rparr>) w2
            else Inr (c2, w2, Inl (Some (mapStatus err))))"
    using c1(1) c2(1) by (simp add: kvClient_def)
  have again: "\<exists>c' w' r. kv_attempts ?net (\<lambda>a. ntPut ?net a req) rest (c2\<lparr>clLeader := l\<rparr>) w2 = Inr (c', w', r)
      \<and> world_ok cfg k w' \<and> put_answer req (leader_view w2) (leader_view w') r \<and> (clLeader c' = [] \<or> clLeader c' = lead)"
    if "l = [] \<or> l = lead" "world_ok cfg (k + length rest) w2" for l w2
    using Cons.IH [of "c2\<lparr>clLeader := l\<rparr>" w2] later that ok2 [OF that(1)] by auto
  show ?case
  proof (cases "a = lead")
    case False
    have "world_ok cfg (k + length rest) w" using Cons.prems(4) leader_calls.weaken by simp
    from again [OF _ this, of lead] show ?thesis
      unfolding step put_at_follower [OF assms(1) c1(3) False] using not_leader_error [OF lead] lead by (simp del: kv_attempts.simps)
  next
    case True
    obtain w2 r where put: "ntPut ?net lead req w = (w2, r)" "world_ok cfg (k + length rest) w2"
      "rev (leader_view w) \<le> rev (leader_view w2)"
      and r: "case r of
        Inr resp \<Rightarrow> put_committed req (leader_view w) (leader_view w2) resp
      | Inl e \<Rightarrow> (e = received_error (toGRPCError (ErrStore ErrCASConflict)) \<and> put_refused req (leader_view w) (leader_view w2))
          \<or> (\<exists>err. e = received_error (withLeaderHint err lead) \<and> (err = ErrNotLeader \<or> (\<exists>x. err = ErrCtx x)))"
      using put_at_leader [OF assms(1), of cfg "k + length rest" w clk base req] Cons.prems(4) by auto
    have known: "clLeader c2 = lead" using c1(4) True by (simp add: conns_only_sel [OF c2(2)])
    have ok: "world_ok cfg k w2" using put(2) by (simp add: world_ok_def)
    have retry: ?thesis if "kv_attempts ?net (\<lambda>a. ntPut ?net a req) (attempt # rest) c w =
        kv_attempts ?net (\<lambda>a. ntPut ?net a req) rest (c2\<lparr>clLeader := l\<rparr>) w2" "l = [] \<or> l = lead" for l
      using again [OF that(2) put(2)] put_answer_later [OF put(3)] unfolding that(1) by blast
    have stop: ?thesis if "kv_attempts ?net (\<lambda>a. ntPut ?net a req) (attempt # rest) c w = Inr (c2, w2, q)"
        "put_answer req (leader_view w) (leader_view w2) q" for q
      using that ok known by blast
    consider (answered) resp where "r = Inr resp" | (conflict) "r = Inl (received_error (toGRPCError (ErrStore ErrCASConflict)))"
        "put_refused req (leader_view w) (leader_view w2)"
      | (moved) "r = Inl (received_error (withLeaderHint ErrNotLeader lead))"
      | (late) m where "r = Inl (CStatus CodeUnavailable m)" | (cancelled) m where "r = Inl (CStatus CodeCanceled m)"
    proof (cases r)
      case (Inl e)
      with r consider "e = received_error (toGRPCError (ErrStore ErrCASConflict))" "put_refused req (leader_view w) (leader_view w2)"
        | "e = received_error (withLeaderHint ErrNotLeader lead)"
        | x where "e = received_error (withLeaderHint (ErrCtx x) lead)" by auto
      then show thesis
      proof cases
        case (3 x)
        then show thesis
          using Inl that(4,5) leader_error_codes(3,4) [of lead] by (cases x) auto
      qed (use Inl that(2,3) in simp_all)
    qed (use that(1) in simp)
    then show ?thesis
    proof cases
      case answered
      with r put(3) show ?thesis by (intro stop [of "Inr resp"]) (simp_all add: step True put(1) put_answer_def del: kv_attempts.simps)
    next
      case conflict
      with put(3) show ?thesis
        by (intro stop [of "Inl (Some CErrCASConflict)"]) (simp_all add: step True put(1) put_answer_def leader_error_codes del: kv_attempts.simps)
    next
      case moved
      with not_leader_error [OF lead] lead show ?thesis by (intro retry [of lead]) (simp_all add: step True put(1) del: kv_attempts.simps)
    next
      case late
      show ?thesis
      proof (cases "attempt = 0")
        case True
        have "kv_attempts ?net (\<lambda>a. ntPut ?net a req) (attempt # rest) c w =
            kv_attempts ?net (\<lambda>a. ntPut ?net a req) rest (c2\<lparr>clLeader := []\<rparr>) w2"
          unfolding step using late \<open>a = lead\<close> True by (simp add: put(1) mapStatus_def isRetryableTransport_def)
        then show ?thesis by (rule retry) simp
      next
        case False
        with late \<open>a = lead\<close> put(3) show ?thesis
          by (intro stop [of "Inl (Some (mapStatus (CStatus CodeUnavailable m)))"])
            (simp_all add: step put(1) mapStatus_def put_answer_def del: kv_attempts.simps)
      qed
    next
      case cancelled
      with put(3) show ?thesis
        by (intro stop [of "Inl (Some (CStatus CodeCanceled m))"])
          (simp_all add: step True put(1) mapStatus_def isRetryableTransport_def put_answer_def del: kv_attempts.simps)
    qed
  qed
qed

subsection \<open>Properties of writes\<close>


definition nodes3 :: "string \<Rightarrow> ServerNode option" where
  "nodes3 = [''a'' \<mapsto> NewNode node_config3, ''b'' \<mapsto> NewNode (node_config3\<lparr>ncNodeID := 2\<rparr>),
     ''c'' \<mapsto> NewNode (node_config3\<lparr>ncNodeID := 3\<rparr>)]"

lemma nodes3_ok: "cluster_ok nodes3 ''a''"
  by (auto simp: cluster_ok_def nodes3_def NewNode_def node_config3_def peer_addr_def split: if_splits)


text \<open>A proposal that times out and the same proposal again: both entries are committed.\<close>

lemma timed_out_then_answered:
  assumes "op_fits e"
  shows "\<exists>l1 l3 s1 out1 out. propose_call [] (CaseCtxDone DeadlineExceeded) e (nodeLeader cfg3)
        = Inr (Some (l1, Inl (ErrCtx DeadlineExceeded)))
    \<and> LastIndex l1 = 1
    \<and> propose_call [ActAck 2 2, ActTurn clk] CaseResult e l1 = Inr (Some (l3, Inr out))
    \<and> applyOne StoreApplier (clk 1) (e\<lparr>leIndex := 1, leTerm := 1\<rparr>) New = Inr (s1, out1)
    \<and> applyOne StoreApplier (clk 2) (e\<lparr>leIndex := 2, leTerm := 1\<rparr>) s1 = Inr (ldState l3, out)"
proof -
  define p1 where "p1 = proposed e (nodeLeader cfg3)"
  have p1: "Propose e (nodeLeader cfg3) = Inr (p1, Inr 1)"
    by (simp add: p1_def proposed_def Propose_def leader_eval wake_def notifyReplicators_def notify_def)
  define l1 where "l1 = p1\<lparr>waiters := AList.delete 1 (waiters p1)\<rparr>"
  have first: "propose_call [] (CaseCtxDone DeadlineExceeded) e (nodeLeader cfg3) = Inr (Some (l1, Inl (ErrCtx DeadlineExceeded)))"
    by (simp add: propose_call_def p1 propose_select_def l1_def)
  have l1: "l1 = proposed e (nodeLeader cfg3)\<lparr>waiters := []\<rparr>"
    by (simp add: l1_def p1_def proposed_def Propose_def leader_eval wake_def notifyReplicators_def notify_def)
  have f1: "LastIndex l1 = 1" "ldCommit l1 = 0" "wakeCh l1 = \<lparr>chBuf = [()], chCap = 1, chClosed = False\<rparr>" "waiters l1 = []"
    "ldMatch l1 = []" "ldCfg l1 = cfg3" "ldLog l1 = [e\<lparr>leIndex := 1, leTerm := 1\<rparr>]" "compactIndex l1 = 0" "ldState l1 = New"
    "stopped l1 = False" "ping l1 = newBroadcaster"
    by (simp_all add: l1 proposed_def Propose_def leader_eval wake_def notifyReplicators_def notify_def)
  have reach1: "leader_reach cfg3 p1"
    using op_fits_at [OF assms, of 1] by (intro leader_reach.propose [OF leader_reach.start _ p1])
      (simp add: leader_eval maxIndex_def)
  have reach1': "leader_reach cfg3 l1"
    by (rule leader_reach.select [OF reach1, of "CaseCtxDone DeadlineExceeded" 1 _ "Inl (ErrCtx DeadlineExceeded)"])
      (simp add: propose_select_def l1_def)
  define l2 where "l2 = proposed e l1"
  note eval2 = proposed_def Propose_def f1 wake_def notifyReplicators_def notify_def newBroadcaster_def
  have p2: "Propose e l1 = Inr (l2, Inr 2)" by (simp add: l2_def eval2)
  have f2: "LastIndex l2 = 2" "ldCommit l2 = 0" "wakeCh l2 = \<lparr>chBuf = [()], chCap = 1, chClosed = False\<rparr>" "waiters l2 = [(2, 2)]"
    "ldMatch l2 = []" "ldCfg l2 = cfg3" "ldLog l2 = [e\<lparr>leIndex := 1, leTerm := 1\<rparr>, e\<lparr>leIndex := 2, leTerm := 1\<rparr>]"
    "compactIndex l2 = 0" "ldState l2 = New"
    by (simp_all add: l2_def eval2 LastIndex_def)
  have reach2: "leader_reach cfg3 l2"
    using op_fits_at [OF assms, of 2] by (intro leader_reach.propose [OF reach1' _ p2]) (simp add: f1 maxIndex_def)
  define l3 where "l3 = l2\<lparr>ldMatch := [(2, 2)]\<rparr>"
  have ack: "FollowerAck 2 2 l2 = Inr l3"
    by (simp add: FollowerAck_def wake_def MatchOf_def f2 l3_def)
  have f3: "LastIndex l3 = 2" "ldCommit l3 = 0" "chBuf (wakeCh l3) \<noteq> []" "waiters l3 = [(2, 2)]" "ldMatch l3 = [(2, 2)]"
    "ldCfg l3 = cfg3" "ldState l3 = New" "log_range 1 2 l3 = [e\<lparr>leIndex := 1, leTerm := 1\<rparr>, e\<lparr>leIndex := 2, leTerm := 1\<rparr>]"
    using f2 by (simp_all add: l3_def LastIndex_def log_range_def)
  have inv: "node_inv l3" using leader_reach_inv [OF leader_reach.acked [OF reach2 ack]] by blast
  have "votes l3 2 = 2" "needVotes l3 = 2"
    by (simp_all add: votes_def needVotes_def f3 cfg3_def MatchOf_def Quorum_def go_div_def)
  then have two: "find_commit (\<lambda>i. votes l3 i \<ge> needVotes l3) (LastIndex l3) (ldCommit l3) = 2"
    by (subst find_commit.simps) (simp add: f3)
  obtain l4 rs where l4: "commitLoop_turn clk l3 = Inr (Some l4)"
    "apply_all StoreApplier (clocked clk 1 [e\<lparr>leIndex := 1, leTerm := 1\<rparr>, e\<lparr>leIndex := 2, leTerm := 1\<rparr>]) New = Inr (ldState l4, rs)"
    "resChans l4 2 = Some ((make_chan 1)\<lparr>chBuf := [rs ! 1]\<rparr>)"
    using turn_ok [OF inv f3(3) two [symmetric], of clk] by (auto simp: f3)
  from l4(2) obtain s1 out1 out where run: "applyOne StoreApplier (clk 1) (e\<lparr>leIndex := 1, leTerm := 1\<rparr>) New = Inr (s1, out1)"
    "applyOne StoreApplier (clk 2) (e\<lparr>leIndex := 2, leTerm := 1\<rparr>) s1 = Inr (ldState l4, out)" "rs = [out1, out]"
    by (auto simp: go_bind_Inr_iff)
  define l5 where "l5 = l4\<lparr>resChans := (resChans l4)(2 \<mapsto> make_chan 1)\<rparr>"
  have "propose_call [ActAck 2 2, ActTurn clk] CaseResult e l1 = Inr (Some (l5, Inr out))" "ldState l5 = ldState l4"
    using l4(1,3) run(3) by (simp_all add: propose_call_def p2 ack propose_select_def try_recv_def l5_def make_chan_def)
  with first f1(1) run(1,2) show ?thesis by (intro exI [of _ l1] exI [of _ l5]) auto
qed

definition world_retry :: leader_world where
  "world_retry = (nodeLeader cfg3, [([], CaseCtxDone DeadlineExceeded), ([ActAck 2 2, ActTurn (\<lambda>_. 5)], CaseResult)])"

lemma store_error_stops:
  "mapStatus (received_error (toGRPCError (ErrStore err))) \<noteq> CErrNotLeader"
  "\<not> isRetryableTransport (received_error (toGRPCError (ErrStore err)))"
  by (cases err; simp add: toGRPCError_def received_error_def mapStatus_def isRetryableTransport_def)+

text \<open>One call of \<open>Put\<close> in this world: the first RPC times out, the second is answered.\<close>

lemma put_retried:
  assumes net: "net = cluster_net nodes3 scripted_propose leader_view (\<lambda>_. 5) silent_net"
    and e: "e = op_entry (LogEntry_Put (put_request_op 5 req))"
  shows "\<exists>c' w' s1 out1 out. Client_Put net req (client_of [''a'']) world_retry = Inr (c', w',
      case ocErr out of None \<Rightarrow> Inr \<lparr>psKv = ocKV out, psLeaderId = 1\<rparr>
      | Some err \<Rightarrow> Inl (Some (mapStatus (received_error (toGRPCError (ErrStore err))))))
    \<and> applyOne StoreApplier 5 (e\<lparr>leIndex := 1, leTerm := 1\<rparr>) New = Inr (s1, out1)
    \<and> applyOne StoreApplier 5 (e\<lparr>leIndex := 2, leTerm := 1\<rparr>) s1 = Inr (leader_view w', out)"
proof -
  have fits: "op_fits e" by (simp add: e op_fits_def op_entry_def)
  obtain l1 l3 s1 out1 out where
    first: "propose_call [] (CaseCtxDone DeadlineExceeded) e (nodeLeader cfg3) = Inr (Some (l1, Inl (ErrCtx DeadlineExceeded)))"
      "LastIndex l1 = 1" and
    second: "propose_call [ActAck 2 2, ActTurn (\<lambda>_. 5)] CaseResult e l1 = Inr (Some (l3, Inr out))" and
    run: "applyOne StoreApplier 5 (e\<lparr>leIndex := 1, leTerm := 1\<rparr>) New = Inr (s1, out1)"
      "applyOne StoreApplier 5 (e\<lparr>leIndex := 2, leTerm := 1\<rparr>) s1 = Inr (ldState l3, out)"
    using timed_out_then_answered [OF fits, of "\<lambda>_. 5"] by blast
  let ?w1 = "(l1, [([ActAck 2 2, ActTurn (\<lambda>_. 5)], CaseResult)])" and ?w2 = "(l3, [])"
  have node: "nodes3 ''a'' = Some (NewNode node_config3)" by (simp add: nodes3_def)
  have cfg: "svIsLeader (NewNode node_config3)" "ncLeaderID (svCfg (NewNode node_config3)) = 1"
    "peer_addr (svCfg (NewNode node_config3)) 1 = ''a''"
    by (simp_all add: NewNode_def node_config3_def peer_addr_def)
  have calls: "prPropose scripted_propose e world_retry = Inr (?w1, Inl (ErrCtx DeadlineExceeded))"
    "prPropose scripted_propose e ?w1 = Inr (?w2, Inr out)"
    using first second by (simp_all add: scripted_propose_def scripted_call_def world_retry_def)
  have put: "ntPut net ''a'' req world_retry = (?w1, Inl (received_error (withLeaderHint (ErrCtx DeadlineExceeded) ''a'')))"
    "ntPut net ''a'' req ?w1 = (?w2, case ocErr out of
        None \<Rightarrow> Inr \<lparr>psKv = ocKV out, psLeaderId = 1\<rparr> | Some err \<Rightarrow> Inl (received_error (toGRPCError (ErrStore err))))"
    using calls unfolding e put_request_op_def
    by (simp_all add: net cluster_net_def served_def node Node_Put_def cfg mapProposeError_def split: option.split)
  obtain m where late: "received_error (withLeaderHint (ErrCtx DeadlineExceeded) ''a'') = CStatus CodeUnavailable m"
    using leader_error_codes(3) by blast
  have ok: "client_ok nodes3 (Suc 1) (client_of [''a''])" by (simp add: client_ok_def client_of_def nodes3_def)
  obtain c1 where c1: "discoverLeader net (client_of [''a'']) world_retry = Inr (c1, world_retry, ''a'', None)" "client_ok nodes3 1 c1"
    using discoverLeader_cluster [OF nodes3_ok ok, of scripted_propose leader_view "\<lambda>_. 5" silent_net world_retry]
    unfolding net by blast
  obtain c2 where c2: "conn net ''a'' c1 = (c2, None)" "conns_only c1 c2" using conn_cluster unfolding net by blast
  have "client_ok nodes3 (Suc 0) (c2\<lparr>clLeader := []\<rparr>)"
    using c1(2) by (simp add: client_ok_def conns_only_sel [OF c2(2)])
  then obtain c3 where c3: "discoverLeader net (c2\<lparr>clLeader := []\<rparr>) ?w1 = Inr (c3, ?w1, ''a'', None)"
    using discoverLeader_cluster [OF nodes3_ok, of 0 _ scripted_propose leader_view "\<lambda>_. 5" silent_net ?w1]
    unfolding net by blast
  obtain c4 where c4: "conn net ''a'' c3 = (c4, None)" using conn_cluster unfolding net by blast
  have "Client_Put net req (client_of [''a'']) world_retry = Inr (c4, ?w2,
      case ocErr out of None \<Rightarrow> Inr \<lparr>psKv = ocKV out, psLeaderId = 1\<rparr>
      | Some err \<Rightarrow> Inl (Some (mapStatus (received_error (toGRPCError (ErrStore err))))))"
    using c1(1) c2(1) c3 c4 put late store_error_stops
    by (simp add: Client_Put_def ensureLeader_def knownLeader_def client_of_def kvClient_def mapStatus_def [of "CStatus CodeUnavailable m"]
        isRetryableTransport_def [of "CStatus CodeUnavailable m"] split: option.split)
  with run show ?thesis by (auto simp: leader_view_def)
qed

lemma put_twice:
  assumes "op = put_request_op 5 req" and "prTtlMs req \<le> 0" and "cas_ok (prExpectedVersion req) None"
    and "applyOne StoreApplier 5 ((op_entry (LogEntry_Put op))\<lparr>leIndex := 1, leTerm := 1\<rparr>) New = Inr (s1, out1)"
    and "applyOne StoreApplier 5 ((op_entry (LogEntry_Put op))\<lparr>leIndex := 2, leTerm := 1\<rparr>) s1 = Inr (s2, out)"
  shows "\<exists>kv. Get 5 (prNamespace req) (prKey req) s1 = Some kv \<and> kvValue kv = prValue req \<and> kvRevision kv = 1
    \<and> (if prExpectedVersion req = 0
       then ocErr out = Some ErrCASConflict \<and> Get 5 (prNamespace req) (prKey req) s2 = Some kv
       else prExpectedVersion req = -1 \<longrightarrow> ocErr out = None \<and> (\<exists>kv'. ocKV out = Some kv' \<and> kvVersion kv' = 2))"
proof -
  let ?k = "(prNamespace req, prKey req)"
  have op: "poNamespace op = prNamespace req" "poKey op = prKey req" "poValue op = prValue req"
    "poExpectedVersion op = prExpectedVersion req" "poExpireAtMs op = 0"
    using assms(1,2) by (simp_all add: put_request_op_def expiry_def)
  have New: "rev New = 0" "live 5 (map_of (kvs New)) ?k = None" by (simp_all add: New_def live_def)
  from assms(4) obtain r1 where r1: "ApplyPut 5 1 op New = Inr (s1, r1)"
    by (auto simp: applyOne_def op_entry_def StoreApplier_def go_bind_Inr_iff)
  obtain rec where rec: "r1 = Inr rec" "rec = \<lparr>kvNamespace = prNamespace req, kvKey = prKey req, kvValue = prValue req,
      kvVersion = 1, kvRevision = 1, kvTtlMs = poTtlMs op, kvExpireAtMs = 0\<rparr>" "rev s1 = 1"
      "\<And>t. Get t (prNamespace req) (prKey req) s1 = Some rec"
    using ApplyPut_branches [OF reachable.init _ _ New(2) [symmetric, folded op(1,2)], of 1] r1 assms(3)
    by (auto simp: New(1) op maxIndex_def version_of_def)
  have reach: "reachable s1"
    by (rule reachable.apply_entry [OF reachable.init _ _ assms(4)]) (simp_all add: New op_entry_def maxIndex_def)
  obtain e where e: "live 5 (map_of (kvs s1)) ?k = Some e" "keVersion e = 1"
    using rec(4) [of 5] by (auto simp: Get_live kvToPB_def rec(2) split: option.splits)
  from assms(5) obtain r2 where r2: "ApplyPut 5 2 op s1 = Inr (s2, r2)" "out = putOutcome r2"
    by (auto simp: applyOne_def op_entry_def StoreApplier_def go_bind_Inr_iff)
  note second = ApplyPut_branches [OF reach, of 2 "Some e" 5 op]
  show ?thesis
    using second r2 rec e
    by (auto simp: op maxIndex_def cas_ok_def version_of_def putOutcome_def noOutcome_def)
qed

text \<open>C33: The retry of a put is not safe. The leader of a three-node cluster appends a put, the follower is
  slow, the call ends at its deadline with Unavailable and the client tries again; then the
  follower catches up and both entries are committed. A put that creates the key is reported as a
  conflict although its own value is what the key holds; an unconditional put to a new key leaves
  it at version 2.\<close>

theorem retry_not_idempotent:
  "(\<exists>c' w' kv. Client_Put (cluster_net nodes3 scripted_propose leader_view (\<lambda>_. 5) silent_net)
        (put_hello\<lparr>prExpectedVersion := 0\<rparr>) (client_of [''a'']) world_retry = Inr (c', w', Inl (Some CErrCASConflict))
      \<and> Get 5 ''ns'' ''k'' (leader_view w') = Some kv \<and> kvValue kv = ''hello'' \<and> kvRevision kv = 1)
    \<and> (\<exists>c' w' resp kv. Client_Put (cluster_net nodes3 scripted_propose leader_view (\<lambda>_. 5) silent_net)
        put_hello (client_of [''a'']) world_retry = Inr (c', w', Inr resp)
      \<and> psKv resp = Some kv \<and> kvVersion kv = 2)"
proof
  let ?req = "put_hello\<lparr>prExpectedVersion := 0\<rparr>"
  have create: "prTtlMs ?req \<le> 0" "cas_ok (prExpectedVersion ?req) None" "prExpectedVersion ?req = 0"
    "prNamespace ?req = ''ns''" "prKey ?req = ''k''" "prValue ?req = ''hello''"
    by (simp_all add: put_hello_def cas_ok_def)
  from put_retried [OF refl refl, of ?req] put_twice [OF refl create(1,2)] leader_error_codes(1)
  show "\<exists>c' w' kv. Client_Put (cluster_net nodes3 scripted_propose leader_view (\<lambda>_. 5) silent_net)
        ?req (client_of [''a'']) world_retry = Inr (c', w', Inl (Some CErrCASConflict))
      \<and> Get 5 ''ns'' ''k'' (leader_view w') = Some kv \<and> kvValue kv = ''hello'' \<and> kvRevision kv = 1"
    unfolding create(3-6) by (metis (no_types, lifting) option.simps(5))
  have put: "prTtlMs put_hello \<le> 0" "cas_ok (prExpectedVersion put_hello) None" "prExpectedVersion put_hello = -1"
    by (simp_all add: put_hello_def cas_ok_def)
  obtain c' w' s1 out1 out where run: "Client_Put (cluster_net nodes3 scripted_propose leader_view (\<lambda>_. 5) silent_net)
        put_hello (client_of [''a'']) world_retry = Inr (c', w',
      case ocErr out of None \<Rightarrow> Inr \<lparr>psKv = ocKV out, psLeaderId = 1\<rparr>
      | Some err \<Rightarrow> Inl (Some (mapStatus (received_error (toGRPCError (ErrStore err))))))"
    "applyOne StoreApplier 5 ((op_entry (LogEntry_Put (put_request_op 5 put_hello)))\<lparr>leIndex := 1, leTerm := 1\<rparr>) New = Inr (s1, out1)"
    "applyOne StoreApplier 5 ((op_entry (LogEntry_Put (put_request_op 5 put_hello)))\<lparr>leIndex := 2, leTerm := 1\<rparr>) s1 = Inr (leader_view w', out)"
    using put_retried [OF refl refl, of put_hello] by blast
  with put_twice [OF refl put(1,2) run(2,3)] put(3)
  show "\<exists>c' w' resp kv. Client_Put (cluster_net nodes3 scripted_propose leader_view (\<lambda>_. 5) silent_net)
        put_hello (client_of [''a'']) world_retry = Inr (c', w', Inr resp)
      \<and> psKv resp = Some kv \<and> kvVersion kv = 2"
    by auto
qed

end
