(* ===== verification/ClientWatchProps.thy ===== *)
theory ClientWatchProps
  imports ClientWatch ClientProps
begin

text \<open>
  What the consumer of a client watch sees over any number of connections, when each of them
  serves the stream of events as the handler of a node does.
\<close>

text \<open>\<open>evs\<close> is the list of all events of the cluster. The reply to a request at \<open>cursor\<close> is an initial part
  of the matching events after it; at cursor 0 it may start later.\<close>

definition serves_stream :: "string \<Rightarrow> string \<Rightarrow> Event list \<Rightarrow> WatchEvent round \<Rightarrow> bool" where
  "serves_stream ns key evs rd \<longleftrightarrow> (\<forall>addr cursor sent e. rdServe rd addr cursor = Inr (sent, e) \<longrightarrow>
     (\<exists>pre new rest. evs = pre @ new \<and> (0 < cursor \<longrightarrow> pre = []) \<and> sent @ rest = stream_from ns key cursor new))"

text \<open>The handler of a node does so: \<open>lost\<close> are the events before its retained history, \<open>todo\<close> those it has
  not applied yet.\<close>

lemma handler_serves:
  assumes "wcSent c @ rest = stream_from ns key cursor new" and "kept @ later = pre @ new" and "0 < cursor \<longrightarrow> pre = []"
    and "evs = lost @ kept @ later @ todo" and "0 < cursor \<longrightarrow> (\<forall>ev\<in>set lost. evSeq ev \<le> cursor)"
  shows "\<exists>pre' new' rest'. evs = pre' @ new' \<and> (0 < cursor \<longrightarrow> pre' = []) \<and> wcSent c @ rest' = stream_from ns key cursor new'"
proof (cases "0 < cursor")
  case True
  have "stream_from ns key cursor lost = []"
    using assms(5) True by (fastforce simp: stream_from_def filter_empty_conv)
  moreover have "evs = lost @ new @ todo" using assms(2-4) True by (metis append.assoc append_Nil)
  ultimately have "stream_from ns key cursor evs = wcSent c @ rest @ stream_from ns key cursor todo"
    using assms(1) by (simp add: stream_from_append flip: append_assoc)
  then have "evs = [] @ evs \<and> (0 < cursor \<longrightarrow> [] = []) \<and>
      wcSent c @ (rest @ stream_from ns key cursor todo) = stream_from ns key cursor evs" by simp
  then show ?thesis by blast
next
  case False
  have "evs = (lost @ pre) @ (new @ todo)" using assms(2,4) by (metis append.assoc)
  moreover have "wcSent c @ rest @ stream_from ns key cursor todo = stream_from ns key cursor (new @ todo)"
    using assms(1) by (simp add: stream_from_append flip: append_assoc)
  ultimately show ?thesis using False by blast
qed

lemma pumpWatch_eq:
  "pumpWatch evs err l = (l\<lparr>wlWatcher := (wlWatcher l)\<lparr>wtEvents := wtEvents (wlWatcher l) @ evs\<rparr>,
     wlCursor := (if evs = [] then wlCursor l else weRevision (last evs))\<rparr>, err)"
  by (induction evs arbitrary: l) auto

definition watch_loop_inv :: "string \<Rightarrow> string \<Rightarrow> int64 \<Rightarrow> Event list \<Rightarrow> WatchLoop \<Rightarrow> bool" where
  "watch_loop_inv ns key from evs l \<longleftrightarrow> (let got = wtEvents (wlWatcher l) in
     wlCursor l = (if got = [] then from else weRevision (last got))
     \<and> (\<exists>pre new rest. evs = pre @ new \<and> (0 < from \<longrightarrow> pre = []) \<and> got @ rest = stream_from ns key from new))"

lemma watch_loop_inv_pump:
  assumes inv: "watch_loop_inv ns key from evs l" and sorted: "sorted_wrt (<) (map evSeq evs)"
    and pos: "\<forall>ev\<in>set evs. 0 < evSeq ev"
    and served: "evs = pre' @ new'" "0 < wlCursor l \<longrightarrow> pre' = []" "sent @ rest' = stream_from ns key (wlCursor l) new'"
  shows "watch_loop_inv ns key from evs (fst (pumpWatch sent err l))"
proof -
  let ?got = "wtEvents (wlWatcher l)"
  obtain pre new rest where got: "wlCursor l = (if ?got = [] then from else weRevision (last ?got))"
    "evs = pre @ new" "0 < from \<longrightarrow> pre = []" "?got @ rest = stream_from ns key from new"
    using inv by (auto simp: watch_loop_inv_def Let_def)
  have "\<exists>pre new rest. evs = pre @ new \<and> (0 < from \<longrightarrow> pre = []) \<and> (?got @ sent) @ rest = stream_from ns key from new"
  proof (cases "?got = []")
    case True
    with got(1) served have "evs = pre' @ new' \<and> (0 < from \<longrightarrow> pre' = [])
        \<and> (?got @ sent) @ rest' = stream_from ns key from new'" by simp
    then show ?thesis by blast
  next
    case False
    have "last ?got \<in> set (stream_from ns key from new)" using False got(4) by (metis Un_iff last_in_set set_append)
    then obtain ev where ev: "ev \<in> set new" "weRevision (last ?got) = evSeq ev"
      by (auto simp: stream_from_def toWatchEvent_def)
    with False got(1,2) pos have "0 < wlCursor l" by auto
    with served have "sent @ rest' = stream_from ns key (wlCursor l) evs" by simp
    moreover have "stream_from ns key (wlCursor l) pre = []"
    proof -
      have "\<forall>x\<in>set pre. evSeq x < evSeq ev" using sorted ev(1) by (auto simp: got(2) sorted_wrt_append)
      then show ?thesis using False got(1) ev(2) by (fastforce simp: stream_from_def filter_empty_conv)
    qed
    moreover have "stream_from ns key (wlCursor l) new = rest"
      using stream_resume [OF _ got(4) False] sorted False got(1) by (simp add: got(2) sorted_wrt_append)
    ultimately have "sent @ rest' = rest" by (simp add: got(2) stream_from_append)
    with got show ?thesis by auto
  qed
  then show ?thesis
    using got(1) by (auto simp: pumpWatch_eq watch_loop_inv_def Let_def)
qed

definition backoff_ok :: "int64 \<Rightarrow> bool" where
  "backoff_ok b \<longleftrightarrow> b \<in> {200000000, 400000000, 800000000, 1600000000, 3200000000}"

lemma backoff_ok_grow: "backoff_ok b \<Longrightarrow> backoff_ok (grow_backoff b)"
  by (auto simp: backoff_ok_def grow_backoff_def mul64_def wrap64_id is_int64_def)

definition loop_ok :: "string \<Rightarrow> string \<Rightarrow> int64 \<Rightarrow> Event list \<Rightarrow> nat \<Rightarrow> WatchLoop \<Rightarrow> bool" where
  "loop_ok ns key from evs n l \<longleftrightarrow> watch_loop_inv ns key from evs l \<and> backoff_ok (wlBackoff l)
     \<and> clEndpoints (wlClient l) \<noteq> [] \<and> 0 \<le> clRrIndex (wlClient l) \<and> clRrIndex (wlClient l) + int n < 2 ^ 63
     \<and> wtErr (wlWatcher l) \<in> {None, Some CErrHistoryCompacted} \<union> range (\<lambda>x. Some (CCtx x))"

lemma loop_ok_end: "loop_ok ns key from evs n l \<Longrightarrow> err \<in> {None, Some CErrHistoryCompacted} \<union> range (\<lambda>x. Some (CCtx x)) \<Longrightarrow>
    loop_ok ns key from evs n (loop_end err l)"
  by (auto simp: loop_ok_def loop_end_def watch_loop_inv_def Let_def)

lemma loop_ok_turn:
  assumes ok: "loop_ok ns key from evs (Suc n) l" and sorted: "sorted_wrt (<) (map evSeq evs)"
    and pos: "\<forall>ev\<in>set evs. 0 < evSeq ev" and served: "serves_stream ns key evs rd"
  shows "\<exists>l' go_on. client_watch_turn net rd l = Inr (l', go_on) \<and> loop_ok ns key from evs n l'"
proof -
  have weaker: "loop_ok ns key from evs n l" using ok by (simp add: loop_ok_def)
  show ?thesis
  proof (cases "rdBefore rd")
    case (SelectCtx x)
    with loop_ok_end [OF weaker, of "Some (CCtx x)"] show ?thesis by (auto simp: client_watch_turn_def)
  next
    case SelectDone
    with loop_ok_end [OF weaker, of None] show ?thesis by (auto simp: client_watch_turn_def)
  next
    case SelectGo
    let ?c = "wlClient l"
    have rr: "clEndpoints ?c \<noteq> []" "0 \<le> clRrIndex ?c" "clRrIndex ?c + 1 + int n < 2 ^ 63"
      using ok by (auto simp: loop_ok_def)
    let ?c1 = "?c\<lparr>clRrIndex := clRrIndex ?c + 1\<rparr>"
    obtain addr where pick: "pickEndpoint ?c = Inr (?c1, addr)"
    proof -
      have n: "0 < int (length (clEndpoints ?c))" using rr(1) by simp
      have "go_mod (clRrIndex ?c) (int (length (clEndpoints ?c))) = clRrIndex ?c mod int (length (clEndpoints ?c))"
        using go_mod_nonneg [OF rr(2) n] .
      moreover have "next_start ?c = (?c1, clRrIndex ?c)"
        using next_start_eq [of ?c] rr by (simp add: wrap64_id is_int64_def)
      ultimately show thesis
        using that slice_at_ok [OF pos_mod_sign [OF n] pos_mod_bound [OF n], of "clRrIndex ?c"] by (simp add: pickEndpoint_def)
    qed
    obtain c2 derr where c2: "kvClient net addr ?c1 = (c2, derr)" by (cases "kvClient net addr ?c1")
    then have sel: "clEndpoints c2 = clEndpoints ?c" "clRrIndex c2 = clRrIndex ?c + 1"
      by (auto simp: kvClient_def conn_def split: if_splits option.splits)
    let ?l1 = "l\<lparr>wlClient := c2\<rparr>"
    have l1: "loop_ok ns key from evs n ?l1"
      using ok rr by (simp add: loop_ok_def sel watch_loop_inv_def Let_def)
    define p where "p = (case derr of Some e \<Rightarrow> (?l1, Some e)
        | None \<Rightarrow> (case rdServe rd addr (wlCursor ?l1) of Inl e \<Rightarrow> (?l1, Some e) | Inr (sent, e) \<Rightarrow> pumpWatch sent e ?l1))"
    have p: "loop_ok ns key from evs n (fst p)"
    proof (cases "derr = None \<and> (\<exists>sent e. rdServe rd addr (wlCursor l) = Inr (sent, e))")
      case False
      with l1 show ?thesis by (auto simp: p_def split: option.split sum.split)
    next
      case True
      then obtain sent e where sent: "rdServe rd addr (wlCursor l) = Inr (sent, e)" by blast
      obtain pre new rest where "evs = pre @ new" "0 < wlCursor ?l1 \<longrightarrow> pre = []"
        "sent @ rest = stream_from ns key (wlCursor ?l1) new"
        using served [unfolded serves_stream_def, rule_format, OF sent] that by auto
      from watch_loop_inv_pump [OF _ sorted pos this, of "from" e] l1
      have "watch_loop_inv ns key from evs (fst (pumpWatch sent e ?l1))" by (simp add: loop_ok_def)
      with l1 True sent show ?thesis by (simp add: p_def loop_ok_def pumpWatch_eq)
    qed
    obtain l2 err where l2: "p = (l2, err)" by (cases p)
    have turn: "client_watch_turn net rd l = Inr (case err of
           None \<Rightarrow> (loop_end None l2, False)
         | Some e \<Rightarrow>
             if mapStatus e = CErrHistoryCompacted then (loop_end (Some CErrHistoryCompacted) l2, False)
             else (case rdAfter rd of
                 SelectCtx x \<Rightarrow> (loop_end (Some (CCtx x)) l2, False)
               | SelectDone \<Rightarrow> (loop_end None l2, False)
               | SelectGo \<Rightarrow> (l2\<lparr>wlBackoff := grow_backoff (wlBackoff l2)\<rparr>, True)))"
      using l2 by (simp add: client_watch_turn_def SelectGo pick c2 p_def Let_def)
    have ok2: "loop_ok ns key from evs n l2" using p by (simp add: l2)
    moreover have "loop_ok ns key from evs n (l2\<lparr>wlBackoff := grow_backoff (wlBackoff l2)\<rparr>)"
      using ok2 backoff_ok_grow by (simp add: loop_ok_def watch_loop_inv_def Let_def)
    ultimately show ?thesis
      using loop_ok_end [OF ok2] unfolding turn by (auto split: option.split loop_select.split)
  qed
qed

lemma loop_ok_run:
  "loop_ok ns key from evs (length rds) l \<Longrightarrow> sorted_wrt (<) (map evSeq evs) \<Longrightarrow> \<forall>ev\<in>set evs. 0 < evSeq ev \<Longrightarrow>
    \<forall>rd\<in>set rds. serves_stream ns key evs rd \<Longrightarrow> \<exists>l' n. client_watch net rds l = Inr l' \<and> loop_ok ns key from evs n l'"
proof (induction rds arbitrary: l)
  case Nil
  then show ?case by auto
next
  case (Cons rd rds)
  obtain l' go_on where l': "client_watch_turn net rd l = Inr (l', go_on)" "loop_ok ns key from evs (length rds) l'"
    using loop_ok_turn [of ns key "from" evs "length rds" l rd net] Cons.prems by auto
  with Cons.IH [OF l'(2)] Cons.prems show ?case by (cases go_on) auto
qed

subsection \<open>Properties\<close>


text \<open>Connections that deliver one event each.\<close>

definition one_each :: "Event list \<Rightarrow> WatchEvent round" where
  "one_each evs = \<lparr>rdBefore = SelectGo, rdServe = \<lambda>addr cursor. Inr (take 1 (stream_from ''a'' ''k'' cursor evs), Some (CPlain ''EOF'')),
     rdAfter = SelectGo\<rparr>"

lemma one_each_serves: "serves_stream ''a'' ''k'' evs (one_each evs)"
proof -
  have "\<exists>pre new rest. evs = pre @ new \<and> (0 < cursor \<longrightarrow> pre = []) \<and> take 1 (stream_from ''a'' ''k'' cursor evs) @ rest
      = stream_from ''a'' ''k'' cursor new" for cursor
  proof -
    have "evs = [] @ evs \<and> (0 < cursor \<longrightarrow> [] = []) \<and> take 1 (stream_from ''a'' ''k'' cursor evs)
        @ drop 1 (stream_from ''a'' ''k'' cursor evs) = stream_from ''a'' ''k'' cursor evs" by (simp del: One_nat_def)
    then show ?thesis by blast
  qed
  then show ?thesis by (simp add: serves_stream_def one_each_def)
qed


end
