(* ===== verification/Lease.thy ===== *)
theory Lease
  imports ClientProps
begin

text \<open>
  Leases of the client library (\<open>client/lease.go\<close>): an instance is registered and kept alive by
  heartbeats at a third of its lifetime. \<open>KeepAlive\<close> is a machine whose steps are the selects at
  which the call waits; \<open>LeaseStop\<close> is the case of \<open>stopCh\<close>, \<open>LeaseTimer\<close> the timer or ticker.
\<close>

subsection \<open>Construction\<close>

record Lease =
  lsReq :: RegisterRequest
  lsTtl :: int64
  lsInterval :: int64
  lsRegistered :: bool
  lsStopClosed :: bool
  lsDoneClosed :: bool

text \<open>Durations are nanoseconds. The request is changed if its lifetime is not positive.\<close>

definition NewLease :: "RegisterRequest \<Rightarrow> Lease" where
  "NewLease req =
    (let ttl = mul64 (rrLeaseTtlMs req) 1000000;
         (ttl, req) = (if ttl \<le> 0 then (10 * 1000000000, req\<lparr>rrLeaseTtlMs := go_div (10 * 1000000000) 1000000\<rparr>)
                       else (ttl, req));
         interval = go_div ttl 3;
         interval = (if interval < 1000000000 then 1000000000 else interval)
     in \<lparr>lsReq = req, lsTtl = ttl, lsInterval = interval, lsRegistered = False,
         lsStopClosed = False, lsDoneClosed = False\<rparr>)"

subsection \<open>Keeping alive\<close>

text \<open>Where \<open>KeepAlive\<close> is: in the select of \<open>registerWithRetry\<close> (called at the start or after a failed
  heartbeat), in its own select, or returned.\<close>

datatype lease_select = LeaseCtx ctx_err | LeaseStop | LeaseTimer

datatype lease_phase = Registering bool | Ticking | Returned "cli_error option"

record 'w LeaseRun =
  lrLease :: Lease
  lrClient :: Client
  lrWorld :: 'w
  lrPhase :: lease_phase

text \<open>The deferred close of \<open>doneCh\<close>.\<close>

definition lease_return :: "cli_error option \<Rightarrow> 'w LeaseRun \<Rightarrow> 'w LeaseRun go" where
  "lease_return err r = (if lsDoneClosed (lrLease r) then Inl PanicCloseOfClosed
     else Inr (r\<lparr>lrLease := (lrLease r)\<lparr>lsDoneClosed := True\<rparr>, lrPhase := Returned err\<rparr>))"

text \<open>One turn of the loop of \<open>registerWithRetry\<close>, up to its select.\<close>

definition registerWithRetry :: "'w Net \<Rightarrow> bool \<Rightarrow> 'w LeaseRun \<Rightarrow> 'w LeaseRun go" where
  "registerWithRetry net initial r = go_bind (Client_Register net (lsReq (lrLease r)) (lrClient r) (lrWorld r)) (\<lambda>(c, w, reply).
     let r1 = r\<lparr>lrClient := c, lrWorld := w\<rparr>
     in Inr (case reply of
         Inr resp \<Rightarrow> r1\<lparr>lrLease := (lrLease r1)\<lparr>lsRegistered := True\<rparr>, lrPhase := Ticking\<rparr>
       | Inl err \<Rightarrow> r1\<lparr>lrPhase := Registering initial\<rparr>))"

definition heartbeatOnce :: "'w Net \<Rightarrow> 'w LeaseRun \<Rightarrow> ('w LeaseRun \<times> bool) go" where
  "heartbeatOnce net r = go_bind (Client_Heartbeat net \<lparr>hrNamespace = rrNamespace (lsReq (lrLease r)),
       hrService = rrService (lsReq (lrLease r)), hrInstanceId = rrInstanceId (lsReq (lrLease r))\<rparr> (lrClient r) (lrWorld r))
     (\<lambda>(c, w, reply). Inr (r\<lparr>lrClient := c, lrWorld := w\<rparr>, (case reply of Inr resp \<Rightarrow> True | Inl err \<Rightarrow> False)))"

definition KeepAlive :: "'w Net \<Rightarrow> Lease \<Rightarrow> Client \<Rightarrow> 'w \<Rightarrow> 'w LeaseRun go" where
  "KeepAlive net l c w = registerWithRetry net True \<lparr>lrLease = l, lrClient = c, lrWorld = w, lrPhase = Registering True\<rparr>"

text \<open>None: the case is not ready.\<close>

definition lease_step :: "'w Net \<Rightarrow> lease_select \<Rightarrow> 'w LeaseRun \<Rightarrow> 'w LeaseRun option go" where
  "lease_step net sel r = (case lrPhase r of
     Returned err \<Rightarrow> Inr None
   | Registering initial \<Rightarrow> (case sel of
         LeaseCtx x \<Rightarrow>
           if initial then go_bind (lease_return (Some (CCtx x)) r) (\<lambda>r'. Inr (Some r'))
           else Inr (Some (r\<lparr>lrPhase := Ticking\<rparr>))
       | LeaseStop \<Rightarrow> if lsStopClosed (lrLease r) then Inr (Some (r\<lparr>lrPhase := Ticking\<rparr>)) else Inr None
       | LeaseTimer \<Rightarrow> go_bind (registerWithRetry net initial r) (\<lambda>r'. Inr (Some r')))
   | Ticking \<Rightarrow> (case sel of
         LeaseCtx x \<Rightarrow> go_bind (lease_return (Some (CCtx x)) r) (\<lambda>r'. Inr (Some r'))
       | LeaseStop \<Rightarrow>
           if lsStopClosed (lrLease r) then go_bind (lease_return None r) (\<lambda>r'. Inr (Some r')) else Inr None
       | LeaseTimer \<Rightarrow> go_bind (heartbeatOnce net r) (\<lambda>(r1, alive).
           if alive then Inr (Some r1) else go_bind (registerWithRetry net False r1) (\<lambda>r'. Inr (Some r')))))"

text \<open>\<open>Stop\<close>; the boolean says whether its receive from \<open>doneCh\<close> is ready.\<close>

definition StopLease :: "Lease \<Rightarrow> (Lease \<times> bool) go" where
  "StopLease l = (if lsStopClosed l then Inl PanicCloseOfClosed else Inr (l\<lparr>lsStopClosed := True\<rparr>, lsDoneClosed l))"

fun lease_run :: "'w Net \<Rightarrow> lease_select list \<Rightarrow> 'w LeaseRun \<Rightarrow> 'w LeaseRun go" where
  "lease_run net [] r = Inr r"
| "lease_run net (sel # sels) r = go_bind (lease_step net sel r) (\<lambda>q.
     lease_run net sels (case q of None \<Rightarrow> r | Some r' \<Rightarrow> r'))"

subsection \<open>Properties\<close>



text \<open>The end of a lease. On a lease that is kept alive, \<open>Stop\<close> ends \<open>KeepAlive\<close>: whether it waits for
  the ticker or between two registrations, the case of \<open>stopCh\<close> is ready, and after at most two
  such selects it has returned nil and \<open>Stop\<close> can return. Without \<open>KeepAlive\<close>, \<open>Stop\<close> blocks, and a
  second \<open>Stop\<close> panics.\<close>

theorem lease_stop_returns:
  assumes "lrPhase r = Ticking \<or> (\<exists>b. lrPhase r = Registering b)" and "\<not> lsDoneClosed (lrLease r)"
    and "StopLease (lrLease r) = Inr (l, ready)"
  shows "\<not> ready \<and> (\<exists>r'. lease_run net [LeaseStop, LeaseStop] (r\<lparr>lrLease := l\<rparr>) = Inr r'
      \<and> lrPhase r' = Returned None \<and> lsDoneClosed (lrLease r') \<and> lrWorld r' = lrWorld r)
    \<and> StopLease l = Inl PanicCloseOfClosed
    \<and> StopLease (NewLease req) = Inr ((NewLease req)\<lparr>lsStopClosed := True\<rparr>, False)"
proof -
  have l: "l = (lrLease r)\<lparr>lsStopClosed := True\<rparr>" "\<not> ready"
    using assms(2,3) by (auto simp: StopLease_def split: if_splits)
  have "\<exists>r'. lease_run net [LeaseStop, LeaseStop] (r\<lparr>lrLease := l\<rparr>) = Inr r'
      \<and> lrPhase r' = Returned None \<and> lsDoneClosed (lrLease r') \<and> lrWorld r' = lrWorld r"
    using assms(1,2) by (auto simp: l lease_step_def lease_return_def)
  moreover have "StopLease l = Inl PanicCloseOfClosed" by (simp add: l StopLease_def)
  moreover have "StopLease (NewLease req) = Inr ((NewLease req)\<lparr>lsStopClosed := True\<rparr>, False)"
    by (simp add: StopLease_def NewLease_def Let_def split: prod.split)
  ultimately show ?thesis using l(2) by blast
qed

theorem lease_stop_returns_witness:
  "\<exists>l r'. StopLease (NewLease \<lparr>rrNamespace = ''a'', rrService = ''s'', rrInstanceId = ''i'', rrAddress = ''h:1'', rrMetadata = [],
        rrLeaseTtlMs = 6000\<rparr>) = Inr (l, False)
    \<and> lease_run (silent_net :: unit Net) [LeaseStop, LeaseStop] \<lparr>lrLease = l, lrClient = client_of [''a''], lrWorld = (), lrPhase = Registering True\<rparr> = Inr r'
    \<and> lrPhase r' = Returned None"
proof -
  let ?req = "\<lparr>rrNamespace = ''a'', rrService = ''s'', rrInstanceId = ''i'', rrAddress = ''h:1'', rrMetadata = [], rrLeaseTtlMs = 6000\<rparr>"
  let ?l = "(NewLease ?req)\<lparr>lsStopClosed := True\<rparr>"
  have fresh: "\<not> lsDoneClosed (NewLease ?req)" "\<not> lsStopClosed (NewLease ?req)"
    by (simp_all add: NewLease_def Let_def split: prod.split)
  then have stop: "StopLease (NewLease ?req) = Inr (?l, False)" by (simp add: StopLease_def)
  with fresh lease_stop_returns [of "\<lparr>lrLease = NewLease ?req, lrClient = client_of [''a''], lrWorld = (), lrPhase = Registering True\<rparr>"
      ?l False silent_net ?req]
  show ?thesis by auto
qed

end
