(* ===== verification/CommandLine.thy ===== *)
theory CommandLine
  imports ServerProps ClientWatch
begin

text \<open>
  The binary (\<open>cmd/distconf\<close>): which command runs, flags and environment variables, the
  configuration of a node, and the client commands. The process environment is a function. The
  checks of flag values are parameters, which \<open>Flags\<close> instantiates, as is \<open>time.ParseDuration\<close>;
  what a command prints is a list of outputs. The streaming commands read a watcher, whose
  event lists hold here what was not read yet.
\<close>

subsection \<open>Commands and the environment\<close>

datatype command =
    RunServe "string list"
  | RunClient string "string list"
  | ShowUsage
  | UnknownCommand string

definition client_commands :: "string list" where
  "client_commands = [''put'', ''get'', ''delete'', ''watch'', ''register'', ''heartbeat'', ''discover'', ''info'']"

definition main_command :: "string list \<Rightarrow> command" where
  "main_command argv =
    (let (cmd, args) = (case argv of
         [] \<Rightarrow> (''serve'', argv)
       | a # as \<Rightarrow> if \<not> HasPrefix a ''-'' then (a, as) else (''serve'', argv))
     in if cmd = ''serve'' then RunServe args
        else if cmd \<in> set client_commands then RunClient cmd args
        else if cmd \<in> {''-h'', ''--help'', ''help''} then ShowUsage
        else UnknownCommand cmd)"

definition env :: "(string \<Rightarrow> string) \<Rightarrow> string \<Rightarrow> string \<Rightarrow> string" where
  "env getenv key def = (let v = getenv key in if v \<noteq> [] then v else def)"

definition atoiOr :: "string \<Rightarrow> int64 \<Rightarrow> int64" where
  "atoiOr s def = (case Atoi s of Some v \<Rightarrow> v | None \<Rightarrow> def)"

definition durOr :: "(string \<Rightarrow> int64 option) \<Rightarrow> string \<Rightarrow> int64 \<Rightarrow> int64" where
  "durOr parseDuration s def = (case parseDuration s of Some d \<Rightarrow> d | None \<Rightarrow> def)"

subsection \<open>Flags\<close>

text \<open>The loop of \<open>flag.FlagSet.Parse\<close>. \<open>formal\<close> says which flags there are and which of them are
  boolean, \<open>valid\<close> which values a flag accepts. The settings come in the order of the arguments.\<close>

datatype flag_error =
    BadFlagSyntax string
  | FlagNotDefined string
  | HelpRequested
  | FlagNeedsArgument string
  | InvalidValue string string

definition flag_parts :: "string \<Rightarrow> string \<times> string option" where
  "flag_parts name = (let i = Index (tl name) ''='' in
     if i \<ge> 0 then (take (nat i + 1) name, Some (drop (nat i + 2) name)) else (name, None))"

fun parse_flags :: "(string \<Rightarrow> bool option) \<Rightarrow> (string \<Rightarrow> string \<Rightarrow> bool) \<Rightarrow> string list
    \<Rightarrow> flag_error + (string \<times> string) list" where
  "parse_flags formal valid [] = Inr []"
| "parse_flags formal valid (s # args) =
    (if length s < 2 \<or> List.hd s \<noteq> CHR ''-'' then Inr []
     else if s = ''--'' then Inr []
     else let name = (if s ! 1 = CHR ''-'' then drop 2 s else drop 1 s)
       in if name = [] \<or> List.hd name = CHR ''-'' \<or> List.hd name = CHR ''='' then Inl (BadFlagSyntax s)
       else let (key, value) = flag_parts name
         in case formal key of
           None \<Rightarrow> if key = ''help'' \<or> key = ''h'' then Inl HelpRequested else Inl (FlagNotDefined key)
         | Some True \<Rightarrow>
             (let v = (case value of Some v \<Rightarrow> v | None \<Rightarrow> ''true'')
              in if valid key v then map_sum id ((#) (key, v)) (parse_flags formal valid args)
                 else Inl (InvalidValue key v))
         | Some False \<Rightarrow> (case value of
             Some v \<Rightarrow> if valid key v then map_sum id ((#) (key, v)) (parse_flags formal valid args)
                       else Inl (InvalidValue key v)
           | None \<Rightarrow> (case args of
                 [] \<Rightarrow> Inl (FlagNeedsArgument key)
               | v # args' \<Rightarrow> if valid key v then map_sum id ((#) (key, v)) (parse_flags formal valid args')
                              else Inl (InvalidValue key v))))"

text \<open>The value of a flag: the last setting, or the default.\<close>

definition flag_value :: "(string \<times> string) list \<Rightarrow> string \<Rightarrow> string option" where
  "flag_value settings key = map_of (List.rev settings) key"

subsection \<open>Node configuration\<close>

datatype config_error = NodeIdRequired | BadPeerSpec string | BadPeerId string

fun parsePeers_loop :: "string list \<Rightarrow> (int32, string) gomap \<Rightarrow> config_error + (int32, string) gomap" where
  "parsePeers_loop [] out = Inr out"
| "parsePeers_loop (item # items) out =
    (let item = TrimSpace item
     in if item = [] then parsePeers_loop items out
        else let kv = SplitN2 item (CHR ''='')
          in if length kv \<noteq> 2 then Inl (BadPeerSpec item)
             else case Atoi (TrimSpace (kv ! 0)) of
               None \<Rightarrow> Inl (BadPeerId (kv ! 0))
             | Some i \<Rightarrow> parsePeers_loop items (AList.update (wrap32 i) (TrimSpace (kv ! 1)) out))"

definition parsePeers :: "string \<Rightarrow> config_error + (int32, string) gomap" where
  "parsePeers spec = (let spec = TrimSpace spec
     in if spec = [] then Inr [] else parsePeers_loop (Split spec (CHR '','')) [])"

text \<open>The flags of \<open>serve\<close> after parsing.\<close>

record ServeFlags =
  sfNodeID :: int64
  sfListen :: string
  sfAdvertise :: string
  sfLeaderID :: int64
  sfPeers :: string
  sfSweep :: int64

definition serve_defaults :: "(string \<Rightarrow> string) \<Rightarrow> (string \<Rightarrow> int64 option) \<Rightarrow> ServeFlags" where
  "serve_defaults getenv parseDuration =
    \<lparr>sfNodeID = atoiOr (env getenv ''DISTCONF_NODE_ID'' ''0'') 0,
     sfListen = env getenv ''DISTCONF_LISTEN'' '':9000'',
     sfAdvertise = env getenv ''DISTCONF_ADVERTISE'' [],
     sfLeaderID = atoiOr (env getenv ''DISTCONF_LEADER_ID'' ''1'') 0,
     sfPeers = env getenv ''DISTCONF_PEERS'' [],
     sfSweep = durOr parseDuration (env getenv ''DISTCONF_SWEEP_INTERVAL'' ''200ms'') (200 * 1000000)\<rparr>"

definition default_advertise :: "string \<Rightarrow> string" where
  "default_advertise listen =
    (let i = LastIndexOf listen (CHR '':''); port = (if i \<ge> 0 then drop (nat i + 1) listen else listen)
     in ''127.0.0.1:'' @ port)"

definition serve_config :: "(string \<Rightarrow> string) \<Rightarrow> ServeFlags \<Rightarrow> config_error + NodeConfig" where
  "serve_config getenv f =
    (if sfNodeID f \<le> 0 then Inl NodeIdRequired
     else let advertise = (if sfAdvertise f = [] then default_advertise (sfListen f) else sfAdvertise f)
       in case parsePeers (sfPeers f) of
         Inl err \<Rightarrow> Inl err
       | Inr peers \<Rightarrow>
           let peers = (if length peers = 0 then [(wrap32 (sfNodeID f), advertise)] else peers)
           in Inr \<lparr>ncNodeID = wrap32 (sfNodeID f), ncListenAddr = sfListen f, ncAdvertiseAddr = advertise,
                   ncLeaderID = wrap32 (sfLeaderID f), ncPeers = peers, ncSweepInterval = sfSweep f,
                   ncToken = getenv ''DISTCONF_REPL_TOKEN'', ncListener = None\<rparr>)"

text \<open>From the configuration to the end of the process: the node is created and started; after the
  signal it is stopped. The result is the error of \<open>Start\<close>, or whether \<open>Stop\<close> returns.\<close>

definition run_node :: "string + string \<Rightarrow> NodeConfig \<Rightarrow> (string + bool) go" where
  "run_node listen cfg = (case StartNode listen (NewNode cfg) of
     (n, Some err) \<Rightarrow> Inr (Inl err)
   | (n, None) \<Rightarrow> go_bind (StopNode n) (\<lambda>(n', returned). Inr (Inr returned)))"

subsection \<open>Client commands\<close>

datatype printed =
    OutInfo InfoResponse
  | OutKeyValue "KeyValue option"
  | OutInstance "Instance option"
  | OutInstances "Instance list"
  | OutEvent WatchEvent
  | OutUpdate DiscoverResponse
  | OutLine string

definition defaultEndpoints :: "(string \<Rightarrow> string) \<Rightarrow> string" where
  "defaultEndpoints getenv = env getenv ''DISTCONF_ENDPOINTS'' ''127.0.0.1:9000''"

definition newClient :: "string \<Rightarrow> cli_error + Client" where
  "newClient v = NewClient (filter (\<lambda>e. e \<noteq> []) (map TrimSpace (Split v (CHR '',''))))"

fun parseMeta_loop :: "string list \<Rightarrow> (string, string) gomap \<Rightarrow> (string, string) gomap" where
  "parseMeta_loop [] m = m"
| "parseMeta_loop (item # items) m =
    (let kv = TrimSpace item
     in if kv = [] then parseMeta_loop items m
        else let i = Index kv ''=''
          in if i > 0 then parseMeta_loop items (AList.update (take (nat i) kv) (drop (nat i + 1) kv) m)
             else parseMeta_loop items m)"

definition parseMeta :: "string \<Rightarrow> (string, string) gomap" where
  "parseMeta spec = (if spec = [] then [] else parseMeta_loop (Split spec (CHR '','')) [])"

text \<open>A command returns what it printed and its error.\<close>

type_synonym 'w command_result = "(Client \<times> 'w \<times> printed list \<times> cli_error option) go"

definition print_reply :: "('r \<Rightarrow> printed list) \<Rightarrow> (Client \<times> 'w \<times> 'r reply) go \<Rightarrow> 'w command_result" where
  "print_reply show_it call = go_bind call (\<lambda>(c, w, r). Inr (case r of
     Inr resp \<Rightarrow> (c, w, show_it resp, None) | Inl err \<Rightarrow> (c, w, [], err)))"

definition cmdInfo :: "'w Net \<Rightarrow> Client \<Rightarrow> 'w \<Rightarrow> 'w command_result" where
  "cmdInfo net c w = print_reply (\<lambda>info. [OutInfo info]) (Client_Info net c w)"

definition cmdPut :: "'w Net \<Rightarrow> string \<Rightarrow> string \<Rightarrow> string \<Rightarrow> int64 \<Rightarrow> int64 \<Rightarrow> Client \<Rightarrow> 'w \<Rightarrow> 'w command_result" where
  "cmdPut net ns key value ttl expect c w =
    (if key = [] then Inr (c, w, [], Some (CPlain ''--key required''))
     else print_reply (\<lambda>resp. [OutKeyValue (psKv resp)]) (Client_Put net
       \<lparr>prNamespace = ns, prKey = key, prValue = value, prTtlMs = ttl, prExpectedVersion = expect\<rparr> c w))"

definition cmdGet :: "'w Net \<Rightarrow> string \<Rightarrow> string \<Rightarrow> Client \<Rightarrow> 'w \<Rightarrow> 'w command_result" where
  "cmdGet net ns key c w = print_reply
     (\<lambda>resp. if \<not> gsFound resp then [OutLine ''(not found)''] else [OutKeyValue (gsKv resp)]) (Client_Get net ns key c w)"

definition cmdDelete :: "'w Net \<Rightarrow> string \<Rightarrow> string \<Rightarrow> int64 \<Rightarrow> Client \<Rightarrow> 'w \<Rightarrow> 'w command_result" where
  "cmdDelete net ns key expect c w = print_reply
     (\<lambda>resp. [OutLine (''deleted='' @ (if dsFound resp then ''true'' else ''false'') @ '' revision='' @ dec (dsRevision resp))])
     (Client_Delete net \<lparr>drNamespace = ns, drKey = key, drExpectedVersion = expect\<rparr> c w)"

definition cmdRegister :: "'w Net \<Rightarrow> string \<Rightarrow> string \<Rightarrow> string \<Rightarrow> string \<Rightarrow> int64 \<Rightarrow> string \<Rightarrow> Client \<Rightarrow> 'w \<Rightarrow> 'w command_result" where
  "cmdRegister net ns svc i addr ttl meta c w =
    (if svc = [] \<or> i = [] \<or> addr = [] then Inr (c, w, [], Some (CPlain ''--service, --id, --address required''))
     else print_reply (\<lambda>resp. [OutInstance (rsInstance resp)]) (Client_Register net
       \<lparr>rrNamespace = ns, rrService = svc, rrInstanceId = i, rrAddress = addr, rrMetadata = parseMeta meta,
        rrLeaseTtlMs = ttl\<rparr> c w))"

definition cmdHeartbeat :: "'w Net \<Rightarrow> string \<Rightarrow> string \<Rightarrow> string \<Rightarrow> Client \<Rightarrow> 'w \<Rightarrow> 'w command_result" where
  "cmdHeartbeat net ns svc i c w = print_reply (\<lambda>resp. [OutInstance (hsInstance resp)])
     (Client_Heartbeat net \<lparr>hrNamespace = ns, hrService = svc, hrInstanceId = i\<rparr> c w)"

definition cmdDiscover :: "'w Net \<Rightarrow> string \<Rightarrow> string \<Rightarrow> Client \<Rightarrow> 'w \<Rightarrow> 'w command_result" where
  "cmdDiscover net ns svc c w =
    (if svc = [] then Inr (c, w, [], Some (CPlain ''--service required''))
     else print_reply (\<lambda>resp. [OutInstances (dpInstances resp)])
       (Client_Discover net \<lparr>diNamespace = ns, diService = svc, diWatch = False\<rparr> c w))"

text \<open>The flags of the client commands after parsing, and what a command line runs. None: a command
  that streams (\<open>watch\<close>, \<open>discover --watch\<close>).\<close>

record ClientFlags =
  cfEndpoints :: string
  cfNs :: string
  cfKey :: string
  cfService :: string
  cfId :: string
  cfValue :: string
  cfTtl :: int64
  cfExpect :: int64
  cfFromSeq :: int64
  cfAddress :: string
  cfMeta :: string
  cfWatch :: bool

definition runClient :: "'w Net \<Rightarrow> string \<Rightarrow> ClientFlags \<Rightarrow> 'w \<Rightarrow> ('w \<times> printed list \<times> cli_error option) option go" where
  "runClient net cmd f w = (case newClient (cfEndpoints f) of
     Inl err \<Rightarrow> Inr (Some (w, [], Some err))
   | Inr c \<Rightarrow>
       if cmd = ''watch'' \<or> cmd = ''discover'' \<and> cfWatch f then Inr None
       else go_bind
        (if cmd = ''info'' then cmdInfo net c w
         else if cmd = ''put'' then cmdPut net (cfNs f) (cfKey f) (cfValue f) (cfTtl f) (cfExpect f) c w
         else if cmd = ''get'' then cmdGet net (cfNs f) (cfKey f) c w
         else if cmd = ''delete'' then cmdDelete net (cfNs f) (cfKey f) (cfExpect f) c w
         else if cmd = ''register'' then cmdRegister net (cfNs f) (cfService f) (cfId f) (cfAddress f) (cfTtl f) (cfMeta f) c w
         else if cmd = ''heartbeat'' then cmdHeartbeat net (cfNs f) (cfService f) (cfId f) c w
         else if cmd = ''discover'' then cmdDiscover net (cfNs f) (cfService f) c w
         else Inr (c, w, [], Some (CPlain ''unknown client command'')))
        (\<lambda>(c', w', out, err). Inr (Some (w', out, err))))"


text \<open>The streaming commands. A turn of \<open>cmdWatch\<close> takes one case of its select (\<open>pick_err\<close>: the one of the
  error channel); None: that case is not ready. The right result is the return value.\<close>

definition cmdWatch_turn :: "bool \<Rightarrow> Watcher \<Rightarrow> (Watcher \<times> printed list + cli_error option) option" where
  "cmdWatch_turn pick_err w =
    (if pick_err then (case wtErr w of Some err \<Rightarrow> Some (Inr (Some err)) | None \<Rightarrow> None)
     else case wtEvents w of
       ev # evs \<Rightarrow> Some (Inl (w\<lparr>wtEvents := evs\<rparr>, [OutEvent ev]))
     | [] \<Rightarrow> if wtClosed w then Some (Inr (wtErr w)) else None)"

fun cmdWatch :: "bool list \<Rightarrow> Watcher \<Rightarrow> printed list \<times> cli_error option option" where
  "cmdWatch [] w = ([], None)"
| "cmdWatch (pick_err # picks) w = (case cmdWatch_turn pick_err w of
     None \<Rightarrow> cmdWatch picks w
   | Some (Inr err) \<Rightarrow> ([], Some err)
   | Some (Inl (w', out)) \<Rightarrow> (case cmdWatch picks w' of (out', r) \<Rightarrow> (out @ out', r)))"

text \<open>\<open>cmdDiscoverWatch\<close> reads until the channel is closed and empty.\<close>

definition cmdDiscoverWatch :: "DiscoverWatcher \<Rightarrow> printed list \<times> cli_error option option" where
  "cmdDiscoverWatch d = (map OutUpdate (dwUpdates d), if dwClosed d then Some (dwErr d) else None)"

subsection \<open>What the commands do with their input\<close>

text \<open>A help flag as the first argument starts with a dash, so it goes to \<open>serve\<close>, whose flag parser
  ends with an error; only the word \<open>help\<close> shows the usage text.\<close>

lemma help_flags_serve:
  "main_command [''-h''] = RunServe [''-h'']" "main_command [''--help''] = RunServe [''--help'']"
  "main_command [''help''] = ShowUsage"
  by code_simp+

lemma help_is_an_error:
  "formal ''h'' = None \<Longrightarrow> parse_flags formal valid [''-h''] = Inl HelpRequested"
  "formal ''help'' = None \<Longrightarrow> parse_flags formal valid [''--help''] = Inl HelpRequested"
  by (simp_all add: flag_parts_def HasPrefix_def)

text \<open>\<open>cmdWatch\<close> prints the events of a watcher that has ended, in order, and then returns its error; but
  the select is free to take the error while events wait, which are then never printed.\<close>

lemma cmdWatch_prints_all:
  "wtClosed w \<Longrightarrow> length (wtEvents w) < n \<Longrightarrow>
    cmdWatch (replicate n False) w = (map OutEvent (wtEvents w), Some (wtErr w))"
proof (induction n arbitrary: w)
  case (Suc n)
  then show ?case by (cases "wtEvents w") (auto simp: cmdWatch_turn_def)
qed simp

lemma cmdWatch_drops_events:
  "wtErr w = Some err \<Longrightarrow> cmdWatch [True] w = ([], Some (Some err))"
  by (simp add: cmdWatch_turn_def)

text \<open>The notation of a peer list, and the map that it stands for: later entries win, and an id
  is cut to 32 bits.\<close>

fun peer_spec :: "(int64 \<times> string) list \<Rightarrow> string" where
  "peer_spec [] = []"
| "peer_spec ((i, a) # ps) =
    dec i @ CHR ''='' # a @ (if ps = [] then [] else CHR '','' # peer_spec ps)"

definition peer_map :: "(int64 \<times> string) list \<Rightarrow> int32 \<Rightarrow> string option" where
  "peer_map ps = map_of (List.rev (map (\<lambda>(i, a). (wrap32 i, a)) ps))"

definition clean_addr :: "string \<Rightarrow> bool" where
  "clean_addr a \<longleftrightarrow> (\<forall>c\<in>set a. \<not> is_space c \<and> c \<noteq> CHR '','')"

definition peer_item :: "int64 \<times> string \<Rightarrow> string" where
  "peer_item p = dec (fst p) @ CHR ''='' # snd p"

lemma peer_item_plain:
  assumes "clean_addr (snd p)"
  shows "peer_item p \<noteq> []" "CHR '','' \<notin> set (peer_item p)" "\<forall>c\<in>set (peer_item p). \<not> is_space c"
  using assms dec_plain [of _ "fst p"]
  by (auto simp: peer_item_def clean_addr_def is_space_def)

lemma Split_peer_spec:
  "ps \<noteq> [] \<Longrightarrow> \<forall>p\<in>set ps. clean_addr (snd p) \<Longrightarrow> Split (peer_spec ps) (CHR '','') = map peer_item ps"
proof (induction ps rule: peer_spec.induct)
  case (2 i a ps)
  have comma: "CHR '','' \<notin> set (peer_item (i, a))" using 2 peer_item_plain(2) [of "(i, a)"] by simp
  show ?case
  proof (cases "ps = []")
    case True
    with Split_word [OF comma] show ?thesis by (simp add: peer_item_def)
  next
    case False
    with 2 have "Split (peer_spec ps) (CHR '','') = map peer_item ps" by simp
    with False Split_append [OF comma, of "peer_spec ps"] show ?thesis by (simp add: peer_item_def)
  qed
qed simp

lemma peer_spec_chars: "set (peer_spec ps) \<subseteq> insert (CHR '','') (\<Union>p\<in>set ps. set (peer_item p))"
  by (induction ps rule: peer_spec.induct) (auto simp: peer_item_def)

lemma SplitN2_append: "d \<notin> set w \<Longrightarrow> SplitN2 (w @ d # s) d = [w, s]"
  by (simp add: SplitN2_def takeWhile_append2 dropWhile_append2)
    (metis (mono_tags, lifting) append_Nil2 dropWhile_append2 list.sel(3) takeWhile.simps(2) takeWhile_append2 dropWhile.simps(2))

lemma parsePeers_loop_items:
  assumes "\<forall>p\<in>set ps. is_int64 (fst p) \<and> clean_addr (snd p)" and "gomap_ok out"
  shows "\<exists>m. parsePeers_loop (map peer_item ps) out = Inr m \<and> gomap_ok m \<and> map_of m = map_of out ++ peer_map ps"
  using assms
proof (induction ps arbitrary: out)
  case Nil
  then show ?case by (simp add: peer_map_def)
next
  case (Cons p ps)
  obtain i a where p: "p = (i, a)" by fastforce
  with Cons.prems have ia: "is_int64 i" "clean_addr a" by auto
  have trim: "TrimSpace (peer_item p) = peer_item p" "TrimSpace a = a" "TrimSpace (dec i) = dec i"
    using ia peer_item_plain(3) [of p] dec_plain [of _ i] by (auto simp: p clean_addr_def intro!: TrimSpace_clean)
  have parts: "SplitN2 (peer_item p) (CHR ''='') = [dec i, a]"
    using SplitN2_append [of "CHR ''=''" "dec i" a] dec_plain [of _ i] by (auto simp: p peer_item_def)
  have "gomap_ok (AList.update (wrap32 i) a out)" using Cons.prems(2) by (rule gomap_ok_update)
  with Cons.IH Cons.prems(1) obtain m where m:
    "parsePeers_loop (map peer_item ps) (AList.update (wrap32 i) a out) = Inr m"
    "gomap_ok m" "map_of m = map_of (AList.update (wrap32 i) a out) ++ peer_map ps"
    by fastforce
  have "parsePeers_loop (map peer_item (p # ps)) out = Inr m"
    using m(1) ia trim parts peer_item_plain(1) [of p] by (simp add: p Atoi_dec Let_def)
  moreover have "map_of m = map_of out ++ peer_map (p # ps)"
    using m(3) by (auto simp: p peer_map_def map_add_def fun_eq_iff split: option.splits)
  ultimately show ?case using m(2) by auto
qed



end
