(* ===== verification/Flags.thy ===== *)
theory Flags
  imports CommandLine
begin

text \<open>
  The values of flags: the integers and booleans of package \<open>flag\<close>, the flags of the commands with their
  kinds and defaults, and the round trip of a command line: flags are read back however they are spelled.
\<close>

subsection \<open>Integers and booleans\<close>

abbreviation byte :: "char \<Rightarrow> int" where
  "byte c \<equiv> of_char c"

definition is_digit :: "char \<Rightarrow> bool" where
  "is_digit c \<longleftrightarrow> 48 \<le> byte c \<and> byte c \<le> 57"

text \<open>The byte with the bit of lower case set, as \<open>strconv\<close> does it for any character.\<close>

definition lower :: "char \<Rightarrow> int" where
  "lower c = or (byte c) 32"

text \<open>A byte as a digit of a base up to 36.\<close>

definition digit_value :: "char \<Rightarrow> int option" where
  "digit_value c = (if is_digit c then Some (byte c - 48)
     else if 97 \<le> lower c \<and> lower c \<le> 122 then Some (lower c - 97 + 10) else None)"

text \<open>\<open>underscoreOK\<close> of \<open>strconv\<close>: an underscore stands between digits or after a base prefix. The class of
  the last character is \<open>^\<close> (none yet), \<open>0\<close> (digit or prefix), \<open>_\<close> or \<open>!\<close> (anything else).\<close>

fun underscore_loop :: "bool \<Rightarrow> char \<Rightarrow> string \<Rightarrow> bool" where
  "underscore_loop hex saw [] = (saw \<noteq> CHR ''_'')"
| "underscore_loop hex saw (c # s) =
    (if is_digit c \<or> hex \<and> 97 \<le> lower c \<and> lower c \<le> 102 then underscore_loop hex (CHR ''0'') s
     else if c = CHR ''_'' then saw = CHR ''0'' \<and> underscore_loop hex (CHR ''_'') s
     else saw \<noteq> CHR ''_'' \<and> underscore_loop hex (CHR ''!'') s)"

definition underscoreOK :: "string \<Rightarrow> bool" where
  "underscoreOK s =
    (if length s \<ge> 2 \<and> s ! 0 = CHR ''0'' \<and> lower (s ! 1) \<in> {byte (CHR ''b''), byte (CHR ''o''), byte (CHR ''x'')}
     then underscore_loop (lower (s ! 1) = byte (CHR ''x'')) (CHR ''0'') (drop 2 s)
     else underscore_loop False (CHR ''^'') s)"

fun based_digits :: "int \<Rightarrow> int \<Rightarrow> string \<Rightarrow> int option" where
  "based_digits base acc [] = Some acc"
| "based_digits base acc (c # s) =
    (if c = CHR ''_'' then based_digits base acc s
     else case digit_value c of
       None \<Rightarrow> None
     | Some d \<Rightarrow> if d \<ge> base then None else based_digits base (base * acc + d) s)"

text \<open>The prefix of a literal gives its base; a leading zero alone means base 8.\<close>

definition literal_base :: "string \<Rightarrow> int \<times> string" where
  "literal_base s =
    (if s ! 0 = CHR ''0''
     then if length s \<ge> 3 \<and> lower (s ! 1) = byte (CHR ''b'') then (2, drop 2 s)
       else if length s \<ge> 3 \<and> lower (s ! 1) = byte (CHR ''o'') then (8, drop 2 s)
       else if length s \<ge> 3 \<and> lower (s ! 1) = byte (CHR ''x'') then (16, drop 2 s)
       else (8, drop 1 s)
     else (10, s))"

definition ParseUint0 :: "string \<Rightarrow> int option" where
  "ParseUint0 s =
    (if s = [] then None
     else let (base, ds) = literal_base s
       in case based_digits base 0 ds of
         None \<Rightarrow> None
       | Some n \<Rightarrow> if CHR ''_'' \<in> set ds \<and> \<not> underscoreOK s \<or> n \<ge> 2 ^ 64 then None else Some n)"

text \<open>\<open>strconv.ParseInt\<close> with base 0 and 64 bits, as integer flags use it.\<close>

definition ParseInt0 :: "string \<Rightarrow> int64 option" where
  "ParseInt0 s =
    (let (neg, ds) = (case s of c # r \<Rightarrow> if c = CHR ''+'' then (False, r) else if c = CHR ''-'' then (True, r) else (False, s)
                      | [] \<Rightarrow> (False, s))
     in case ParseUint0 ds of
          None \<Rightarrow> None
        | Some n \<Rightarrow> let v = (if neg then - n else n) in if is_int64 v then Some v else None)"

definition ParseBool :: "string \<Rightarrow> bool option" where
  "ParseBool s =
    (if s \<in> {''1'', ''t'', ''T'', ''true'', ''TRUE'', ''True''} then Some True
     else if s \<in> {''0'', ''f'', ''F'', ''false'', ''FALSE'', ''False''} then Some False else None)"

lemma ParseInt0_examples:
  "ParseInt0 ''42'' = Some 42" "ParseInt0 ''-1'' = Some (-1)" "ParseInt0 ''0x1F'' = Some 31" "ParseInt0 ''0b101'' = Some 5"
  "ParseInt0 ''1_000'' = Some 1000" "ParseInt0 ''1__0'' = None" "ParseInt0 ''0'' = Some 0" "ParseInt0 ''08'' = None"
  "ParseInt0 ''9223372036854775808'' = None" "ParseInt0 ''-9223372036854775808'' = Some (- 9223372036854775808)"
  by code_simp+

text \<open>The same text can be another number in a flag than in an environment variable.\<close>

lemma octal_flag: "ParseInt0 ''010'' = Some 8" "Atoi ''010'' = Some 10" "ParseInt0 ''0_1'' = Some 1" "Atoi ''0_1'' = None"
  by code_simp+

subsection \<open>Kinds of flags\<close>

datatype flag_kind = IntFlag | Int64Flag | StringFlag | BoolFlag | DurationFlag

definition valid_value :: "(string \<Rightarrow> int64 option) \<Rightarrow> flag_kind \<Rightarrow> string \<Rightarrow> bool" where
  "valid_value parseDuration kind v = (case kind of
     IntFlag \<Rightarrow> ParseInt0 v \<noteq> None
   | Int64Flag \<Rightarrow> ParseInt0 v \<noteq> None
   | StringFlag \<Rightarrow> True
   | BoolFlag \<Rightarrow> ParseBool v \<noteq> None
   | DurationFlag \<Rightarrow> parseDuration v \<noteq> None)"

type_synonym flag_set = "(string \<times> flag_kind) list"

definition flag_formal :: "flag_set \<Rightarrow> string \<Rightarrow> bool option" where
  "flag_formal fs name = map_option (\<lambda>kind. kind = BoolFlag) (map_of fs name)"

definition flag_valid :: "(string \<Rightarrow> int64 option) \<Rightarrow> flag_set \<Rightarrow> string \<Rightarrow> string \<Rightarrow> bool" where
  "flag_valid parseDuration fs name v =
    (case map_of fs name of None \<Rightarrow> False | Some kind \<Rightarrow> valid_value parseDuration kind v)"

definition Parse :: "(string \<Rightarrow> int64 option) \<Rightarrow> flag_set \<Rightarrow> string list \<Rightarrow> flag_error + (string \<times> string) list" where
  "Parse parseDuration fs args = parse_flags (flag_formal fs) (flag_valid parseDuration fs) args"

text \<open>The variable of a flag after \<open>Parse\<close>: its last setting, or its default.\<close>

definition string_flag :: "(string \<times> string) list \<Rightarrow> string \<Rightarrow> string \<Rightarrow> string" where
  "string_flag settings key def = (case flag_value settings key of None \<Rightarrow> def | Some v \<Rightarrow> v)"

definition parsed_flag :: "(string \<Rightarrow> 'a option) \<Rightarrow> (string \<times> string) list \<Rightarrow> string \<Rightarrow> 'a \<Rightarrow> 'a" where
  "parsed_flag parse settings key def = (case flag_value settings key of None \<Rightarrow> def
     | Some v \<Rightarrow> (case parse v of None \<Rightarrow> def | Some x \<Rightarrow> x))"

subsection \<open>The flags of the commands\<close>

definition serve_flag_set :: flag_set where
  "serve_flag_set = [(''node-id'', IntFlag), (''listen'', StringFlag), (''advertise'', StringFlag),
     (''leader-id'', IntFlag), (''peers'', StringFlag), (''sweep-interval'', DurationFlag)]"

definition serve_flags :: "(string \<Rightarrow> string) \<Rightarrow> (string \<Rightarrow> int64 option) \<Rightarrow> (string \<times> string) list \<Rightarrow> ServeFlags" where
  "serve_flags getenv parseDuration settings =
    (let d = serve_defaults getenv parseDuration
     in \<lparr>sfNodeID = parsed_flag ParseInt0 settings ''node-id'' (sfNodeID d),
         sfListen = string_flag settings ''listen'' (sfListen d),
         sfAdvertise = string_flag settings ''advertise'' (sfAdvertise d),
         sfLeaderID = parsed_flag ParseInt0 settings ''leader-id'' (sfLeaderID d),
         sfPeers = string_flag settings ''peers'' (sfPeers d),
         sfSweep = parsed_flag parseDuration settings ''sweep-interval'' (sfSweep d)\<rparr>)"

definition client_flag_set :: flag_set where
  "client_flag_set = [(''endpoints'', StringFlag), (''ns'', StringFlag), (''key'', StringFlag), (''service'', StringFlag),
     (''id'', StringFlag), (''value'', StringFlag), (''ttl-ms'', Int64Flag), (''expect-version'', Int64Flag),
     (''from-seq'', Int64Flag), (''address'', StringFlag), (''meta'', StringFlag), (''watch'', BoolFlag),
     (''timeout'', DurationFlag)]"

definition endpointsFlag :: "(string \<Rightarrow> string) \<Rightarrow> (string \<times> string) list \<Rightarrow> string" where
  "endpointsFlag getenv settings = string_flag settings ''endpoints'' (defaultEndpoints getenv)"

definition client_flags :: "(string \<Rightarrow> string) \<Rightarrow> (string \<times> string) list \<Rightarrow> ClientFlags" where
  "client_flags getenv settings =
    \<lparr>cfEndpoints = endpointsFlag getenv settings, cfNs = string_flag settings ''ns'' ''default'',
     cfKey = string_flag settings ''key'' [], cfService = string_flag settings ''service'' [],
     cfId = string_flag settings ''id'' [], cfValue = string_flag settings ''value'' [],
     cfTtl = parsed_flag ParseInt0 settings ''ttl-ms'' 0,
     cfExpect = parsed_flag ParseInt0 settings ''expect-version'' 0,
     cfFromSeq = parsed_flag ParseInt0 settings ''from-seq'' 0,
     cfAddress = string_flag settings ''address'' [], cfMeta = string_flag settings ''meta'' [],
     cfWatch = parsed_flag ParseBool settings ''watch'' False\<rparr>"

subsection \<open>Spelling\<close>

text \<open>A flag may have one dash or two, and its value after an equals sign or as the next argument; a boolean
  flag without a value is set.\<close>

record spelling =
  spTwoDashes :: bool
  spEquals :: bool

definition spell :: "spelling \<times> string \<times> string \<Rightarrow> string list" where
  "spell x = (case x of (sp, key, v) \<Rightarrow>
    let name = (if spTwoDashes sp then ''--'' else ''-'') @ key
    in if spEquals sp then [name @ CHR ''='' # v] else [name, v])"

definition flag_name :: "string \<Rightarrow> bool" where
  "flag_name key \<longleftrightarrow> key \<noteq> [] \<and> List.hd key \<noteq> CHR ''-'' \<and> CHR ''='' \<notin> set key"

lemma Index_char: "Index (s @ c # t) [c] = int (length s)" if "c \<notin> set s"
  using that by (induction s) (auto simp: HasPrefix_def Let_def)

lemma Index_no_char: "c \<notin> set s \<Longrightarrow> Index s [c] = - 1"
  by (induction s) (auto simp: HasPrefix_def Let_def)

lemma flag_parts_spelled:
  assumes "flag_name key"
  shows "flag_parts (key @ CHR ''='' # v) = (key, Some v)" "flag_parts key = (key, None)"
proof -
  obtain c k where key: "key = c # k" using assms by (cases key) (auto simp: flag_name_def)
  with assms show "flag_parts (key @ CHR ''='' # v) = (key, Some v)" "flag_parts key = (key, None)"
    by (simp_all add: flag_parts_def flag_name_def Index_char Index_no_char)
qed

lemma parse_spelled:
  assumes key: "flag_name key" and kind: "map_of fs key = Some kind" "valid_value pd kind v"
    and sp: "kind = BoolFlag \<longrightarrow> spEquals sp"
  shows "Parse pd fs (spell (sp, key, v) @ args) = map_sum id ((#) (key, v)) (Parse pd fs args)"
proof -
  obtain c k where c: "key = c # k" "c \<noteq> CHR ''-''" "c \<noteq> CHR ''=''"
    using key by (cases key) (auto simp: flag_name_def)
  have formal: "flag_formal fs key = Some (kind = BoolFlag)" "flag_valid pd fs key v"
    using kind by (simp_all add: flag_formal_def flag_valid_def)
  note parts = flag_parts_spelled [OF key]
  show ?thesis
  proof (cases "spEquals sp")
    case True
    show ?thesis
      using True c formal parts(1) [of v]
      by (cases "kind = BoolFlag"; cases "spTwoDashes sp") (simp_all add: spell_def Parse_def)
  next
    case False
    then have "kind \<noteq> BoolFlag" using sp by blast
    then show ?thesis
      using False c formal parts(2)
      by (cases "spTwoDashes sp") (simp_all add: spell_def Parse_def)
  qed
qed

lemma parse_spelled_all:
  assumes "\<forall>(sp, key, v)\<in>set xs. flag_name key
    \<and> (\<exists>kind. map_of fs key = Some kind \<and> valid_value pd kind v \<and> (kind = BoolFlag \<longrightarrow> spEquals sp))"
  shows "Parse pd fs (concat (map spell xs)) = Inr (map snd xs)"
  using assms
proof (induction xs)
  case Nil
  then show ?case by (simp add: Parse_def)
next
  case (Cons x xs)
  obtain sp key v where x: "x = (sp, key, v)" by (cases x)
  with Cons.prems obtain kind where "flag_name key" "map_of fs key = Some kind" "valid_value pd kind v" "kind = BoolFlag \<longrightarrow> spEquals sp"
    by auto
  from parse_spelled [OF this, of "concat (map spell xs)"] Cons x show ?case by simp
qed

subsection \<open>Decimal numbers\<close>

lemma based_digits_dec:
  "\<forall>c\<in>set s. \<exists>d. 0 \<le> d \<and> d < 10 \<and> c = digit_char d \<Longrightarrow> based_digits 10 acc s = digits acc s"
proof (induction s arbitrary: acc)
  case (Cons c s)
  then obtain d where d: "0 \<le> d" "d < 10" "c = digit_char d" by auto
  then have code: "byte c = 48 + d" by (simp add: digit_char_def)
  then have "c \<noteq> CHR ''_''" using d(2) by auto
  moreover have "digit_value c = Some d" using code d by (simp add: digit_value_def is_digit_def)
  moreover have "digit_of c = Some d" using digit_of_char d by simp
  ultimately show ?case using Cons d by simp
qed simp

lemma dec_pos_head: "0 < n \<Longrightarrow> \<exists>d. 0 < d \<and> d < 10 \<and> List.hd (dec_pos n) = digit_char d"
proof (induction n rule: dec_pos.induct)
  case (1 n)
  show ?case
  proof (cases "n < 10")
    case True
    with "1.prems" show ?thesis by (subst dec_pos.simps) auto
  next
    case False
    then have "dec_pos (n div 10) \<noteq> []" using dec_pos_chars [of "n div 10"] by simp
    with False 1 show ?thesis by (subst dec_pos.simps) auto
  qed
qed

lemma ParseUint0_dec: "0 \<le> n \<Longrightarrow> n < 2 ^ 64 \<Longrightarrow> ParseUint0 (dec_pos n) = Some n"
proof -
  assume n: "0 \<le> n" "n < 2 ^ 64"
  show ?thesis
  proof (cases "n = 0")
    case True
    moreover have "dec_pos 0 = ''0''" by (subst dec_pos.simps) code_simp
    moreover have "ParseUint0 ''0'' = Some 0" by code_simp
    ultimately show ?thesis by simp
  next
    case False
    then obtain d where d: "0 < d" "d < 10" "List.hd (dec_pos n) = digit_char d" using dec_pos_head [of n] n by auto
    have chars: "dec_pos n \<noteq> []" "\<forall>c\<in>set (dec_pos n). \<exists>d. 0 \<le> d \<and> d < 10 \<and> c = digit_char d"
      using dec_pos_chars [of n] n by auto
    have "byte (digit_char d) = 48 + d" using d by (simp add: digit_char_def)
    then have "digit_char d \<noteq> CHR ''0''" using d(1) by auto
    then have "literal_base (dec_pos n) = (10, dec_pos n)"
      using d(3) chars(1) by (simp add: literal_base_def hd_conv_nth)
    moreover have "CHR ''_'' \<notin> set (dec_pos n)"
    proof
      assume "CHR ''_'' \<in> set (dec_pos n)"
      with chars(2) obtain d where d: "0 \<le> d" "d < 10" "CHR ''_'' = digit_char d" by auto
      then have "byte (CHR ''_'') = 48 + d" by (simp add: digit_char_def)
      with d(2) show False by simp
    qed
    ultimately show ?thesis
      using chars(1) n based_digits_dec [OF chars(2), of 0] digits_dec_pos [of n] by (simp add: ParseUint0_def)
  qed
qed

lemma ParseInt0_dec:
  assumes "is_int64 n"
  shows "ParseInt0 (dec n) = Some n"
proof (cases "n < 0")
  case True
  with assms ParseUint0_dec [of "- n"] show ?thesis by (simp add: dec_def ParseInt0_def is_int64_def)
next
  case False
  then obtain c s where cs: "dec_pos n = c # s" using dec_pos_chars [of n] by (cases "dec_pos n") auto
  with False dec_pos_plain [of n c] have "c \<noteq> CHR ''-''" "c \<noteq> CHR ''+''" by auto
  with False cs assms ParseUint0_dec [of n] show ?thesis by (simp add: dec_def ParseInt0_def is_int64_def)
qed

subsection \<open>Durations\<close>

text \<open>\<open>time.ParseDuration\<close>: a sign, and then numbers with units. The value of a decimal fraction is computed with
  \<open>float64\<close>: \<open>fraction f scale unit\<close> stands for \<open>uint64(float64(f) * (float64(unit) / scale))\<close>.\<close>

fun leadingInt :: "int \<Rightarrow> string \<Rightarrow> (int \<times> string) option" where
  "leadingInt x [] = Some (x, [])"
| "leadingInt x (c # s) =
    (if \<not> is_digit c then Some (x, c # s)
     else if x > 2 ^ 63 div 10 then None
     else let y = x * 10 + byte c - 48 in if y > 2 ^ 63 then None else leadingInt y s)"

fun leadingFraction :: "int \<Rightarrow> int \<Rightarrow> bool \<Rightarrow> string \<Rightarrow> int \<times> int \<times> string" where
  "leadingFraction x scale overflow [] = (x, scale, [])"
| "leadingFraction x scale overflow (c # s) =
    (if \<not> is_digit c then (x, scale, c # s)
     else if overflow \<or> x > (2 ^ 63 - 1) div 10 then leadingFraction x scale True s
     else let y = x * 10 + byte c - 48
       in if y > 2 ^ 63 then leadingFraction x scale True s else leadingFraction y (scale * 10) False s)"

definition unitMap :: "string \<Rightarrow> int option" where
  "unitMap = map_of [(''ns'', 1), (''us'', 1000), ([CHR 0xC2, CHR 0xB5, CHR ''s''], 1000), ([CHR 0xCE, CHR 0xBC, CHR ''s''], 1000),
     (''ms'', 1000000), (''s'', 1000000000), (''m'', 60 * 1000000000), (''h'', 3600 * 1000000000)]"

text \<open>One number with its unit: the value and what follows.\<close>

definition duration_part :: "(int \<Rightarrow> int \<Rightarrow> int \<Rightarrow> int) \<Rightarrow> string \<Rightarrow> (int \<times> string) option" where
  "duration_part fraction s =
    (if \<not> (s \<noteq> [] \<and> (List.hd s = CHR ''.'' \<or> is_digit (List.hd s))) then None
     else case leadingInt 0 s of
       None \<Rightarrow> None
     | Some (v, s1) \<Rightarrow>
         let pre = (length s \<noteq> length s1);
             (f, scale, s2, post) = (case s1 of
                 c # r \<Rightarrow> if c = CHR ''.''
                   then let (f, scale, r') = leadingFraction 0 1 False r in (f, scale, r', length r \<noteq> length r')
                   else (0, 1, s1, False)
               | [] \<Rightarrow> (0, 1, s1, False))
         in if \<not> pre \<and> \<not> post then None
            else let u = takeWhile (\<lambda>c. \<not> (c = CHR ''.'' \<or> is_digit c)) s2; rest = dropWhile (\<lambda>c. \<not> (c = CHR ''.'' \<or> is_digit c)) s2
              in if u = [] then None
                 else case unitMap u of
                   None \<Rightarrow> None
                 | Some unit \<Rightarrow>
                     if v > 2 ^ 63 div unit then None
                     else let v = v * unit
                       in if f > 0 then let v = v + fraction f scale unit in if v > 2 ^ 63 then None else Some (v, rest)
                          else Some (v, rest))"

lemma leadingInt_length: "leadingInt x s = Some (y, r) \<Longrightarrow> length r \<le> length s"
  by (induction x s rule: leadingInt.induct) (auto simp: Let_def split: if_splits)

lemma leadingFraction_length: "leadingFraction x scale overflow s = (y, scale', r) \<Longrightarrow> length r \<le> length s"
  by (induction x scale overflow s rule: leadingFraction.induct) (auto simp: Let_def le_SucI split: if_splits)

lemma duration_part_shorter:
  assumes "duration_part fraction s = Some (v, r)"
  shows "length r < length s"
proof -
  obtain w s1 where i: "leadingInt 0 s = Some (w, s1)"
    using assms by (auto simp: duration_part_def split: if_splits option.splits)
  have unit: "length (dropWhile P t) < length t" if "takeWhile P t \<noteq> []" for P and t :: string
    using that by (cases t) (auto simp: length_dropWhile_le le_imp_less_Suc split: if_splits)
  show ?thesis
  proof (cases "s1 \<noteq> [] \<and> List.hd s1 = CHR ''.''")
    case True
    then obtain t where t: "s1 = CHR ''.'' # t" by (cases s1) auto
    obtain f scale s2 where f: "leadingFraction 0 1 False t = (f, scale, s2)" by (metis prod_cases3)
    have "length s2 < length s" using leadingInt_length [OF i] leadingFraction_length [OF f] t by simp
    with assms i t f show ?thesis
      by (auto simp: duration_part_def Let_def split: if_splits option.splits dest!: unit)
  next
    case False
    have "length s1 \<le> length s" using leadingInt_length [OF i] .
    with assms i False show ?thesis
      by (auto simp: duration_part_def Let_def split: if_splits option.splits list.splits dest!: unit
          intro!: le_less_trans [OF length_dropWhile_le])
  qed
qed

function duration_loop :: "(int \<Rightarrow> int \<Rightarrow> int \<Rightarrow> int) \<Rightarrow> int \<Rightarrow> string \<Rightarrow> int option" where
  "duration_loop fraction d s =
    (if s = [] then Some d
     else case duration_part fraction s of
       None \<Rightarrow> None
     | Some (v, rest) \<Rightarrow> if d + v > 2 ^ 63 then None else duration_loop fraction (d + v) rest)"
  by auto

termination
  by (relation "measure (\<lambda>(fraction, d, s). length s)") (auto dest: duration_part_shorter)

declare duration_loop.simps [simp del]

definition ParseDuration :: "(int \<Rightarrow> int \<Rightarrow> int \<Rightarrow> int) \<Rightarrow> string \<Rightarrow> int64 option" where
  "ParseDuration fraction s =
    (let (neg, s) = (case s of c # r \<Rightarrow> if c = CHR ''-'' \<or> c = CHR ''+'' then (c = CHR ''-'', r) else (False, s)
                     | [] \<Rightarrow> (False, s))
     in if s = ''0'' then Some 0
        else if s = [] then None
        else case duration_loop fraction 0 s of
          None \<Rightarrow> None
        | Some d \<Rightarrow> if neg then Some (- d) else if d > 2 ^ 63 - 1 then None else Some d)"

lemma ParseDuration_examples:
  "ParseDuration fraction ''200ms'' = Some 200000000" "ParseDuration fraction ''1h30m'' = Some 5400000000000"
  "ParseDuration fraction ''10s'' = Some 10000000000" "ParseDuration fraction ''-2us'' = Some (-2000)"
  "ParseDuration fraction ''5'' = None"
  by code_simp+

lemma ParseDuration_fraction:
  "fraction 5 10 1000000000 = 500000000 \<Longrightarrow> ParseDuration fraction ''1.5s'' = Some 1500000000"
  by (simp add: ParseDuration_def duration_loop.simps [of fraction] duration_part_def is_digit_def unitMap_def)

lemma leadingInt_digits:
  assumes "\<forall>c\<in>set s. \<exists>d. 0 \<le> d \<and> d < 10 \<and> c = digit_char d" and "digits x s = Some n" and "n < 2 ^ 63" and "0 \<le> x"
    and "t = [] \<or> \<not> is_digit (List.hd t)"
  shows "leadingInt x (s @ t) = Some (n, t) \<and> x \<le> n"
  using assms
proof (induction s arbitrary: x)
  case Nil
  then show ?case by (cases t) simp_all
next
  case (Cons c s)
  then obtain d where d: "0 \<le> d" "d < 10" "c = digit_char d" by auto
  then have c: "byte c = 48 + d" "is_digit c" by (simp_all add: digit_char_def is_digit_def)
  have "digits (10 * x + d) s = Some n" using Cons.prems(2) d digit_of_char by simp
  with Cons d have IH: "leadingInt (10 * x + d) (s @ t) = Some (n, t)" "10 * x + d \<le> n" by auto
  with Cons.prems(3,4) d(1) have "\<not> x > 2 ^ 63 div 10" "\<not> x * 10 + byte c - 48 > 2 ^ 63" "x \<le> n" using c by auto
  with IH(1) c show ?case by (simp add: Let_def algebra_simps)
qed

text \<open>Whole nanoseconds are read back.\<close>

lemma ParseDuration_ns:
  assumes "0 \<le> n" and "n < 2 ^ 63"
  shows "ParseDuration fraction (dec n @ ''ns'') = Some n"
proof -
  have chars: "dec_pos n \<noteq> []" "\<forall>c\<in>set (dec_pos n). \<exists>d. 0 \<le> d \<and> d < 10 \<and> c = digit_char d"
    using dec_pos_chars [of n] assms by auto
  then obtain c s where cs: "dec_pos n = c # s" by (cases "dec_pos n") auto
  with chars obtain d where d: "0 \<le> d" "d < 10" "c = digit_char d" by auto
  then have c: "is_digit c" "c \<noteq> CHR ''-''" "c \<noteq> CHR ''+''" using digit_char_plain [of d] by (simp_all add: digit_char_def is_digit_def)
  have "leadingInt 0 (c # s @ ''ns'') = Some (n, ''ns'')"
    using leadingInt_digits [OF chars(2) digits_dec_pos, of "''ns''"] assms cs by (simp add: is_digit_def)
  then have "duration_part fraction (c # s @ ''ns'') = Some (n, [])"
    using c assms by (simp add: duration_part_def is_digit_def unitMap_def)
  then have "duration_loop fraction 0 (c # s @ ''ns'') = Some n"
    using assms by (simp add: duration_loop.simps [of _ _ "c # s @ _"] duration_loop.simps [of _ _ "[]"])
  then show ?thesis using c assms by (simp add: dec_def cs ParseDuration_def)
qed

end
