(* ===== verification/MainProgram.thy ===== *)
theory MainProgram
  imports Flags
begin

text \<open>
  The process from its arguments to its exit code: \<open>main\<close>, \<open>runServe\<close> with its configuration from flags and
  environment and its end at a signal, and \<open>runClient\<close>.
\<close>

subsection \<open>Serving\<close>

datatype os_signal = SIGINT | SIGTERM | OtherSignal

text \<open>\<open>signalContext\<close>: the first interrupt or termination signal cancels the context. Later ones go into the
  channel that nobody reads any more, so they do nothing.\<close>

definition signalContext :: "os_signal list \<Rightarrow> bool" where
  "signalContext signals \<longleftrightarrow> (\<exists>sig\<in>set signals. sig = SIGINT \<or> sig = SIGTERM)"

text \<open>An error of the process. The end of \<open>runServe\<close> without one: it serves, it waits in \<open>Stop\<close>, or it has
  stopped.\<close>

datatype main_error =
    FlagError flag_error
  | ConfigError config_error
  | StartError string
  | ClientError cli_error

datatype serving = Serving | Stopping | Stopped

text \<open>\<open>life\<close> is what requests and streams make of the node between its start and the signal.\<close>

definition serve_node :: "string + string \<Rightarrow> (ServerNode \<Rightarrow> ServerNode) \<Rightarrow> os_signal list \<Rightarrow> NodeConfig
    \<Rightarrow> (main_error + serving) go" where
  "serve_node listen life signals cfg = (case StartNode listen (NewNode cfg) of
     (n, Some err) \<Rightarrow> Inr (Inl (StartError err))
   | (n, None) \<Rightarrow>
       if \<not> signalContext signals then Inr (Inr Serving)
       else go_bind (StopNode (life n)) (\<lambda>(n', returned). Inr (Inr (if returned then Stopped else Stopping))))"

definition runServe :: "(string \<Rightarrow> string) \<Rightarrow> (string \<Rightarrow> int64 option) \<Rightarrow> string + string \<Rightarrow> (ServerNode \<Rightarrow> ServerNode)
    \<Rightarrow> os_signal list \<Rightarrow> string list \<Rightarrow> (main_error + serving) go" where
  "runServe getenv parseDuration listen life signals args = (case Parse parseDuration serve_flag_set args of
     Inl err \<Rightarrow> Inr (Inl (FlagError err))
   | Inr settings \<Rightarrow> (case serve_config getenv (serve_flags getenv parseDuration settings) of
         Inl err \<Rightarrow> Inr (Inl (ConfigError err))
       | Inr cfg \<Rightarrow> serve_node listen life signals cfg))"

subsection \<open>The usage text\<close>

definition usage_lines :: "string list" where
  "usage_lines = [
    ''distconf '' @ [CHR 0xE2, CHR 0x80, CHR 0x94] @ '' minimal distributed config center + service registry'',
    '''',
    ''Usage:'',
    ''  distconf serve [flags]                  Start a cluster node (default)'',
    ''  distconf info   --endpoints host:port...'',
    ''  distconf put    --ns N --key K --value V [--ttl-ms N] [--expect-version V]'',
    ''  distconf get    --ns N --key K'',
    ''  distconf delete --ns N --key K [--expect-version V]'',
    ''  distconf watch  --ns N [--key K] [--from-seq N]'',
    ''  distconf register  --ns N --service S --id I --address A [--ttl-ms N] [--meta k=v,...]'',
    ''  distconf heartbeat --ns N --service S --id I'',
    ''  distconf discover  --ns N --service S [--watch]'',
    '''',
    ''Node configuration (flags or environment variables; credentials are env-only):'',
    ''  --node-id N        DISTCONF_NODE_ID       this node'' @ [CHR 0x27] @ ''s id (1..N)'',
    ''  --listen ADDR      DISTCONF_LISTEN        listen address, default :9000'',
    ''  --advertise ADDR   DISTCONF_ADVERTISE     address peers/clients dial'',
    ''  --leader-id N      DISTCONF_LEADER_ID     static leader node id'',
    ''  --peers SPEC       DISTCONF_PEERS         '' @ [CHR 0x22] @ ''1=host1:9000,2=host2:9000,3=host3:9000'' @ [CHR 0x22],
    ''  --sweep-interval D DISTCONF_SWEEP_INTERVAL TTL scan interval (default 200ms)'',
    ''                     DISTCONF_REPL_TOKEN    optional token for replication streams'']"

definition usage :: string where
  "usage = concat (map (\<lambda>line. line @ [CHR 0x0A]) usage_lines)"

subsection \<open>The process\<close>

text \<open>What the process meets outside: its environment, the arithmetic of fractional durations, the result of
  \<open>net.Listen\<close>, the life of its node, signals, the network of its client. \<open>osWatched\<close> and
  \<open>osWatchedInstances\<close> stand for what a watcher of the client library has received and how the
  select of \<open>cmdWatch\<close> chose while the process ran; None as result: the stream goes on.\<close>

record 'w Outside =
  osGetenv :: "string \<Rightarrow> string"
  osFraction :: "int \<Rightarrow> int \<Rightarrow> int \<Rightarrow> int"
  osListen :: "string + string"
  osLife :: "ServerNode \<Rightarrow> ServerNode"
  osSignals :: "os_signal list"
  osNet :: "'w Net"
  osWatched :: "string \<Rightarrow> string \<Rightarrow> int64 \<Rightarrow> bool list \<times> Watcher"
  osWatchedInstances :: "string \<Rightarrow> string \<Rightarrow> DiscoverWatcher"

definition runClient_args :: "'w Outside \<Rightarrow> string \<Rightarrow> string list \<Rightarrow> 'w
    \<Rightarrow> ('w \<times> printed list \<times> main_error option option) go" where
  "runClient_args os cmd args w = (case Parse (ParseDuration (osFraction os)) client_flag_set args of
     Inl err \<Rightarrow> Inr (w, [], Some (Some (FlagError err)))
   | Inr settings \<Rightarrow>
       let f = client_flags (osGetenv os) settings
       in go_bind (runClient (osNet os) cmd f w) (\<lambda>r. Inr (case r of
            Some (w', out, err) \<Rightarrow> (w', out, Some (map_option ClientError err))
          | None \<Rightarrow>
              let (out, err) = (if cmd = ''watch''
                    then let (picks, watcher) = osWatched os (cfNs f) (cfKey f) (cfFromSeq f) in cmdWatch picks watcher
                    else cmdDiscoverWatch (osWatchedInstances os (cfNs f) (cfService f)))
              in (w, out, map_option (map_option ClientError) err))))"

text \<open>What goes to the standard error output, and the exit code; None: the process goes on.\<close>

datatype stderr = MsgError main_error | MsgUnknown string | MsgUsage string

record 'w process =
  prWorld :: 'w
  prOut :: "printed list"
  prErr :: "stderr list"
  prExit :: "nat option"

definition process_end :: "'w \<Rightarrow> printed list \<Rightarrow> main_error option option \<Rightarrow> 'w process" where
  "process_end w out end_error = (case end_error of
     None \<Rightarrow> \<lparr>prWorld = w, prOut = out, prErr = [], prExit = None\<rparr>
   | Some None \<Rightarrow> \<lparr>prWorld = w, prOut = out, prErr = [], prExit = Some 0\<rparr>
   | Some (Some err) \<Rightarrow> \<lparr>prWorld = w, prOut = out, prErr = [MsgError err], prExit = Some 1\<rparr>)"

definition main_process :: "'w Outside \<Rightarrow> string list \<Rightarrow> 'w \<Rightarrow> 'w process go" where
  "main_process os argv w = (case main_command argv of
     RunServe args \<Rightarrow> go_bind (runServe (osGetenv os) (ParseDuration (osFraction os)) (osListen os) (osLife os) (osSignals os) args)
       (\<lambda>r. Inr (process_end w [] (case r of
          Inl err \<Rightarrow> Some (Some err) | Inr Stopped \<Rightarrow> Some None | Inr _ \<Rightarrow> None)))
   | RunClient cmd args \<Rightarrow> go_bind (runClient_args os cmd args w) (\<lambda>(w', out, r). Inr (process_end w' out r))
   | ShowUsage \<Rightarrow> Inr \<lparr>prWorld = w, prOut = [], prErr = [MsgUsage usage], prExit = Some 0\<rparr>
   | UnknownCommand cmd \<Rightarrow> Inr \<lparr>prWorld = w, prOut = [], prErr = [MsgUnknown cmd, MsgUsage usage], prExit = Some 2\<rparr>)"

subsection \<open>Properties\<close>

text \<open>The settings of the flags of \<open>serve\<close>, and an environment with the same values. \<open>dur\<close> is a notation of
  the sweep interval.\<close>

definition serve_settings :: "string \<Rightarrow> ServeFlags \<Rightarrow> (string \<times> string) list" where
  "serve_settings dur f = [(''node-id'', dec (sfNodeID f)), (''listen'', sfListen f), (''advertise'', sfAdvertise f),
     (''leader-id'', dec (sfLeaderID f)), (''peers'', sfPeers f), (''sweep-interval'', dur)]"

definition serve_environment :: "string \<Rightarrow> ServeFlags \<Rightarrow> (string \<Rightarrow> string) \<Rightarrow> string \<Rightarrow> string" where
  "serve_environment dur f getenv = getenv
    (''DISTCONF_NODE_ID'' := dec (sfNodeID f), ''DISTCONF_LISTEN'' := sfListen f, ''DISTCONF_ADVERTISE'' := sfAdvertise f,
     ''DISTCONF_LEADER_ID'' := dec (sfLeaderID f), ''DISTCONF_PEERS'' := sfPeers f, ''DISTCONF_SWEEP_INTERVAL'' := dur)"

lemma map_of_same_set:
  assumes "set ys = set zs" and "distinct (map fst zs)"
  shows "map_of (List.rev ys) k = map_of zs k"
proof (cases "map_of (List.rev ys) k")
  case None
  then have "map_of zs k = None" using assms(1) by (metis map_of_eq_None_iff set_rev)
  with None show ?thesis by simp
next
  case (Some v)
  then have "(k, v) \<in> set zs" using assms(1) map_of_SomeD [OF Some] by simp
  with Some assms(2) show ?thesis by simp
qed

text \<open>C39: Flags or environment. However the flags of \<open>serve\<close> are spelled (one dash or two, the value after an
  equals sign or as the next argument), ordered and repeated, the parser reads their values back whatever the
  environment holds; and a process without flags whose environment variables hold the same values
  runs the same node.\<close>

theorem serve_flags_or_environment:
  assumes "is_int64 (sfNodeID f)" and "is_int64 (sfLeaderID f)" and "ParseDuration fraction dur = Some (sfSweep f)"
    and "sfListen f \<noteq> []" and "sfAdvertise f \<noteq> []" and "sfPeers f \<noteq> []"
    and "set (map snd xs) = set (serve_settings dur f)"
  shows "Parse (ParseDuration fraction) serve_flag_set (concat (map spell xs)) = Inr (map snd xs) \<and> serve_flags getenv (ParseDuration fraction) (map snd xs) = f
    \<and> runServe getenv (ParseDuration fraction) listen life signals (concat (map spell xs))
      = runServe (serve_environment dur f getenv) (ParseDuration fraction) listen life signals []"
proof -
  let ?pd = "ParseDuration fraction"
  have dur: "dur \<noteq> []" using assms(3) by (auto simp: ParseDuration_def)
  note ints = ParseInt0_dec [OF assms(1)] ParseInt0_dec [OF assms(2)]
  have "\<forall>(key, v)\<in>set (serve_settings dur f). flag_name key
    \<and> (\<exists>kind. map_of serve_flag_set key = Some kind \<and> valid_value ?pd kind v \<and> kind \<noteq> BoolFlag)"
    using ints assms(3) by (simp add: serve_settings_def serve_flag_set_def flag_name_def valid_value_def)
  moreover have "(key, v) \<in> set (serve_settings dur f)" if "(sp, key, v) \<in> set xs" for sp key v
    using imageI [OF that, of snd] assms(7) by simp
  ultimately have "\<forall>(sp, key, v)\<in>set xs. flag_name key
    \<and> (\<exists>kind. map_of serve_flag_set key = Some kind \<and> valid_value ?pd kind v \<and> (kind = BoolFlag \<longrightarrow> spEquals sp))"
    by blast
  then have parse: "Parse ?pd serve_flag_set (concat (map spell xs)) = Inr (map snd xs)" by (rule parse_spelled_all)
  have "flag_value (map snd xs) key = map_of (serve_settings dur f) key" for key
    unfolding flag_value_def by (rule map_of_same_set [OF assms(7)]) (simp add: serve_settings_def)
  then have flags: "serve_flags getenv ?pd (map snd xs) = f"
    using ints assms(3) by (simp add: serve_flags_def Let_def parsed_flag_def string_flag_def serve_settings_def)
  have env: "serve_flags (serve_environment dur f getenv) ?pd [] = f"
    using assms dur Atoi_dec [OF assms(1)] Atoi_dec [OF assms(2)]
    by (simp add: serve_flags_def Let_def parsed_flag_def string_flag_def flag_value_def serve_defaults_def
        serve_environment_def env_def atoiOr_def durOr_def)
  have "serve_environment dur f getenv ''DISTCONF_REPL_TOKEN'' = getenv ''DISTCONF_REPL_TOKEN''"
    by (simp add: serve_environment_def)
  then have "serve_config (serve_environment dur f getenv) f = serve_config getenv f"
    by (simp only: serve_config_def)
  moreover have "Parse ?pd serve_flag_set [] = Inr []" by (simp add: Parse_def)
  ultimately show ?thesis using parse flags env by (simp add: runServe_def)
qed

definition example_flags :: ServeFlags where
  "example_flags = \<lparr>sfNodeID = 10, sfListen = '':9000'', sfAdvertise = ''n1:9000'', sfLeaderID = 10, sfPeers = ''10=n1:9000'',
     sfSweep = 200000000\<rparr>"

definition spellings :: "spelling list" where
  "spellings = [\<lparr>spTwoDashes = True, spEquals = True\<rparr>, \<lparr>spTwoDashes = False, spEquals = False\<rparr>]"

theorem serve_flags_or_environment_witness:
  "serve_flags (\<lambda>_. ''junk'') (ParseDuration (\<lambda>f scale unit. 0))
      (serve_settings ''200ms'' example_flags @ [(''listen'', '':9000'')]) = example_flags
    \<and> concat (map spell [(spellings ! 0, ''node-id'', dec 10), (spellings ! 1, ''listen'', '':9000'')])
      = [''--node-id=10'', ''-listen'', '':9000'']"
proof -
  let ?xs = "map (Pair (spellings ! 0)) (serve_settings ''200ms'' example_flags) @ [(spellings ! 1, ''listen'', '':9000'')]"
  have snd: "map snd ?xs = serve_settings ''200ms'' example_flags @ [(''listen'', '':9000'')]" by (simp add: comp_def)
  have "set (map snd ?xs) = set (serve_settings ''200ms'' example_flags)"
    unfolding snd by (auto simp: serve_settings_def example_flags_def)
  from serve_flags_or_environment [OF _ _ _ _ _ _ this, where fraction = "\<lambda>f scale unit. 0"
      and getenv = "\<lambda>_. ''junk''"]
  have "serve_flags (\<lambda>_. ''junk'') (ParseDuration (\<lambda>f scale unit. 0)) (map snd ?xs) = example_flags"
    by (simp add: example_flags_def is_int64_def ParseDuration_examples)
  moreover have "dec 10 = ''10''" by (simp add: dec_def dec_pos.simps [of 10] dec_pos.simps [of 1] dec_pos.simps [of 0]) code_simp
  ultimately show ?thesis unfolding snd by (simp add: spell_def spellings_def)
qed

lemma start_listening: "\<exists>n. StartNode (Inr addr) (NewNode cfg) = (n, None)"
  by (cases "ncListener (svCfg (NewNode cfg))") (simp_all add: StartNode_def Let_def)

lemma started_stops:
  assumes "StartNode listen (NewNode cfg) = (n, None)"
  shows "\<exists>m. StopNode (n\<lparr>svOpenStreams := k\<rparr>) = Inr (m, k = 0)"
  using assms
  by (auto simp: StartNode_def NewNode_def StopNode_def Let_def sweeper_joined_def StopSweeper_def StartSweeper_def
      NewSweeper_def Stop_def nodeLeader_def NewLeader_def SetSnapshotExporter_def split: sum.splits if_splits)



end
