(* ===== verification/Cluster.thy ===== *)
theory Cluster
  imports ReplProps ReplicaProps
begin

text \<open>
  The replication of a whole cluster: the leader with its commit loop (\<open>leader.go\<close>), the goroutines
  of each replication stream (\<open>HandleStreamWithInitial\<close> in \<open>stream.go\<close>), the messages on the way in
  both directions, and the followers (\<open>ApplyStream\<close>). A step is what one goroutine does between two
  points at which another one can come in: a critical section, a send or a receive. Streams may
  fail at any time, and a stream that was given up can still bring messages. A node that restarts
  has lost its state.
\<close>

subsection \<open>The push goroutine\<close>

text \<open>Where the goroutine is. \<open>PRead\<close> is the call of \<open>LastIndex\<close> after a catch-up (with the
  subscription, if there is one already), \<open>PTail\<close> the select of the loop, \<open>PCheck\<close> the head of the
  inner loop, \<open>PFetch\<close> the call of \<open>EntriesAfter\<close>, \<open>PCatch\<close> the catch-up inside the loop.\<close>

datatype after_send = ThenRead "int64 option" | ThenCheck int64 int64

datatype push_phase =
    PWait
  | PSend "AppendEntriesRequest list" after_send
  | PRead "int64 option"
  | PSubscribe int64
  | PTail int64 int64
  | PCheck int64 int64
  | PFetch int64 int64 int64
  | PCatch int64 int64
  | PEnded

text \<open>What the environment decides: the goroutine goes on, its send fails, or its select takes the
  case of \<open>StopChan\<close>.\<close>

datatype push_case = PushGo | PushSendFails | PushStop

fun phase_sub :: "push_phase \<Rightarrow> int64 option" where
  "phase_sub (PSend msgs (ThenRead sid)) = sid"
| "phase_sub (PSend msgs (ThenCheck i sentTo)) = Some i"
| "phase_sub (PRead sid) = sid"
| "phase_sub (PTail i sentTo) = Some i"
| "phase_sub (PCheck i sentTo) = Some i"
| "phase_sub (PFetch i sentTo li) = Some i"
| "phase_sub (PCatch i sentTo) = Some i"
| "phase_sub p = None"

text \<open>The return, with the deferred \<open>UnsubscribeEntries\<close>.\<close>

definition push_return :: "push_phase \<Rightarrow> 'st Leader \<Rightarrow> 'st Leader" where
  "push_return p l = (case phase_sub p of None \<Rightarrow> l | Some i \<Rightarrow> UnsubscribeEntries i l)"

text \<open>A step takes the content of \<open>initialCh\<close> and gives the messages that it sends. None: it waits.\<close>

type_synonym 'st push_result = "('st Leader \<times> int64 option \<times> push_phase \<times> AppendEntriesRequest list) option go"

definition push_step :: "push_case \<Rightarrow> int64 option \<Rightarrow> push_phase \<Rightarrow> 'st Leader \<Rightarrow> 'st push_result" where
  "push_step pc initial p l = (case p of
     PWait \<Rightarrow>
       (case pc of
          PushStop \<Rightarrow> Inr (if stopChClosed l then Some (l, initial, PEnded, []) else None)
        | _ \<Rightarrow> (case initial of
              None \<Rightarrow> Inr None
            | Some sentTo \<Rightarrow> go_bind (sendCatchup None sentTo l)
                (\<lambda>(msgs, sent). Inr (Some (l, None, PSend msgs (ThenRead None), [])))))
   | PSend msgs k \<Rightarrow>
       (case msgs of
          [] \<Rightarrow> Inr (Some (l, initial, (case k of ThenRead sid \<Rightarrow> PRead sid | ThenCheck i sentTo \<Rightarrow> PCheck i sentTo), []))
        | m # ms \<Rightarrow> Inr (Some (if pc = PushSendFails then (push_return p l, initial, PEnded, [])
                               else (l, initial, PSend ms k, [m]))))
   | PRead sid \<Rightarrow> Inr (Some (l, initial,
       (case sid of None \<Rightarrow> PSubscribe (LastIndex l) | Some i \<Rightarrow> PCheck i (LastIndex l)), []))
   | PSubscribe sentTo \<Rightarrow> (let (l', i) = SubscribeEntries l in Inr (Some (l', initial, PTail i sentTo, [])))
   | PTail i sentTo \<Rightarrow>
       (case pc of
          PushStop \<Rightarrow> Inr (if stopChClosed l then Some (push_return p l, initial, PEnded, []) else None)
        | _ \<Rightarrow> (let (b, got) = take_signal i (ping l)
                in Inr (if got then Some (l\<lparr>ping := b\<rparr>, initial, PCheck i sentTo, []) else None)))
   | PCheck i sentTo \<Rightarrow> (let li = LastIndex l
       in Inr (Some (l, initial, if sentTo \<ge> li then PTail i sentTo else PFetch i sentTo li, [])))
   | PFetch i sentTo li \<Rightarrow> go_bind (EntriesAfter sentTo l) (\<lambda>(es, inWindow).
       Inr (Some (l, initial,
         if inWindow then PSend (map entry_msg es) (ThenCheck i li) else PCatch i sentTo, [])))
   | PCatch i sentTo \<Rightarrow> go_bind (sendCatchup None sentTo l) (\<lambda>(msgs, sent).
       Inr (Some (l, initial, PSend msgs (ThenRead (Some i)), [])))
   | PEnded \<Rightarrow> Inr None)"

subsection \<open>Streams and the cluster\<close>

text \<open>A stream: its follower, the messages on the way down and up, whether \<open>ApplyStream\<close> still reads
  it, the handler (not yet called, serving under a number of the peer manager, returned), the
  receive goroutine and the push goroutine.\<close>

datatype stream_handler = HNew | HServing int | HClosed

record Link =
  lkFid :: int32
  lkDown :: "AppendEntriesRequest list"
  lkUp :: "AppendEntriesResponse list"
  lkReading :: bool
  lkHandler :: stream_handler
  lkRecv :: "int64 option \<times> bool"
  lkRecvDone :: bool
  lkPush :: push_phase

text \<open>\<open>cuLog\<close> collects all entries in the order of their indices, for the statements only.\<close>

record Cluster =
  cuLeader :: "Store Leader"
  cuPeers :: PeerManager
  cuStores :: "int32 \<Rightarrow> Store"
  cuLinks :: "Link list"
  cuLog :: "LogEntry list"

definition new_cluster :: "Config \<Rightarrow> Cluster" where
  "new_cluster cfg = \<lparr>cuLeader = nodeLeader cfg, cuPeers = NewPeerManager, cuStores = (\<lambda>_. New),
     cuLinks = [], cuLog = []\<rparr>"

definition node_store :: "Cluster \<Rightarrow> int32 \<Rightarrow> Store" where
  "node_store c nid = (if nid = cfgNodeID (ldCfg (cuLeader c)) then ldState (cuLeader c) else cuStores c nid)"

text \<open>\<open>FollowerRunner\<close> opens a stream: the first message is the position.\<close>

definition new_link :: "int32 \<Rightarrow> Store \<Rightarrow> Link" where
  "new_link fid st = \<lparr>lkFid = fid, lkDown = [], lkUp = [ack StoreApplier fid st], lkReading = True,
     lkHandler = HNew, lkRecv = (None, True), lkRecvDone = False, lkPush = PWait\<rparr>"

definition set_link :: "nat \<Rightarrow> Link \<Rightarrow> Cluster \<Rightarrow> Cluster" where
  "set_link k lk c = c\<lparr>cuLinks := (cuLinks c)[k := lk]\<rparr>"

datatype cluster_act =
    DoPropose LogEntry
  | DoSelect propose_case int64
  | DoTurn "int64 \<Rightarrow> int64"
  | DoStop
  | Connect int32
  | Accept nat
  | Receive nat
  | ReceiveFails nat
  | Push nat push_case
  | Follow nat int64 bool
  | Disconnect nat
  | Close nat
  | Restart int32

text \<open>The handler reads the position of a follower that the configuration knows and starts the two
  goroutines.\<close>

definition accept_link :: "nat \<Rightarrow> Link \<Rightarrow> Cluster \<Rightarrow> Cluster" where
  "accept_link k lk c = (case (lkHandler lk, lkUp lk) of
     (HNew, resp # resps) \<Rightarrow>
       (let fid = arFollowerId resp; cfg = ldCfg (cuLeader c)
        in if map_of (cfgNodeAddrs cfg) fid = None \<or> fid = cfgNodeID cfg
           then set_link k (lk\<lparr>lkUp := resps, lkHandler := HClosed, lkRecvDone := True, lkPush := PEnded\<rparr>) c
           else let (pm, ps) = open_stream fid (cuPeers c)
                in set_link k (lk\<lparr>lkUp := resps, lkHandler := HServing ps, lkRecv := recv_start (arAckIndex resp)\<rparr>)
                     (c\<lparr>cuPeers := pm\<rparr>))
   | _ \<Rightarrow> c)"

definition receive_link :: "nat \<Rightarrow> Link \<Rightarrow> Cluster \<Rightarrow> Cluster go" where
  "receive_link k lk c = (case lkUp lk of
     resp # resps \<Rightarrow>
       if lkHandler lk = HNew \<or> lkRecvDone lk then Inr c
       else go_bind (recv_step resp (lkRecv lk) (cuLeader c)) (\<lambda>(r, l).
         Inr (set_link k (lk\<lparr>lkUp := resps, lkRecv := r\<rparr>) (c\<lparr>cuLeader := l\<rparr>)))
   | [] \<Rightarrow> Inr c)"

definition push_link :: "nat \<Rightarrow> push_case \<Rightarrow> Link \<Rightarrow> Cluster \<Rightarrow> Cluster go" where
  "push_link k pc lk c =
    (if lkHandler lk = HNew then Inr c
     else go_bind (push_step pc (fst (lkRecv lk)) (lkPush lk) (cuLeader c)) (\<lambda>r. Inr (case r of
       None \<Rightarrow> c
     | Some (l, initial, p, out) \<Rightarrow>
         set_link k (lk\<lparr>lkRecv := (initial, snd (lkRecv lk)), lkPush := p, lkDown := lkDown lk @ out\<rparr>)
           (c\<lparr>cuLeader := l\<rparr>))))"

text \<open>One turn of the loop of \<open>ApplyStream\<close>; \<open>sends\<close> says whether its acknowledgement can be sent.\<close>

definition follow_link :: "nat \<Rightarrow> int64 \<Rightarrow> bool \<Rightarrow> Link \<Rightarrow> Cluster \<Rightarrow> Cluster go" where
  "follow_link k now sends lk c = (case lkDown lk of
     m # ms \<Rightarrow>
       if \<not> lkReading lk then Inr c
       else go_bind (handle_payload StoreApplier now m (cuStores c (lkFid lk))) (\<lambda>r. Inr (case r of
         Inl e \<Rightarrow> set_link k (lk\<lparr>lkDown := ms, lkReading := False\<rparr>) c
       | Inr None \<Rightarrow> set_link k (lk\<lparr>lkDown := ms\<rparr>) c
       | Inr (Some st) \<Rightarrow>
           set_link k (if sends then lk\<lparr>lkDown := ms, lkUp := lkUp lk @ [ack StoreApplier (lkFid lk) st]\<rparr>
                       else lk\<lparr>lkDown := ms, lkReading := False\<rparr>)
             (c\<lparr>cuStores := (cuStores c)(lkFid lk := st)\<rparr>)))
   | [] \<Rightarrow> Inr c)"

text \<open>The handler returns when one of its goroutines has ended or the leader has stopped.\<close>

definition close_link :: "nat \<Rightarrow> Link \<Rightarrow> Cluster \<Rightarrow> Cluster go" where
  "close_link k lk c = (case lkHandler lk of
     HServing ps \<Rightarrow>
       if lkRecvDone lk \<or> lkPush lk = PEnded \<or> stopChClosed (cuLeader c)
       then go_bind (close_stream (lkFid lk) ps (cuPeers c) (cuLeader c)) (\<lambda>(pm, l).
         Inr (set_link k (lk\<lparr>lkHandler := HClosed\<rparr>) (c\<lparr>cuPeers := pm, cuLeader := l\<rparr>)))
       else Inr c
   | _ \<Rightarrow> Inr c)"

text \<open>A process ends and starts again with \<open>NewNode\<close>: everything was in memory.\<close>

definition restart_node :: "int32 \<Rightarrow> Cluster \<Rightarrow> Cluster" where
  "restart_node nid c =
    (if nid = cfgNodeID (ldCfg (cuLeader c))
     then c\<lparr>cuLeader := nodeLeader (ldCfg (cuLeader c)), cuPeers := NewPeerManager, cuLog := [],
            cuLinks := map (\<lambda>lk. lk\<lparr>lkUp := [], lkHandler := HClosed, lkRecvDone := True, lkPush := PEnded\<rparr>) (cuLinks c)\<rparr>
     else c\<lparr>cuStores := (cuStores c)(nid := New),
            cuLinks := map (\<lambda>lk. if lkFid lk = nid then lk\<lparr>lkReading := False\<rparr> else lk) (cuLinks c)\<rparr>)"

definition on_link :: "nat \<Rightarrow> (Link \<Rightarrow> Cluster \<Rightarrow> Cluster go) \<Rightarrow> Cluster \<Rightarrow> Cluster go" where
  "on_link k f c = (if k < length (cuLinks c) then f (cuLinks c ! k) c else Inr c)"

text \<open>An action that is not possible changes nothing.\<close>

fun cluster_step :: "cluster_act \<Rightarrow> Cluster \<Rightarrow> Cluster go" where
  "cluster_step (DoPropose e) c = go_bind (Propose e (cuLeader c)) (\<lambda>(l, r).
     Inr (c\<lparr>cuLeader := l, cuLog := (case r of Inl err \<Rightarrow> cuLog c
       | Inr index \<Rightarrow> cuLog c @ [e\<lparr>leIndex := index, leTerm := 1\<rparr>])\<rparr>))"
| "cluster_step (DoSelect pc index) c = Inr (case propose_select pc index (cuLeader c) of
     None \<Rightarrow> c | Some (l, r) \<Rightarrow> c\<lparr>cuLeader := l\<rparr>)"
| "cluster_step (DoTurn clk) c = go_bind (commitLoop_turn clk (cuLeader c)) (\<lambda>r.
     Inr (case r of None \<Rightarrow> c | Some l \<Rightarrow> c\<lparr>cuLeader := l\<rparr>))"
| "cluster_step DoStop c = go_bind (Stop (cuLeader c)) (\<lambda>l. Inr (c\<lparr>cuLeader := l\<rparr>))"
| "cluster_step (Connect fid) c =
    (if fid = cfgNodeID (ldCfg (cuLeader c)) \<or> (\<exists>lk\<in>set (cuLinks c). lkFid lk = fid \<and> lkReading lk) then Inr c
     else Inr (c\<lparr>cuLinks := cuLinks c @ [new_link fid (cuStores c fid)]\<rparr>))"
| "cluster_step (Accept k) c = on_link k (\<lambda>lk c. Inr (accept_link k lk c)) c"
| "cluster_step (Receive k) c = on_link k (receive_link k) c"
| "cluster_step (ReceiveFails k) c = on_link k (\<lambda>lk c.
     Inr (if lkHandler lk = HNew then c else set_link k (lk\<lparr>lkRecvDone := True\<rparr>) c)) c"
| "cluster_step (Push k pc) c = on_link k (push_link k pc) c"
| "cluster_step (Follow k now sends) c = on_link k (follow_link k now sends) c"
| "cluster_step (Disconnect k) c = on_link k (\<lambda>lk c. Inr (set_link k (lk\<lparr>lkReading := False\<rparr>) c)) c"
| "cluster_step (Close k) c = on_link k (close_link k) c"
| "cluster_step (Restart nid) c = Inr (restart_node nid c)"

fun cluster_run :: "cluster_act list \<Rightarrow> Cluster \<Rightarrow> Cluster go" where
  "cluster_run [] c = Inr c"
| "cluster_run (a # as) c = go_bind (cluster_step a c) (cluster_run as)"

lemma cluster_run_append:
  "cluster_run (as @ bs) = (\<lambda>c. go_bind (cluster_run as c) (cluster_run bs))"
proof (induction as)
  case (Cons a as)
  show ?case by (rule ext) (simp add: Cons go_bind_assoc)
qed simp

end
