(* ===== verification/ClusterInv.thy ===== *)
theory ClusterInv
  imports Cluster
begin

text \<open>
  The invariant of the cluster: every store holds what a prefix of the one log gives, every
  message tells the truth about log and stores, and the acknowledgements that the leader has
  counted have been earned. One lemma for each goroutine shows that a step cannot panic and keeps
  the invariant.
\<close>

subsection \<open>A store as a run of the log\<close>

text \<open>What the abstract machine makes of a list of entries, each with the clock reading at its
  application.\<close>

definition run_spec :: "(int64 \<times> LogEntry) list \<Rightarrow> AbsStore \<Rightarrow> AbsStore" where
  "run_spec es a = fold (\<lambda>(now, e) a. fst (spec_apply now e a)) es a"

text \<open>The data of the store is that of the first \<open>rev s\<close> entries at some clock readings.\<close>

definition replica :: "LogEntry list \<Rightarrow> Store \<Rightarrow> bool" where
  "replica log s \<longleftrightarrow> store_inv s \<and> (\<exists>clks. int (length clks) = rev s \<and> length clks \<le> length log
     \<and> same_data (abs_of s) (run_spec (zip clks log) (abs_of New)))"

lemma same_data_refl [simp]: "same_data a a"
  by (simp add: same_data_def)

lemma same_data_trans: "same_data a b \<Longrightarrow> same_data b d \<Longrightarrow> same_data a d"
  by (simp add: same_data_def)

lemma spec_apply_same:
  "same_data a b \<Longrightarrow> same_data (fst (spec_apply now e a)) (fst (spec_apply now e b))
    \<and> snd (spec_apply now e a) = snd (spec_apply now e b)"
  by (auto simp: same_data_def spec_apply_def Let_def split: option.splits LogEntry_Op.splits prod.splits)

text \<open>The outcome of the entry at position \<open>i\<close> of the log.\<close>

definition answer_of :: "LogEntry list \<Rightarrow> int64 \<Rightarrow> Outcome \<Rightarrow> bool" where
  "answer_of log i r \<longleftrightarrow> 1 \<le> i \<and> i \<le> int (length log) \<and> (\<exists>clks now. int (length clks) = i - 1
     \<and> r = snd (spec_apply now (log ! nat (i - 1)) (run_spec (zip clks log) (abs_of New))))"

lemma answer_of_mono: "answer_of log i r \<Longrightarrow> answer_of (log @ es) i r"
  by (fastforce simp: answer_of_def nth_append zip_append2)

lemma run_spec_append: "run_spec (xs @ ys) a = run_spec ys (run_spec xs a)"
  by (simp add: run_spec_def)

lemma replica_New: "replica log New"
proof -
  have "rev New = 0" by (simp add: New_def)
  then show ?thesis
    by (auto simp: replica_def store_inv_New run_spec_def intro!: exI [of _ "[]"])
qed

lemma replica_pos: "replica log s \<Longrightarrow> 0 \<le> rev s \<and> rev s \<le> int (length log) \<and> store_inv s"
  by (auto simp: replica_def)

lemma replica_mono: "replica log s \<Longrightarrow> replica (log @ es) s"
  by (force simp: replica_def zip_append2)

lemma replica_data:
  "replica log t \<Longrightarrow> store_inv s \<Longrightarrow> same_data (abs_of s) (abs_of t) \<Longrightarrow> replica log s"
  by (auto simp: replica_def same_data_def)

lemma replica_apply:
  assumes s: "replica log s" and e: "e = log ! nat (rev s)" "rev s < int (length log)"
    and idx: "leIndex e = rev s + 1" and fits: "store_fits e"
  shows "\<exists>s' r. applyOne StoreApplier now e s = Inr (s', r) \<and> replica log s' \<and> rev s' = rev s + 1
    \<and> answer_of log (rev s + 1) r"
proof -
  have inv: "store_inv s" using s by (simp add: replica_def)
  obtain clks where clks: "int (length clks) = rev s"
    "same_data (abs_of s) (run_spec (zip clks log) (abs_of New))"
    using s by (auto simp: replica_def)
  obtain s' r where s': "applyOne StoreApplier now e s = Inr (s', r)" "store_inv s'" "rev s' = leIndex e"
    using store_applies [OF inv fits, of now] idx by (auto simp: StoreApplier_def AppliedRevision_def)
  have abs: "abs_of s' = fst (spec_apply now e (abs_of s))" "r = snd (spec_apply now e (abs_of s))"
    using store_inv_apply [OF inv _ _ s'(1)] idx fits by (simp_all add: store_fits_def)
  have "answer_of log (rev s + 1) r"
    using clks e spec_apply_same [OF clks(2), of now e]
    by (auto simp: answer_of_def abs(2) intro!: exI [of _ clks] exI [of _ now])
  moreover
  have "zip (clks @ [now]) log = zip clks log @ [(now, e)]"
  proof -
    have k: "length clks < length log" "nat (rev s) = length clks" using clks(1) e(2) by auto
    then have "log = take (length clks) log @ e # drop (Suc (length clks)) log"
      using e(1) by (simp add: id_take_nth_drop)
    then have "zip (clks @ [now]) log
        = zip (clks @ [now]) (take (length clks) log @ e # drop (Suc (length clks)) log)" by simp
    also have "\<dots> = zip clks (take (length clks) log) @ [(now, e)]"
      using k by (subst zip_append) auto
    also have "zip clks (take (length clks) log) = zip clks log"
      by (metis take_all order_refl take_zip length_zip min.cobounded1)
    finally show ?thesis .
  qed
  then have "same_data (abs_of s') (run_spec (zip (clks @ [now]) log) (abs_of New))"
    using spec_apply_same [OF clks(2)] abs(1) by (simp add: run_spec_append) (simp add: run_spec_def)
  then have "replica log s'"
    using s' clks(1) idx e(2) by (auto simp: replica_def intro!: exI [of _ "clks @ [now]"])
  ultimately show ?thesis using s' idx by auto
qed

text \<open>The application loop of the leader.\<close>

lemma replica_apply_all:
  assumes "replica log s" and "apply_all StoreApplier es s = Inr (s', rs)"
    and "map snd es = take (length es) (drop (nat (rev s)) log)" and "consecutive 0 log" and "\<forall>e\<in>set log. store_fits e"
    and "rev s + int (length es) \<le> int (length log)"
  shows "replica log s' \<and> rev s' = rev s + int (length es) \<and> length rs = length es
    \<and> (\<forall>j<length rs. answer_of log (rev s + 1 + int j) (rs ! j))"
  using assms
proof (induction es arbitrary: s rs)
  case Nil
  then show ?case by simp
next
  case (Cons p es)
  obtain now e where p: "p = (now, e)" by (cases p)
  have pos: "0 \<le> rev s" "rev s < int (length log)" using replica_pos [OF Cons.prems(1)] Cons.prems(6) by auto
  then have k: "nat (rev s) < length log" by simp
  have split: "drop (nat (rev s)) log = log ! nat (rev s) # drop (nat (rev s + 1)) log"
    using Cons_nth_drop_Suc [OF k] pos(1) by (simp add: nat_add_distrib)
  have e: "e = log ! nat (rev s)" and rest: "map snd es = take (length es) (drop (nat (rev s + 1)) log)"
    using Cons.prems(3) by (simp_all add: p split)
  have idx: "leIndex e = rev s + 1"
    using consecutive_nth [OF Cons.prems(4) k] pos e by simp
  have "store_fits e" using Cons.prems(5) k e by simp
  from replica_apply [OF Cons.prems(1) e pos(2) idx this, of now]
  obtain s1 r where s1: "applyOne StoreApplier now e s = Inr (s1, r)" "replica log s1" "rev s1 = rev s + 1"
    "answer_of log (rev s + 1) r"
    by auto
  obtain rs' where rs': "apply_all StoreApplier es s1 = Inr (s', rs')" "rs = r # rs'"
    using Cons.prems(2) by (auto simp: p s1(1) go_bind_Inr_iff)
  from Cons.IH [OF s1(2) rs'(1) _ Cons.prems(4,5)] rest s1(3) Cons.prems(6)
  have "replica log s' \<and> rev s' = rev s1 + int (length es) \<and> length rs' = length es
    \<and> (\<forall>j<length rs'. answer_of log (rev s1 + 1 + int j) (rs' ! j))" by simp
  with s1(3,4) show ?case by (auto simp: rs'(2) nth_Cons add_ac split: nat.splits)
qed

text \<open>Snapshots that were exported from a replica.\<close>

definition snapshot_of :: "LogEntry list \<Rightarrow> PbSnapshot \<Rightarrow> bool" where
  "snapshot_of log p \<longleftrightarrow> (\<exists>t. replica log t \<and> p = SnapshotToProto (ExportSnapshot t))"

lemma snapshot_of_mono: "snapshot_of log p \<Longrightarrow> snapshot_of (log @ es) p"
  by (auto simp: snapshot_of_def intro: replica_mono)

lemma replica_restore:
  assumes "replica log s" and "snapshot_of log p"
  shows "\<exists>s'. apSnapshot StoreApplier (Some p) s = Inr s' \<and> replica log s' \<and> rev s \<le> rev s'"
proof -
  obtain t where t: "replica log t" "p = SnapshotToProto (ExportSnapshot t)"
    using assms(2) by (auto simp: snapshot_of_def)
  have inv: "store_inv s" "store_inv t" using assms(1) t(1) by (auto simp: replica_def)
  show ?thesis
  proof (cases "rev t < rev s")
    case True
    moreover have "snapRevision (ExportSnapshot t) = rev t" by (simp add: ExportSnapshot_def)
    ultimately show ?thesis
      using assms(1) by (simp add: StoreApplier_def ApplySnapshot_def t proto_export_id RestoreSnapshot_def)
  next
    case False
    with inv(2) have step: "ApplySnapshot (Some p) s = Inr (restored t s)"
      using RestoreSnapshot_export [of t s]
      by (simp add: ApplySnapshot_def t(2) proto_export_id store_inv_def tables_ok_def)
    have "store_inv (restored t s)" using store_inv_restore [OF inv] step t(2) by simp
    moreover have "same_data (abs_of (restored t s)) (abs_of t)"
      by (simp add: same_data_def restored_def)
    ultimately have "replica log (restored t s)" by (rule replica_data [OF t(1)])
    with step False show ?thesis by (simp add: StoreApplier_def restored_def)
  qed
qed


subsection \<open>What an operation of the leader leaves alone\<close>

lemma propose_frame:
  assumes "Propose e l = Inr (l', r)"
  shows "ldCfg l' = ldCfg l \<and> savedSnap l' = savedSnap l \<and> bcSeq (ping l') = bcSeq (ping l)
    \<and> (resChans l' = resChans l \<or> resChans l' = (resChans l)(LastIndex l + 1 \<mapsto> make_chan 1))"
  using assms
  by (auto simp: Propose_def Let_def wake_def notifyReplicators_def notify_def LastIndex_def go_bind_Inr_iff
      split: if_splits send_outcome.splits)

lemma select_frame:
  assumes "propose_select pc index l = Some (l', r)"
  shows "\<exists>W H. l' = l\<lparr>waiters := W, resChans := H\<rparr>
    \<and> (\<forall>i ch. H i = Some ch \<longrightarrow> (\<exists>ch0. resChans l i = Some ch0 \<and> chClosed ch = chClosed ch0 \<and> set (chBuf ch) \<subseteq> set (chBuf ch0)))"
proof (cases pc)
  case CaseResult
  with assms obtain ch where ch: "resChans l index = Some ch"
    by (auto simp: propose_select_def split: option.splits)
  show ?thesis
  proof (cases "chBuf ch")
    case Nil
    with assms CaseResult ch have "l' = l" by (auto simp: propose_select_def try_recv_def split: if_splits)
    then show ?thesis by (intro exI [of _ "waiters l"] exI [of _ "resChans l"]) simp
  next
    case (Cons x xs)
    with assms CaseResult ch have "l' = l\<lparr>resChans := (resChans l)(index \<mapsto> ch\<lparr>chBuf := xs\<rparr>)\<rparr>"
      by (auto simp: propose_select_def try_recv_def)
    with ch Cons show ?thesis
      by (intro exI [of _ "waiters l"] exI [of _ "(resChans l)(index \<mapsto> ch\<lparr>chBuf := xs\<rparr>)"]) auto
  qed
next
  case (CaseCtxDone err)
  with assms have "l' = l\<lparr>waiters := AList.delete index (waiters l)\<rparr>" by (simp add: propose_select_def)
  then show ?thesis by (intro exI [of _ "AList.delete index (waiters l)"] exI [of _ "resChans l"]) simp
next
  case CaseStopped
  with assms have "l' = l" by (auto simp: propose_select_def split: if_splits)
  then show ?thesis by (intro exI [of _ "waiters l"] exI [of _ "resChans l"]) simp
qed

lemma apply_range_frame:
  "apply_range clk idx n l sigs = Inr (l', sigs') \<Longrightarrow>
    ldCfg l' = ldCfg l \<and> ping l' = ping l \<and> savedSnap l' = savedSnap l \<and> exportSnapshot l' = exportSnapshot l"
proof (induction clk idx n l sigs rule: apply_range.induct)
  case (1 clk idx n l sigs)
  show ?case
  proof (cases "idx \<le> n")
    case False
    with "1.prems" show ?thesis by (subst (asm) apply_range.simps) auto
  next
    case True
    with "1.prems" obtain e st res where
      e: "slice_at (ldLog l) (idx - 1 - compactIndex l) = Inr e"
      "applyOne (ldAp l) (clk idx) e (ldState l) = Inr (st, res)"
      by (subst (asm) apply_range.simps) (auto simp: go_bind_Inr_iff)
    show ?thesis
    proof (cases "map_of (waiters (l\<lparr>ldState := st, ldApplied := idx\<rparr>)) idx")
      case None
      with "1.prems" True e have "apply_range clk (idx + 1) n (l\<lparr>ldState := st, ldApplied := idx\<rparr>) sigs = Inr (l', sigs')"
        by (subst (asm) apply_range.simps) (simp add: Let_def)
      with "1.IH"(1) [OF True refl None] show ?thesis by simp
    next
      case (Some ch)
      let ?l1 = "l\<lparr>ldState := st, ldApplied := idx\<rparr>"
      from "1.prems" True e Some
      have "apply_range clk (idx + 1) n (?l1\<lparr>waiters := AList.delete idx (waiters ?l1)\<rparr>) (sigs @ [(ch, res)]) = Inr (l', sigs')"
        by (subst (asm) apply_range.simps) (simp add: Let_def)
      with "1.IH"(2) [OF True refl Some] show ?thesis by simp
    qed
  qed
qed

lemma turn_frame:
  assumes "commitLoop_turn clk l = Inr (Some l')"
  shows "ldCfg l' = ldCfg l \<and> ping l' = ping l \<and> (savedSnap l' = savedSnap l
    \<or> (\<exists>f. exportSnapshot l = Some f \<and> savedSnap l' = Some (f (ldState l'))))"
proof -
  obtain u ch l1 sigs H where turn: "commit_pass clk (l\<lparr>wakeCh := ch\<rparr>) = Inr (l1, sigs)" "l' = l1\<lparr>resChans := H\<rparr>"
    using assms by (auto simp: commitLoop_turn_def go_bind_Inr_iff split: recv_outcome.splits)
  let ?l0 = "l\<lparr>wakeCh := ch\<rparr>"
  show ?thesis
  proof (cases "find_commit (\<lambda>i. votes ?l0 i \<ge> needVotes ?l0) (compactIndex ?l0 + int (length (ldLog ?l0))) (ldCommit ?l0) > ldCommit ?l0")
    case False
    with turn show ?thesis by (auto simp: commit_pass_def Let_def)
  next
    case True
    then obtain l2 n where run: "apply_range clk (ldCommit ?l0 + 1) n ?l0 [] = Inr (l2, sigs)"
      "compactLocked (l2\<lparr>ldCommit := n\<rparr>) = Inr l1"
      using turn(1) unfolding commit_pass_def Let_def by (auto simp: go_bind_Inr_iff)
    note frame = apply_range_frame [OF run(1)]
    have "ldCfg l1 = ldCfg l2 \<and> ping l1 = ping l2 \<and> (savedSnap l1 = savedSnap l2
        \<or> (\<exists>f. exportSnapshot l2 = Some f \<and> savedSnap l1 = Some (f (ldState l1))))"
      using run(2) by (auto simp: compactLocked_def Let_def go_bind_Inr_iff split: if_splits option.splits)
    with frame turn(2) show ?thesis by auto
  qed
qed


subsection \<open>The leader and the log\<close>

text \<open>\<open>n\<close> bounds the number of steps so far.\<close>

definition log_ok :: "nat \<Rightarrow> LogEntry list \<Rightarrow> bool" where
  "log_ok n log \<longleftrightarrow> consecutive 0 log \<and> (\<forall>e\<in>set log. store_fits e) \<and> length log \<le> n"

definition leader_ok :: "Config \<Rightarrow> nat \<Rightarrow> LogEntry list \<Rightarrow> Store Leader \<Rightarrow> bool" where
  "leader_ok cfg n log l \<longleftrightarrow> node_inv l \<and> ldCfg l = cfg
     \<and> exportSnapshot l = Some (\<lambda>st. SnapshotToProto (ExportSnapshot st))
     \<and> LastIndex l = int (length log) \<and> ldLog l = drop (nat (compactIndex l)) log
     \<and> replica log (ldState l) \<and> (\<forall>p. savedSnap l = Some p \<longrightarrow> snapshot_of log p)
     \<and> (\<forall>i ch. resChans l i = Some ch \<longrightarrow> \<not> chClosed ch \<and> (\<forall>r\<in>set (chBuf ch). i \<le> ldCommit l \<and> answer_of log i r))
     \<and> 0 \<le> bcSeq (ping l) \<and> bcSeq (ping l) \<le> int n"

lemma log_ok_later: "log_ok n log \<Longrightarrow> n \<le> m \<Longrightarrow> log_ok m log"
  by (simp add: log_ok_def)

lemma leader_ok_later: "leader_ok cfg n log l \<Longrightarrow> n \<le> m \<Longrightarrow> leader_ok cfg m log l"
  by (auto simp: leader_ok_def)

lemma leader_ok_range:
  assumes "leader_ok cfg n log l"
  shows "0 \<le> compactIndex l \<and> compactIndex l \<le> ldCommit l \<and> ldCommit l \<le> int (length log)
    \<and> rev (ldState l) = ldCommit l"
  using assms
  by (auto simp: leader_ok_def leader_inv_def log_inv_def StoreApplier_def AppliedRevision_def)

lemma leader_ok_new: "leader_ok cfg n [] (nodeLeader cfg)"
  using node_inv_start [of cfg] replica_New [of "[]"]
  by (simp add: leader_ok_def nodeLeader_def SetSnapshotExporter_def NewLeader_def LastIndex_def newBroadcaster_def)

lemma leader_ok_frame:
  assumes "leader_ok cfg n log l" and "node_inv l'"
    and "ldCfg l' = ldCfg l" "exportSnapshot l' = exportSnapshot l" "ldLog l' = ldLog l"
    "compactIndex l' = compactIndex l" "ldState l' = ldState l" "savedSnap l' = savedSnap l"
    "ldCommit l' = ldCommit l"
    and "\<forall>i ch. resChans l' i = Some ch \<longrightarrow>
      (\<exists>ch0. resChans l i = Some ch0 \<and> chClosed ch = chClosed ch0 \<and> set (chBuf ch) \<subseteq> set (chBuf ch0))"
    and "0 \<le> bcSeq (ping l')" "bcSeq (ping l') \<le> int n"
  shows "leader_ok cfg n log l'"
proof -
  have "\<not> chClosed ch \<and> (\<forall>r\<in>set (chBuf ch). i \<le> ldCommit l' \<and> answer_of log i r)" if ch: "resChans l' i = Some ch" for i ch
  proof -
    obtain ch0 where "resChans l i = Some ch0" "chClosed ch = chClosed ch0" "set (chBuf ch) \<subseteq> set (chBuf ch0)"
      using assms(10) ch by blast
    with assms(1,9) show ?thesis by (auto simp: leader_ok_def)
  qed
  moreover have "LastIndex l' = LastIndex l" using assms(5,6) by (simp add: LastIndex_def)
  ultimately show ?thesis using assms(1-9,11,12) by (simp add: leader_ok_def)
qed

lemma leader_ok_propose:
  assumes ok: "leader_ok cfg n log l" and lg: "log_ok n log"
    and fits: "store_fits (e\<lparr>leIndex := 1\<rparr>)" and n: "int n + 1 < maxIndex"
  shows "\<exists>l' r. Propose e l = Inr (l', r) \<and> (case r of
      Inl err \<Rightarrow> l' = l
    | Inr index \<Rightarrow> leader_ok cfg (Suc n) (log @ [e\<lparr>leIndex := index, leTerm := 1\<rparr>]) l'
        \<and> log_ok (Suc n) (log @ [e\<lparr>leIndex := index, leTerm := 1\<rparr>]))
    \<and> ldMatch l' = ldMatch l \<and> ldCommit l' = ldCommit l"
proof (cases "stopped l")
  case True
  then show ?thesis by (simp add: Propose_def)
next
  case False
  let ?e = "e\<lparr>leIndex := LastIndex l + 1, leTerm := 1\<rparr>"
  have last: "LastIndex l = int (length log)" and inv: "node_inv l" using ok by (auto simp: leader_ok_def)
  have fit: "store_fits ?e" using fits n lg by (auto simp: store_fits_def log_ok_def last)
  obtain l' where l': "Propose e l = Inr (l', Inr (LastIndex l + 1))" "node_inv l'" "ldLog l' = ldLog l @ [?e]"
    "LastIndex l' = LastIndex l + 1" "ldCommit l' = ldCommit l" "ldState l' = ldState l" "ldMatch l' = ldMatch l"
    "compactIndex l' = compactIndex l" "exportSnapshot l' = exportSnapshot l"
    using leader_inv_propose [OF inv False fit] by blast
  have frame: "ldCfg l' = ldCfg l" "savedSnap l' = savedSnap l" "bcSeq (ping l') = bcSeq (ping l)"
    "resChans l' = resChans l \<or> resChans l' = (resChans l)(LastIndex l + 1 \<mapsto> make_chan 1)"
    using propose_frame [OF l'(1)] by auto
  have "nat (compactIndex l) \<le> length log" using leader_ok_range [OF ok] by auto
  then have log: "ldLog l' = drop (nat (compactIndex l')) (log @ [?e])"
    using ok l'(3,8) by (simp add: leader_ok_def)
  have chans: "\<not> chClosed ch \<and> (\<forall>r\<in>set (chBuf ch). i \<le> ldCommit l' \<and> answer_of (log @ [?e]) i r)"
    if "resChans l' i = Some ch" for i ch
  proof -
    have "resChans l i = Some ch \<or> ch = make_chan 1" using that frame(4) by (auto split: if_splits)
    with ok l'(5) show ?thesis by (auto simp: leader_ok_def make_chan_def intro: answer_of_mono)
  qed
  have "leader_ok cfg (Suc n) (log @ [?e]) l'"
    using ok l' frame(1-3) log chans
    by (auto simp: leader_ok_def intro: replica_mono snapshot_of_mono)
  moreover have "log_ok (Suc n) (log @ [?e])" using lg fit by (simp add: log_ok_def last)
  ultimately show ?thesis using l' by auto
qed

lemma leader_ok_select:
  assumes "leader_ok cfg n log l" and "propose_select pc index l = Some (l', r)"
  shows "leader_ok cfg n log l' \<and> ldMatch l' = ldMatch l \<and> ldCommit l' = ldCommit l"
proof -
  have "node_inv l'" using propose_select_inv assms by (auto simp: leader_ok_def)
  moreover obtain W H where l': "l' = l\<lparr>waiters := W, resChans := H\<rparr>"
    "\<forall>i ch. H i = Some ch \<longrightarrow> (\<exists>ch0. resChans l i = Some ch0 \<and> chClosed ch = chClosed ch0 \<and> set (chBuf ch) \<subseteq> set (chBuf ch0))"
    using select_frame [OF assms(2)] by blast
  moreover have "0 \<le> bcSeq (ping l)" "bcSeq (ping l) \<le> int n" using assms(1) by (auto simp: leader_ok_def)
  ultimately have "leader_ok cfg n log l'"
    by (intro leader_ok_frame [OF assms(1)]) simp_all
  with l' show ?thesis by simp
qed

lemma leader_ok_turn:
  assumes ok: "leader_ok cfg n log l" and lg: "log_ok n log"
  shows "\<exists>r. commitLoop_turn clk l = Inr r \<and> (case r of
      None \<Rightarrow> True
    | Some l' \<Rightarrow> leader_ok cfg n log l' \<and> ldMatch l' = ldMatch l \<and> ldCommit l \<le> ldCommit l'
        \<and> (ldCommit l' = ldCommit l \<or> needVotes l \<le> votes l (ldCommit l')))"
proof (cases "chBuf (wakeCh l) = []")
  case True
  have "\<not> chClosed (wakeCh l)" using ok by (simp add: leader_ok_def leader_inv_def wake_ok_def)
  with True show ?thesis by (simp add: commitLoop_turn_def try_recv_def)
next
  case False
  have inv: "node_inv l" using ok by (simp add: leader_ok_def)
  let ?c = "ldCommit l"
  let ?m = "find_commit (\<lambda>i. votes l i \<ge> needVotes l) (LastIndex l) ?c"
  note range = leader_ok_range [OF ok]
  have last: "LastIndex l = int (length log)" using ok by (simp add: leader_ok_def)
  have m: "?c \<le> ?m" "?m \<le> LastIndex l" "?m = ?c \<or> needVotes l \<le> votes l ?m"
    using find_commit_spec [of ?c "LastIndex l" "\<lambda>i. votes l i \<ge> needVotes l"] range last by auto
  obtain l' rs where l': "commitLoop_turn clk l = Inr (Some l')" "node_inv l'" "ldCommit l' = ?m"
    "apply_all StoreApplier (clocked clk (?c + 1) (log_range (?c + 1) ?m l)) (ldState l) = Inr (ldState l', rs)"
    "LastIndex l' = LastIndex l" "ldMatch l' = ldMatch l"
    and chans: "\<forall>i. resChans l' i = (if map_of (waiters l) i \<noteq> None \<and> ?c < i \<and> i \<le> ?m
             then Some ((make_chan 1)\<lparr>chBuf := [rs ! nat (i - (?c + 1))]\<rparr>) else resChans l i)"
    and log': "ldLog l' = drop (nat (compactIndex l' - compactIndex l)) (ldLog l)" "compactIndex l \<le> compactIndex l'"
    and exp: "exportSnapshot l' = exportSnapshot l"
    using turn_ok [OF inv False refl, of clk] by blast
  have es: "log_range (?c + 1) ?m l = take (nat (?m - ?c)) (drop (nat (rev (ldState l))) log)"
  proof -
    have "nat (?c - compactIndex l) + nat (compactIndex l) = nat ?c" "?m + 1 - (?c + 1) = ?m - ?c"
      using range by arith+
    with ok range show ?thesis by (simp add: log_range_def leader_ok_def)
  qed
  have len: "int (length (log_range (?c + 1) ?m l)) = ?m - ?c"
    using length_log_range [of l "?c + 1" ?m] range m by simp
  have run: "replica log (ldState l') \<and> rev (ldState l') = rev (ldState l) + int (length (log_range (?c + 1) ?m l))
    \<and> length rs = length (log_range (?c + 1) ?m l)
    \<and> (\<forall>j<length rs. answer_of log (rev (ldState l) + 1 + int j) (rs ! j))"
  proof -
    have "log_range (?c + 1) ?m l = take (length (log_range (?c + 1) ?m l)) (drop (nat (rev (ldState l))) log)"
      unfolding es by (metis append_eq_conv_conj append_take_drop_id)
    then have mp: "map snd (clocked clk (?c + 1) (log_range (?c + 1) ?m l))
        = take (length (clocked clk (?c + 1) (log_range (?c + 1) ?m l))) (drop (nat (rev (ldState l))) log)"
      by (simp only: map_snd_clocked length_clocked)
    have "rev (ldState l) + int (length (clocked clk (?c + 1) (log_range (?c + 1) ?m l))) \<le> int (length log)"
      unfolding length_clocked len using range m(2) last by simp
    from replica_apply_all [OF _ l'(4) mp _ _ this] ok lg show ?thesis
      unfolding length_clocked by (simp add: leader_ok_def log_ok_def)
  qed
  then have rep: "replica log (ldState l')" by blast
  have rs: "int (length rs) = ?m - ?c" "\<forall>j<length rs. answer_of log (?c + 1 + int j) (rs ! j)"
    using run range len by auto
  have log: "ldLog l' = drop (nat (compactIndex l')) log"
  proof -
    have "nat (compactIndex l' - compactIndex l) + nat (compactIndex l) = nat (compactIndex l')"
      using log'(2) range by arith
    with ok log'(1) show ?thesis by (simp add: leader_ok_def)
  qed
  have snap: "snapshot_of log p" if "savedSnap l' = Some p" for p
    using turn_frame [OF l'(1)] that ok rep by (auto simp: leader_ok_def snapshot_of_def)
  have "\<not> chClosed ch \<and> (\<forall>r\<in>set (chBuf ch). i \<le> ldCommit l' \<and> answer_of log i r)" if "resChans l' i = Some ch" for i ch
  proof (cases "map_of (waiters l) i \<noteq> None \<and> ?c < i \<and> i \<le> ?m")
    case False
    with that chans have "resChans l i = Some ch" by (metis (no_types, lifting))
    with ok m(1) l'(3) show ?thesis by (force simp: leader_ok_def)
  next
    case True
    then have "ch = (make_chan 1)\<lparr>chBuf := [rs ! nat (i - (?c + 1))]\<rparr>" using that chans by auto
    moreover have "answer_of log i (rs ! nat (i - (?c + 1)))"
      using rs True by (auto dest!: spec [of _ "nat (i - (?c + 1))"])
    ultimately show ?thesis using True by (simp add: l'(3) make_chan_def)
  qed
  then have "leader_ok cfg n log l'"
    using ok l' rep log snap exp turn_frame [OF l'(1)] by (simp add: leader_ok_def)
  with l' m show ?thesis by auto
qed

lemma wake_frame: "wake l = Inr l' \<Longrightarrow> \<exists>w. l' = l\<lparr>wakeCh := w\<rparr>"
  by (cases "try_send () (Some (wakeCh l))")
    (auto simp: wake_def intro: exI [of _ "wakeCh l"])

lemma leader_ok_ack:
  assumes "leader_ok cfg n log l"
  shows "\<exists>l'. FollowerAck i index l = Inr l' \<and> leader_ok cfg n log l' \<and> ldCommit l' = ldCommit l
      \<and> MatchOf i l' = max (MatchOf i l) index \<and> (\<forall>j. j \<noteq> i \<longrightarrow> MatchOf j l' = MatchOf j l)"
    and "\<exists>l'. FollowerReset i l = Inr l' \<and> leader_ok cfg n log l' \<and> ldCommit l' = ldCommit l
      \<and> MatchOf i l' = 0 \<and> (\<forall>j. j \<noteq> i \<longrightarrow> MatchOf j l' = MatchOf j l)"
proof -
  have inv: "node_inv l" and wk: "wake_ok (wakeCh l)"
    using assms by (auto simp: leader_ok_def leader_inv_def)
  obtain l1 where l1: "FollowerAck i index l = Inr l1" "node_inv l1"
    "MatchOf i l1 = max (MatchOf i l) index" "\<forall>j. j \<noteq> i \<longrightarrow> MatchOf j l1 = MatchOf j l"
    using leader_inv_ack(1) [OF inv, of i index] by blast
  obtain l2 where l2: "FollowerReset i l = Inr l2" "node_inv l2"
    "MatchOf i l2 = 0" "\<forall>j. j \<noteq> i \<longrightarrow> MatchOf j l2 = MatchOf j l"
    using leader_inv_ack(2) [OF inv, of i] by blast
  have "\<exists>m w. l1 = l\<lparr>ldMatch := m, wakeCh := w\<rparr>"
  proof (cases "index > MatchOf i l")
    case True
    with l1(1) wake_frame [of "l\<lparr>ldMatch := AList.update i index (ldMatch l)\<rparr>" l1] show ?thesis
      by (auto simp: FollowerAck_def)
  next
    case False
    then obtain w where "l1 = l\<lparr>wakeCh := w\<rparr>" using l1(1) wake_frame [of l l1] by (auto simp: FollowerAck_def)
    then have "l1 = l\<lparr>ldMatch := ldMatch l, wakeCh := w\<rparr>" by simp
    then show ?thesis by blast
  qed
  moreover have "\<exists>m w. l2 = l\<lparr>ldMatch := m, wakeCh := w\<rparr>"
    using l2(1) wake_frame [of "l\<lparr>ldMatch := AList.update i 0 (ldMatch l)\<rparr>" l2] by (auto simp: FollowerReset_def)
  ultimately have "leader_ok cfg n log l1 \<and> ldCommit l1 = ldCommit l" "leader_ok cfg n log l2 \<and> ldCommit l2 = ldCommit l"
    using l1(2) l2(2) assms by (auto simp: leader_ok_def LastIndex_def)
  with l1 l2 show
    "\<exists>l'. FollowerAck i index l = Inr l' \<and> leader_ok cfg n log l' \<and> ldCommit l' = ldCommit l
      \<and> MatchOf i l' = max (MatchOf i l) index \<and> (\<forall>j. j \<noteq> i \<longrightarrow> MatchOf j l' = MatchOf j l)"
    "\<exists>l'. FollowerReset i l = Inr l' \<and> leader_ok cfg n log l' \<and> ldCommit l' = ldCommit l
      \<and> MatchOf i l' = 0 \<and> (\<forall>j. j \<noteq> i \<longrightarrow> MatchOf j l' = MatchOf j l)"
    by blast+
qed

lemma leader_ok_stop:
  assumes "leader_ok cfg n log l"
  shows "\<exists>l'. Stop l = Inr l' \<and> leader_ok cfg n log l' \<and> ldMatch l' = ldMatch l \<and> ldCommit l' = ldCommit l"
proof -
  have "stopped l = stopChClosed l" using assms by (simp add: leader_ok_def leader_inv_def)
  then obtain l' where l': "Stop l = Inr l'" by (auto simp: Stop_def)
  then have "node_inv l'" using node_inv_stop assms by (auto simp: leader_ok_def)
  moreover have "l' = l \<or> l' = l\<lparr>stopped := True, stopChClosed := True\<rparr>"
    using l' by (auto simp: Stop_def split: if_splits)
  moreover have "0 \<le> bcSeq (ping l)" "bcSeq (ping l) \<le> int n" using assms by (auto simp: leader_ok_def)
  ultimately have "leader_ok cfg n log l' \<and> ldMatch l' = ldMatch l \<and> ldCommit l' = ldCommit l"
    using assms by (auto simp: leader_ok_def LastIndex_def)
  with l' show ?thesis by blast
qed

lemma leader_ok_ping:
  assumes "leader_ok cfg n log l" and "bc_ok b" and "0 \<le> bcSeq b" and "bcSeq b \<le> int m" and "n \<le> m"
  shows "leader_ok cfg m log (l\<lparr>ping := b\<rparr>)"
proof (rule leader_ok_frame [OF leader_ok_later [OF assms(1,5)]])
  show "node_inv (l\<lparr>ping := b\<rparr>)" using assms(1,2) by (intro node_inv_ping) (simp_all add: leader_ok_def)
qed (use assms in auto)

end
