(* ===== verification/ClusterSafe.thy ===== *)
theory ClusterSafe
  imports ClusterInv
begin

text \<open>
  The safety of the whole cluster: no step panics, every node holds what a prefix of the log gives, and
  what the leader has committed is held by a majority.
\<close>

subsection \<open>Messages and goroutines\<close>

definition msg_ok :: "LogEntry list \<Rightarrow> AppendEntriesRequest \<Rightarrow> bool" where
  "msg_ok log m \<longleftrightarrow> (case aePayload m of
     Some (AppendEntriesRequest_Snapshot p) \<Rightarrow> snapshot_of log p
   | Some (AppendEntriesRequest_Entry e) \<Rightarrow> e \<in> set log
   | None \<Rightarrow> False)"

fun phase_ok :: "LogEntry list \<Rightarrow> push_phase \<Rightarrow> bool" where
  "phase_ok log (PSend msgs (ThenRead sid)) \<longleftrightarrow> (\<forall>m\<in>set msgs. msg_ok log m)"
| "phase_ok log (PSend msgs (ThenCheck i sentTo)) \<longleftrightarrow> (\<forall>m\<in>set msgs. msg_ok log m)
     \<and> 0 \<le> sentTo \<and> sentTo \<le> int (length log)"
| "phase_ok log (PSubscribe sentTo) \<longleftrightarrow> 0 \<le> sentTo \<and> sentTo \<le> int (length log)"
| "phase_ok log (PTail i sentTo) \<longleftrightarrow> 0 \<le> sentTo \<and> sentTo \<le> int (length log)"
| "phase_ok log (PCheck i sentTo) \<longleftrightarrow> 0 \<le> sentTo \<and> sentTo \<le> int (length log)"
| "phase_ok log (PFetch i sentTo li) \<longleftrightarrow> 0 \<le> sentTo \<and> sentTo \<le> int (length log) \<and> 0 \<le> li \<and> li \<le> int (length log)"
| "phase_ok log (PCatch i sentTo) \<longleftrightarrow> 0 \<le> sentTo \<and> sentTo \<le> int (length log)"
| "phase_ok log p \<longleftrightarrow> True"

text \<open>\<open>self\<close> is the leader; the acknowledgements of a stream do not exceed the position of its follower.\<close>

definition link_ok :: "int32 \<Rightarrow> LogEntry list \<Rightarrow> (int32 \<Rightarrow> Store) \<Rightarrow> Link \<Rightarrow> bool" where
  "link_ok self log stores lk \<longleftrightarrow> lkFid lk \<noteq> self
     \<and> (\<forall>m\<in>set (lkDown lk). msg_ok log m)
     \<and> (\<forall>r\<in>set (lkUp lk). arFollowerId r = lkFid lk \<and> 0 \<le> arAckIndex r \<and> arAckIndex r \<le> rev (stores (lkFid lk)))
     \<and> (\<forall>i. fst (lkRecv lk) = Some i \<longrightarrow> 0 \<le> i \<and> i \<le> rev (stores (lkFid lk)))
     \<and> phase_ok log (lkPush lk)"

lemma msg_ok_mono: "msg_ok log m \<Longrightarrow> msg_ok (log @ es) m"
  by (auto simp: msg_ok_def intro: snapshot_of_mono split: option.splits AppendEntriesRequest_Payload.splits)

lemma phase_ok_mono: "phase_ok log p \<Longrightarrow> phase_ok (log @ es) p"
  by (induction log p rule: phase_ok.induct) (auto intro: msg_ok_mono)

lemma link_ok_mono:
  assumes "link_ok self log stores lk" and "\<forall>f. rev (stores f) \<le> rev (stores' f)"
  shows "link_ok self (log @ es) stores' lk"
  using assms unfolding link_ok_def by (meson msg_ok_mono order_trans phase_ok_mono)

lemma link_ok_stores:
  "link_ok self log stores lk \<Longrightarrow> \<forall>f. rev (stores f) \<le> rev (stores' f) \<Longrightarrow> link_ok self log stores' lk"
  using link_ok_mono [of self log stores lk stores' "[]"] by simp

text \<open>What \<open>Catchup\<close> and \<open>EntriesAfter\<close> return for a position within the log.\<close>

lemma sendCatchup_ok:
  assumes ok: "leader_ok cfg n log l" and pos: "0 \<le> sentTo" "sentTo \<le> int (length log)"
  shows "\<exists>msgs. sendCatchup None sentTo l = Inr (msgs, True) \<and> (\<forall>m\<in>set msgs. msg_ok log m)"
proof -
  have log: "ldLog l = drop (nat (compactIndex l)) log" "LastIndex l = int (length log)"
    and snap: "\<forall>p. savedSnap l = Some p \<longrightarrow> snapshot_of log p" "snapshot_of log (SnapshotToProto (ExportSnapshot (ldState l)))"
    and exp: "exportSnapshot l = Some (\<lambda>st. SnapshotToProto (ExportSnapshot st))"
    using ok by (auto simp: leader_ok_def snapshot_of_def)
  note range = leader_ok_range [OF ok]
  have entries: "msg_ok log (entry_msg e)" if "e \<in> set (drop k (ldLog l))" for e k
    using that log(1) by (auto simp: msg_ok_def entry_msg_def dest!: in_set_dropD)
  show ?thesis
  proof (cases "compactIndex l + 1 \<le> sentTo")
    case True
    with pos range log(2) have "sendCatchup None sentTo l = Inr (map entry_msg (drop (nat (sentTo - compactIndex l)) (ldLog l)), True)"
      by (simp add: sendCatchup_def Catchup_def slice_from_ok LastIndex_def send_all_def)
    with entries show ?thesis by auto
  next
    case False
    define snp where "snp = (if compactIndex l = 0 then None
      else case savedSnap l of None \<Rightarrow> Some (SnapshotToProto (ExportSnapshot (ldState l))) | Some p \<Rightarrow> Some p)"
    have "Catchup sentTo l = Inr (snp, ldLog l)"
      using False exp by (auto simp: Catchup_def snp_def split: option.splits)
    moreover have "\<forall>p. snp = Some p \<longrightarrow> snapshot_of log p"
      using snap by (auto simp: snp_def split: option.splits)
    ultimately have "sendCatchup None sentTo l = Inr ((case snp of None \<Rightarrow> [] | Some p \<Rightarrow> [snapshot_msg p]) @ map entry_msg (ldLog l), True)"
      "\<forall>p. snp = Some p \<longrightarrow> msg_ok log (snapshot_msg p)"
      by (auto simp: sendCatchup_def send_all_def msg_ok_def snapshot_msg_def)
    with entries [of _ 0] show ?thesis by (auto split: option.splits)
  qed
qed

lemma EntriesAfter_ok:
  assumes ok: "leader_ok cfg n log l" and pos: "0 \<le> sentTo" "sentTo \<le> int (length log)"
  shows "\<exists>es inWindow. EntriesAfter sentTo l = Inr (es, inWindow) \<and> (\<forall>e\<in>set es. e \<in> set log)"
proof -
  have log: "ldLog l = drop (nat (compactIndex l)) log" "LastIndex l = int (length log)"
    using ok by (auto simp: leader_ok_def)
  show ?thesis
  proof (cases "sentTo < compactIndex l")
    case False
    with pos log(2) have "EntriesAfter sentTo l = Inr (drop (nat (sentTo - compactIndex l)) (ldLog l), True)"
      by (simp add: EntriesAfter_def slice_from_ok LastIndex_def)
    with log(1) show ?thesis by (auto dest!: in_set_dropD)
  qed (auto simp: EntriesAfter_def intro: exI [of _ "[]"])
qed

text \<open>A step of the push goroutine changes at most the subscriptions of the leader.\<close>

definition push_ok :: "Config \<Rightarrow> nat \<Rightarrow> LogEntry list \<Rightarrow> Store Leader \<Rightarrow> int64 option \<Rightarrow>
    (Store Leader \<times> int64 option \<times> push_phase \<times> AppendEntriesRequest list) option \<Rightarrow> bool" where
  "push_ok cfg n log l initial r \<longleftrightarrow> (case r of None \<Rightarrow> True
     | Some (l', initial', p', out) \<Rightarrow> leader_ok cfg (Suc n) log l' \<and> ldMatch l' = ldMatch l \<and> ldCommit l' = ldCommit l
         \<and> (initial' = initial \<or> initial' = None) \<and> phase_ok log p' \<and> (\<forall>m\<in>set out. msg_ok log m))"

lemma push_ok_same:
  assumes "leader_ok cfg n log l" and "phase_ok log p'" and "\<forall>m\<in>set out. msg_ok log m"
    and "initial' = initial \<or> initial' = None"
  shows "push_ok cfg n log l initial (Some (l, initial', p', out))"
  using assms leader_ok_later [OF assms(1), of "Suc n"] by (simp add: push_ok_def)

lemma push_ok_ping:
  assumes "leader_ok cfg n log l" and "bc_ok b" "0 \<le> bcSeq b" "bcSeq b \<le> int (Suc n)" and "phase_ok log p'"
  shows "push_ok cfg n log l initial (Some (l\<lparr>ping := b\<rparr>, initial, p', []))"
  using assms leader_ok_ping [OF assms(1-3), of "Suc n"] by (simp add: push_ok_def)

lemma leader_ok_bc: "leader_ok cfg n log l \<Longrightarrow> bc_ok (ping l) \<and> 0 \<le> bcSeq (ping l) \<and> bcSeq (ping l) \<le> int n"
  by (simp add: leader_ok_def leader_inv_def)

lemma push_return_ok:
  assumes "leader_ok cfg n log l"
  shows "push_ok cfg n log l initial (Some (push_return p l, initial, PEnded, []))"
proof (cases "phase_sub p")
  case None
  with push_ok_same [OF assms, of PEnded "[]" initial initial] show ?thesis by (simp add: push_return_def)
next
  case (Some i)
  have "bc_ok (unsubscribe i (ping l))" using leader_ok_bc [OF assms] bc_ok_unsubscribe by blast
  moreover have "bcSeq (unsubscribe i (ping l)) = bcSeq (ping l)" by (simp add: unsubscribe_def)
  ultimately show ?thesis
    using push_ok_ping [OF assms, of "unsubscribe i (ping l)" PEnded initial] leader_ok_bc [OF assms] Some
    by (simp add: push_return_def UnsubscribeEntries_def)
qed

lemma push_step_ok:
  assumes ok: "leader_ok cfg n log l" and p: "phase_ok log p" and n: "int n + 1 < maxIndex"
    and initial: "\<forall>i. initial = Some i \<longrightarrow> 0 \<le> i \<and> i \<le> int (length log)"
  shows "\<exists>r. push_step pc initial p l = Inr r \<and> push_ok cfg n log l initial r"
proof -
  note same = push_ok_same [OF ok]
  have last: "LastIndex l = int (length log)" using ok by (simp add: leader_ok_def)
  note bc = leader_ok_bc [OF ok]
  have none: "push_ok cfg n log l initial None" by (simp add: push_ok_def)
  show ?thesis
  proof (cases p)
    case PWait
    show ?thesis
    proof (cases "pc = PushStop \<or> initial = None")
      case True
      with PWait same [of PEnded "[]" initial initial] none show ?thesis
        by (auto simp: push_step_def split: push_case.splits)
    next
      case False
      then obtain s where s: "initial = Some s" "pc \<noteq> PushStop" by auto
      then obtain msgs where m: "sendCatchup None s l = Inr (msgs, True)" "\<forall>m\<in>set msgs. msg_ok log m"
        using sendCatchup_ok [OF ok, of s] initial by auto
      then have "push_step pc initial p l = Inr (Some (l, None, PSend msgs (ThenRead None), []))"
        using PWait s by (simp add: push_step_def split: push_case.splits)
      with same m(2) show ?thesis by simp
    qed
  next
    case (PSend msgs k)
    show ?thesis
    proof (cases msgs)
      case Nil
      with PSend p same show ?thesis by (cases k) (auto simp: push_step_def)
    next
      case (Cons m ms)
      show ?thesis
      proof (cases "pc = PushSendFails")
        case True
        with PSend Cons push_return_ok [OF ok] show ?thesis by (simp add: push_step_def)
      next
        case False
        with PSend Cons p same [of "PSend ms k" "[m]"] show ?thesis by (cases k) (auto simp: push_step_def)
      qed
    qed
  next
    case (PRead sid)
    with same last show ?thesis by (cases sid) (auto simp: push_step_def)
  next
    case (PSubscribe sentTo)
    have seq: "is_int64 (bcSeq (ping l) + 1)" using bc n by (simp add: is_int64_def maxIndex_def)
    have "bc_ok (fst (subscribe (ping l)))" using bc bc_ok_subscribe [OF _ seq] by blast
    moreover have "bcSeq (fst (subscribe (ping l))) = bcSeq (ping l) + 1"
      using seq by (simp add: subscribe_def Let_def add64_def wrap64_id)
    moreover obtain b i where b: "subscribe (ping l) = (b, i)" by fastforce
    ultimately show ?thesis
      using bc push_ok_ping [OF ok, of b "PTail i sentTo" initial] PSubscribe p
      by (simp add: push_step_def SubscribeEntries_def)
  next
    case (PTail i sentTo)
    show ?thesis
    proof (cases "pc = PushStop")
      case True
      with PTail push_return_ok [OF ok, of initial p] none show ?thesis by (simp add: push_step_def)
    next
      case False
      have "bc_ok (fst (take_signal i (ping l)))" using bc bc_ok_take by blast
      moreover have "bcSeq (fst (take_signal i (ping l))) = bcSeq (ping l)"
        by (auto simp: take_signal_def split: option.splits recv_outcome.splits)
      moreover obtain b got where b: "take_signal i (ping l) = (b, got)" by fastforce
      ultimately show ?thesis
        using bc push_ok_ping [OF ok, of b "PCheck i sentTo" initial] PTail p none False
        by (auto simp: push_step_def split: push_case.splits)
    qed
  next
    case (PCheck i sentTo)
    with p same last show ?thesis by (auto simp: push_step_def Let_def)
  next
    case (PFetch i sentTo li)
    then obtain es w where "EntriesAfter sentTo l = Inr (es, w)" "\<forall>e\<in>set es. e \<in> set log"
      using EntriesAfter_ok [OF ok, of sentTo] p by auto
    with PFetch p same [of "PSend (map entry_msg es) (ThenCheck i li)" "[]"] same [of "PCatch i sentTo" "[]"] show ?thesis
      by (auto simp: push_step_def msg_ok_def entry_msg_def)
  next
    case (PCatch i sentTo)
    then obtain msgs where "sendCatchup None sentTo l = Inr (msgs, True)" "\<forall>m\<in>set msgs. msg_ok log m"
      using sendCatchup_ok [OF ok, of sentTo] p by auto
    with PCatch same show ?thesis by (simp add: push_step_def)
  next
    case PEnded
    with none show ?thesis by (simp add: push_step_def)
  qed
qed


subsection \<open>The invariant and its preservation\<close>

text \<open>The number of nodes that have applied the log up to \<open>i\<close>: the leader, which does so when it commits,
  and the followers that have got there.\<close>

definition holders :: "Config \<Rightarrow> (int32 \<Rightarrow> Store) \<Rightarrow> int64 \<Rightarrow> int" where
  "holders cfg stores i = 1 + int (length (filter (\<lambda>(nid, addr). nid \<noteq> cfgNodeID cfg \<and> i \<le> rev (stores nid))
     (cfgNodeAddrs cfg)))"

definition cluster_inv :: "Config \<Rightarrow> nat \<Rightarrow> Cluster \<Rightarrow> bool" where
  "cluster_inv cfg n c \<longleftrightarrow> leader_ok cfg n (cuLog c) (cuLeader c) \<and> log_ok n (cuLog c)
     \<and> (\<forall>f. replica (cuLog c) (cuStores c f))
     \<and> (\<forall>f. f \<noteq> cfgNodeID cfg \<longrightarrow> MatchOf f (cuLeader c) \<le> rev (cuStores c f))
     \<and> Quorum (int (length (cfgNodeAddrs cfg))) \<le> holders cfg (cuStores c) (ldCommit (cuLeader c))
     \<and> (\<forall>lk\<in>set (cuLinks c). link_ok (cfgNodeID cfg) (cuLog c) (cuStores c) lk)"

definition grows :: "Cluster \<Rightarrow> Cluster \<Rightarrow> bool" where
  "grows c c' \<longleftrightarrow> (\<exists>es. cuLog c' = cuLog c @ es) \<and> (\<forall>f. rev (cuStores c f) \<le> rev (cuStores c' f))
     \<and> ldCommit (cuLeader c) \<le> ldCommit (cuLeader c')"

text \<open>The entry of a proposal is one that the store can apply, and no process restarts.\<close>

definition act_ok :: "cluster_act \<Rightarrow> bool" where
  "act_ok a \<longleftrightarrow> (\<forall>e. a = DoPropose e \<longrightarrow> store_fits (e\<lparr>leIndex := 1\<rparr>)) \<and> (\<forall>nid. a \<noteq> Restart nid)"

lemma grows_refl [simp]: "grows c c"
  by (simp add: grows_def)

lemma grows_trans: "grows a b \<Longrightarrow> grows b c \<Longrightarrow> grows a c"
  unfolding grows_def by (metis append.assoc order_trans)

lemma length_filter_le: "(\<And>x. x \<in> set xs \<Longrightarrow> P x \<Longrightarrow> Q x) \<Longrightarrow> length (filter P xs) \<le> length (filter Q xs)"
  by (induction xs) (auto simp: le_SucI)

lemma holders_mono:
  assumes "\<forall>f. rev (stores f) \<le> rev (stores' f)" and "i \<le> j"
  shows "holders cfg stores j \<le> holders cfg stores' i"
proof -
  have "i \<le> rev (stores' f)" if "j \<le> rev (stores f)" for f using assms that by (meson order_trans)
  then show ?thesis by (auto simp: holders_def intro!: length_filter_le)
qed

lemma cluster_inv_later: "cluster_inv cfg n c \<Longrightarrow> cluster_inv cfg (Suc n) c"
  unfolding cluster_inv_def using leader_ok_later log_ok_later by (meson le_SucI order_refl)

lemma gomap_one: "gomap_ok m \<Longrightarrow> length (filter (\<lambda>(k, v). k = a) m) \<le> 1"
proof (induction m)
  case (Cons p m)
  obtain k v where p: "p = (k, v)" by (cases p)
  have "filter (\<lambda>(k, v). k = a) m = []" if "k = a"
    using Cons.prems that by (force simp: p filter_empty_conv)
  with Cons p show ?case by auto
qed simp

lemma cluster_inv_new:
  assumes "gomap_ok (cfgNodeAddrs cfg)"
  shows "cluster_inv cfg n (new_cluster cfg)"
proof -
  let ?m = "cfgNodeAddrs cfg" and ?self = "cfgNodeID cfg"
  have start: "MatchOf f (nodeLeader cfg) = 0" "ldCommit (nodeLeader cfg) = 0" "rev New = 0" for f
    by (simp_all add: MatchOf_def nodeLeader_def SetSnapshotExporter_def NewLeader_def New_def)
  have "length ?m = length (filter (\<lambda>(k, v). k = ?self) ?m) + length (filter (\<lambda>(k, v). k \<noteq> ?self) ?m)"
    using sum_length_filter_compl [of "\<lambda>(k, v). k = ?self" ?m] by (simp add: case_prod_unfold)
  with gomap_one [OF assms, of ?self] have "int (length ?m) \<le> holders cfg (\<lambda>_. New) 0"
    by (simp add: holders_def start)
  moreover have "1 \<le> holders cfg (\<lambda>_. New) 0" by (simp add: holders_def)
  moreover have "go_div (int (length ?m)) 2 = int (length ?m) div 2" by (simp add: go_div_nonneg)
  ultimately have "Quorum (int (length ?m)) \<le> holders cfg (\<lambda>_. New) 0"
    unfolding Quorum_def by linarith
  with start show ?thesis
    by (simp add: cluster_inv_def new_cluster_def leader_ok_new log_ok_def replica_New)
qed

text \<open>What one step leaves to show.\<close>

lemma cluster_inv_leader:
  assumes "cluster_inv cfg n c" and "leader_ok cfg (Suc n) (cuLog c) l" and "ldCommit l = ldCommit (cuLeader c)"
    and "\<forall>f. f \<noteq> cfgNodeID cfg \<longrightarrow> MatchOf f l \<le> rev (cuStores c f)"
  shows "cluster_inv cfg (Suc n) (c\<lparr>cuLeader := l\<rparr>) \<and> grows c (c\<lparr>cuLeader := l\<rparr>)"
  using assms log_ok_later [of n "cuLog c" "Suc n"] by (simp add: cluster_inv_def grows_def)

lemma cluster_inv_link:
  assumes "cluster_inv cfg n c" and "link_ok (cfgNodeID cfg) (cuLog c) (cuStores c) lk"
  shows "cluster_inv cfg n (set_link k lk c) \<and> grows c (set_link k lk c)"
  using assms set_update_subset_insert [of "cuLinks c" k lk]
  by (auto simp: cluster_inv_def set_link_def grows_def dest!: subsetD)

lemma cluster_inv_peers: "cluster_inv cfg n (c\<lparr>cuPeers := pm\<rparr>) = cluster_inv cfg n c"
  by (simp add: cluster_inv_def)

lemma grows_peers [simp]: "grows c (c'\<lparr>cuPeers := pm\<rparr>) = grows c c'" "grows (c\<lparr>cuPeers := pm\<rparr>) c' = grows c c'"
  by (simp_all add: grows_def)

lemma cluster_inv_link_leader:
  assumes "cluster_inv cfg n c" and "leader_ok cfg (Suc n) (cuLog c) l" and "ldCommit l = ldCommit (cuLeader c)"
    and "\<forall>f. f \<noteq> cfgNodeID cfg \<longrightarrow> MatchOf f l \<le> rev (cuStores c f)"
    and "link_ok (cfgNodeID cfg) (cuLog c) (cuStores c) lk"
  shows "cluster_inv cfg (Suc n) (set_link k lk (c\<lparr>cuLeader := l\<rparr>)) \<and> grows c (set_link k lk (c\<lparr>cuLeader := l\<rparr>))"
proof -
  note L = cluster_inv_leader [OF assms(1-4)]
  with cluster_inv_link [of cfg "Suc n" "c\<lparr>cuLeader := l\<rparr>" lk k] assms(5) show ?thesis
    by (auto intro: grows_trans)
qed

definition good_step :: "Config \<Rightarrow> nat \<Rightarrow> Cluster \<Rightarrow> Cluster go \<Rightarrow> bool" where
  "good_step cfg n c r \<longleftrightarrow> (\<exists>c'. r = Inr c' \<and> cluster_inv cfg (Suc n) c' \<and> grows c c')"

lemma good_stepI: "cluster_inv cfg (Suc n) c' \<and> grows c c' \<Longrightarrow> good_step cfg n c (Inr c')"
  by (simp add: good_step_def)

lemma good_step_idle: "cluster_inv cfg n c \<Longrightarrow> good_step cfg n c (Inr c)"
  by (simp add: good_step_def cluster_inv_later)

lemma good_step_link:
  "cluster_inv cfg n c \<Longrightarrow> link_ok (cfgNodeID cfg) (cuLog c) (cuStores c) lk \<Longrightarrow> good_step cfg n c (Inr (set_link k lk c))"
  by (intro good_stepI cluster_inv_link cluster_inv_later conjI) (simp_all add: cluster_inv_link)

subsubsection \<open>The leader\<close>

lemma step_propose:
  assumes inv: "cluster_inv cfg n c" and fits: "store_fits (e\<lparr>leIndex := 1\<rparr>)" and n: "int n + 1 < maxIndex"
  shows "good_step cfg n c (cluster_step (DoPropose e) c)"
proof -
  obtain l r where l: "Propose e (cuLeader c) = Inr (l, r)" and r: "case r of Inl err \<Rightarrow> l = cuLeader c
    | Inr index \<Rightarrow> leader_ok cfg (Suc n) (cuLog c @ [e\<lparr>leIndex := index, leTerm := 1\<rparr>]) l
        \<and> log_ok (Suc n) (cuLog c @ [e\<lparr>leIndex := index, leTerm := 1\<rparr>])"
    and same: "ldMatch l = ldMatch (cuLeader c)" "ldCommit l = ldCommit (cuLeader c)"
    using leader_ok_propose [OF _ _ fits n] inv unfolding cluster_inv_def by blast
  show ?thesis
  proof (cases r)
    case (Inl err)
    with l r have "cluster_step (DoPropose e) c = Inr c" by simp
    with inv show ?thesis by (simp add: good_step_idle)
  next
    case (Inr index)
    let ?c = "c\<lparr>cuLeader := l, cuLog := cuLog c @ [e\<lparr>leIndex := index, leTerm := 1\<rparr>]\<rparr>"
    have "cluster_inv cfg (Suc n) ?c"
      using inv r Inr same link_ok_mono [of _ "cuLog c" "cuStores c" _ "cuStores c"]
      by (auto simp: cluster_inv_def MatchOf_def intro: replica_mono)
    moreover have "grows c ?c" using same by (simp add: grows_def)
    ultimately show ?thesis using l Inr by (simp add: good_step_def)
  qed
qed

lemma step_select: "cluster_inv cfg n c \<Longrightarrow> good_step cfg n c (cluster_step (DoSelect pc index) c)"
proof (cases "propose_select pc index (cuLeader c)")
  case (Some q)
  assume inv: "cluster_inv cfg n c"
  obtain l r where q: "q = (l, r)" by (cases q)
  have "leader_ok cfg n (cuLog c) l \<and> ldMatch l = ldMatch (cuLeader c) \<and> ldCommit l = ldCommit (cuLeader c)"
    using leader_ok_select Some inv unfolding q cluster_inv_def by blast
  with inv have "cluster_inv cfg (Suc n) (c\<lparr>cuLeader := l\<rparr>) \<and> grows c (c\<lparr>cuLeader := l\<rparr>)"
    by (intro cluster_inv_leader) (auto simp: cluster_inv_def MatchOf_def leader_ok_later)
  with Some q show ?thesis by (simp add: good_step_def)
qed (simp add: good_step_idle)

lemma step_turn:
  assumes inv: "cluster_inv cfg n c"
  shows "good_step cfg n c (cluster_step (DoTurn clk) c)"
proof -
  obtain r where r: "commitLoop_turn clk (cuLeader c) = Inr r" "case r of None \<Rightarrow> True
    | Some l' \<Rightarrow> leader_ok cfg n (cuLog c) l' \<and> ldMatch l' = ldMatch (cuLeader c) \<and> ldCommit (cuLeader c) \<le> ldCommit l'
        \<and> (ldCommit l' = ldCommit (cuLeader c) \<or> needVotes (cuLeader c) \<le> votes (cuLeader c) (ldCommit l'))"
    using leader_ok_turn [of cfg n "cuLog c" "cuLeader c" clk] inv unfolding cluster_inv_def by blast
  show ?thesis
  proof (cases r)
    case None
    with r(1) inv show ?thesis by (simp add: good_step_idle)
  next
    case (Some l)
    have cfg: "ldCfg (cuLeader c) = cfg" and counted: "\<forall>f. f \<noteq> cfgNodeID cfg \<longrightarrow> MatchOf f (cuLeader c) \<le> rev (cuStores c f)"
      using inv by (auto simp: cluster_inv_def leader_ok_def)
    have "votes (cuLeader c) i \<le> holders cfg (cuStores c) i" for i
      using counted by (auto simp: votes_def holders_def cfg intro!: length_filter_le intro: order_trans)
    then have "Quorum (int (length (cfgNodeAddrs cfg))) \<le> holders cfg (cuStores c) (ldCommit l)"
      using r(2) Some inv by (auto simp: cluster_inv_def needVotes_def cfg intro: order_trans)
    then have "cluster_inv cfg (Suc n) (c\<lparr>cuLeader := l\<rparr>)"
      using r(2) Some inv by (auto simp: cluster_inv_def MatchOf_def leader_ok_later log_ok_later)
    moreover have "grows c (c\<lparr>cuLeader := l\<rparr>)" using r(2) Some by (simp add: grows_def)
    ultimately show ?thesis using r(1) Some by (simp add: good_step_def)
  qed
qed

lemma step_stop: "cluster_inv cfg n c \<Longrightarrow> good_step cfg n c (cluster_step DoStop c)"
proof -
  assume inv: "cluster_inv cfg n c"
  then obtain l where l: "Stop (cuLeader c) = Inr l" "leader_ok cfg n (cuLog c) l"
    "ldMatch l = ldMatch (cuLeader c)" "ldCommit l = ldCommit (cuLeader c)"
    using leader_ok_stop unfolding cluster_inv_def by blast
  with inv have "cluster_inv cfg (Suc n) (c\<lparr>cuLeader := l\<rparr>) \<and> grows c (c\<lparr>cuLeader := l\<rparr>)"
    by (intro cluster_inv_leader) (auto simp: cluster_inv_def MatchOf_def leader_ok_later)
  with l show ?thesis by (simp add: good_step_def)
qed

subsubsection \<open>The streams\<close>

lemma link_of: "cluster_inv cfg n c \<Longrightarrow> k < length (cuLinks c) \<Longrightarrow>
    link_ok (cfgNodeID cfg) (cuLog c) (cuStores c) (cuLinks c ! k)"
  by (simp add: cluster_inv_def)

lemma on_link_good:
  assumes "cluster_inv cfg n c"
    and "\<And>lk. link_ok (cfgNodeID cfg) (cuLog c) (cuStores c) lk \<Longrightarrow> good_step cfg n c (f lk c)"
  shows "good_step cfg n c (on_link k f c)"
  using assms link_of good_step_idle by (simp add: on_link_def)

lemma position_ok:
  "cluster_inv cfg n c \<Longrightarrow> 0 \<le> rev (cuStores c f) \<and> rev (cuStores c f) \<le> int (length (cuLog c))"
  using replica_pos [of "cuLog c" "cuStores c f"] by (auto simp: cluster_inv_def)

lemma ack_position: "arAckIndex (ack StoreApplier fid st) = rev st" "arFollowerId (ack StoreApplier fid st) = fid"
  by (simp_all add: ack_def StoreApplier_def AppliedRevision_def)

lemma step_connect: "cluster_inv cfg n c \<Longrightarrow> good_step cfg n c (cluster_step (Connect fid) c)"
proof -
  assume inv: "cluster_inv cfg n c"
  let ?c = "c\<lparr>cuLinks := cuLinks c @ [new_link fid (cuStores c fid)]\<rparr>"
  show ?thesis
  proof (cases "fid = cfgNodeID cfg")
    case True
    with inv show ?thesis by (simp add: good_step_idle cluster_inv_def leader_ok_def)
  next
    case False
    then have "link_ok (cfgNodeID cfg) (cuLog c) (cuStores c) (new_link fid (cuStores c fid))"
      using position_ok [OF inv, of fid] by (simp add: link_ok_def new_link_def ack_position)
    with inv have "cluster_inv cfg (Suc n) ?c" "grows c ?c"
      using cluster_inv_later [OF inv] by (simp_all add: cluster_inv_def grows_def)
    with inv show ?thesis by (simp add: good_step_idle) (simp add: good_step_def)
  qed
qed

lemma step_accept:
  assumes inv: "cluster_inv cfg n c" and lk: "link_ok (cfgNodeID cfg) (cuLog c) (cuStores c) lk"
  shows "good_step cfg n c (Inr (accept_link k lk c))"
proof (cases "lkHandler lk = HNew \<and> lkUp lk \<noteq> []")
  case False
  then have "accept_link k lk c = c"
    by (auto simp: accept_link_def split: stream_handler.splits list.splits)
  with inv show ?thesis by (simp add: good_step_idle)
next
  case True
  then obtain r rs where up: "lkHandler lk = HNew" "lkUp lk = r # rs" by (cases "lkUp lk") auto
  have refused: "link_ok (cfgNodeID cfg) (cuLog c) (cuStores c) (lk\<lparr>lkUp := rs, lkHandler := HClosed, lkRecvDone := True, lkPush := PEnded\<rparr>)"
    using lk up by (simp add: link_ok_def)
  have taken: "link_ok (cfgNodeID cfg) (cuLog c) (cuStores c) (lk\<lparr>lkUp := rs, lkHandler := HServing ps, lkRecv := recv_start (arAckIndex r)\<rparr>)" for ps
    using lk up by (simp add: link_ok_def recv_start_def)
  show ?thesis
  proof (cases "map_of (cfgNodeAddrs (ldCfg (cuLeader c))) (arFollowerId r) = None \<or> arFollowerId r = cfgNodeID (ldCfg (cuLeader c))")
    case True
    with up good_step_link [OF inv refused] show ?thesis by (simp add: accept_link_def Let_def)
  next
    case False
    obtain pm ps where pm: "open_stream (arFollowerId r) (cuPeers c) = (pm, ps)" by fastforce
    have "cluster_inv cfg n (c\<lparr>cuPeers := pm\<rparr>)" using inv by (simp add: cluster_inv_peers)
    with good_step_link [OF this, of _ k] taken [of ps] have
      "good_step cfg n (c\<lparr>cuPeers := pm\<rparr>) (Inr (set_link k (lk\<lparr>lkUp := rs, lkHandler := HServing ps, lkRecv := recv_start (arAckIndex r)\<rparr>) (c\<lparr>cuPeers := pm\<rparr>)))"
      by simp
    with False up pm show ?thesis by (auto simp: accept_link_def Let_def good_step_def)
  qed
qed

lemma step_receive:
  assumes inv: "cluster_inv cfg n c" and lk: "link_ok (cfgNodeID cfg) (cuLog c) (cuStores c) lk"
  shows "good_step cfg n c (receive_link k lk c)"
proof (cases "lkUp lk = [] \<or> lkHandler lk = HNew \<or> lkRecvDone lk")
  case True
  with inv show ?thesis by (auto simp: receive_link_def good_step_idle split: list.splits)
next
  case False
  then obtain r rs where up: "lkUp lk = r # rs" by (cases "lkUp lk") auto
  have r: "arFollowerId r = lkFid lk" "0 \<le> arAckIndex r" "arAckIndex r \<le> rev (cuStores c (lkFid lk))" "lkFid lk \<noteq> cfgNodeID cfg"
    using lk up by (auto simp: link_ok_def)
  obtain initial waitFirst where rc: "lkRecv lk = (initial, waitFirst)" by fastforce
  show ?thesis
  proof (cases waitFirst)
    case True
    let ?lk = "lk\<lparr>lkUp := rs, lkRecv := ((case initial of None \<Rightarrow> Some (arAckIndex r) | Some i \<Rightarrow> Some i), False)\<rparr>"
    have "link_ok (cfgNodeID cfg) (cuLog c) (cuStores c) ?lk"
      using lk up rc r by (auto simp: link_ok_def split: option.splits)
    from good_step_link [OF inv this, of k] show ?thesis
      using False up rc True by (simp add: receive_link_def recv_step_def)
  next
    case False': False
    obtain l where l: "FollowerAck (arFollowerId r) (arAckIndex r) (cuLeader c) = Inr l" "leader_ok cfg n (cuLog c) l"
      "ldCommit l = ldCommit (cuLeader c)" "MatchOf (arFollowerId r) l = max (MatchOf (arFollowerId r) (cuLeader c)) (arAckIndex r)"
      "\<forall>j. j \<noteq> arFollowerId r \<longrightarrow> MatchOf j l = MatchOf j (cuLeader c)"
      using leader_ok_ack(1) [of cfg n "cuLog c" "cuLeader c" "arFollowerId r" "arAckIndex r"] inv
      unfolding cluster_inv_def by blast
    have counted: "\<forall>f. f \<noteq> cfgNodeID cfg \<longrightarrow> MatchOf f l \<le> rev (cuStores c f)"
    proof (intro allI impI)
      fix f assume f: "f \<noteq> cfgNodeID cfg"
      with inv have "MatchOf f (cuLeader c) \<le> rev (cuStores c f)" by (simp add: cluster_inv_def)
      with l(4,5) r(1,3) show "MatchOf f l \<le> rev (cuStores c f)" by (cases "f = arFollowerId r") auto
    qed
    have "link_ok (cfgNodeID cfg) (cuLog c) (cuStores c) (lk\<lparr>lkUp := rs, lkRecv := (initial, False)\<rparr>)"
      using lk up rc by (auto simp: link_ok_def)
    from cluster_inv_link_leader [OF inv leader_ok_later [OF l(2)] l(3) counted this, of k] show ?thesis
      using False up rc False' l(1) by (simp add: receive_link_def recv_step_def good_step_def)
  qed
qed

lemma step_push:
  assumes inv: "cluster_inv cfg n c" and lk: "link_ok (cfgNodeID cfg) (cuLog c) (cuStores c) lk" and n: "int n + 1 < maxIndex"
  shows "good_step cfg n c (push_link k pc lk c)"
proof (cases "lkHandler lk = HNew")
  case True
  with inv show ?thesis by (simp add: push_link_def good_step_idle)
next
  case False
  have ok: "leader_ok cfg n (cuLog c) (cuLeader c)" and phase: "phase_ok (cuLog c) (lkPush lk)"
    using inv lk by (auto simp: cluster_inv_def link_ok_def)
  have initial: "\<forall>i. fst (lkRecv lk) = Some i \<longrightarrow> 0 \<le> i \<and> i \<le> int (length (cuLog c))"
    using lk position_ok [OF inv, of "lkFid lk"] by (auto simp: link_ok_def)
  obtain r where r: "push_step pc (fst (lkRecv lk)) (lkPush lk) (cuLeader c) = Inr r"
    "push_ok cfg n (cuLog c) (cuLeader c) (fst (lkRecv lk)) r"
    using push_step_ok [OF ok phase n initial] by blast
  show ?thesis
  proof (cases r)
    case None
    with r(1) inv False show ?thesis by (simp add: push_link_def good_step_idle)
  next
    case (Some q)
    obtain l i p out where q: "q = (l, i, p, out)" by (cases q) auto
    have l: "leader_ok cfg (Suc n) (cuLog c) l" "ldMatch l = ldMatch (cuLeader c)" "ldCommit l = ldCommit (cuLeader c)"
      and new: "i = fst (lkRecv lk) \<or> i = None" "phase_ok (cuLog c) p" "\<forall>m\<in>set out. msg_ok (cuLog c) m"
      using r(2) by (auto simp: push_ok_def Some q)
    have counted: "\<forall>f. f \<noteq> cfgNodeID cfg \<longrightarrow> MatchOf f l \<le> rev (cuStores c f)"
      using inv l(2) by (simp add: cluster_inv_def MatchOf_def)
    have "link_ok (cfgNodeID cfg) (cuLog c) (cuStores c)
        (lk\<lparr>lkRecv := (i, snd (lkRecv lk)), lkPush := p, lkDown := lkDown lk @ out\<rparr>)"
      using lk new by (auto simp: link_ok_def)
    from cluster_inv_link_leader [OF inv l(1,3) counted this, of k] show ?thesis
      using r(1) False by (simp add: push_link_def Some q good_step_def)
  qed
qed

lemma handle_ok:
  assumes m: "msg_ok log m" and s: "replica log s" and lg: "log_ok n log"
  shows "\<exists>r. handle_payload StoreApplier now m s = Inr r \<and> (\<forall>s'. r = Inr (Some s') \<longrightarrow> replica log s' \<and> rev s \<le> rev s')"
proof (cases "aePayload m")
  case None
  with m show ?thesis by (simp add: msg_ok_def)
next
  case (Some x)
  show ?thesis
  proof (cases x)
    case (AppendEntriesRequest_Snapshot p)
    with Some m have "snapshot_of log p" by (simp add: msg_ok_def)
    from replica_restore [OF s this] obtain s' where "apSnapshot StoreApplier (Some p) s = Inr s'" "replica log s'" "rev s \<le> rev s'"
      by blast
    with Some AppendEntriesRequest_Snapshot show ?thesis by (simp add: handle_payload_def)
  next
    case (AppendEntriesRequest_Entry e)
    have app: "AppliedIndex StoreApplier s = rev s" by (simp add: StoreApplier_def AppliedRevision_def)
    show ?thesis
    proof (cases "leIndex e = rev s + 1")
      case False
      with Some AppendEntriesRequest_Entry app show ?thesis
        by (cases "leIndex e \<le> rev s") (simp_all add: handle_payload_def Let_def)
    next
      case True
      have "e \<in> set log" using m Some AppendEntriesRequest_Entry by (simp add: msg_ok_def)
      then obtain i where i: "i < length log" "e = log ! i" by (metis in_set_conv_nth)
      then have "leIndex e = 1 + int i" using lg consecutive_nth [of 0 log i] by (simp add: log_ok_def)
      with True i have e: "e = log ! nat (rev s)" "rev s < int (length log)" by auto
      have "store_fits e" using lg i by (simp add: log_ok_def)
      from replica_apply [OF s e True this, of now] obtain s' r where
        "applyOne StoreApplier now e s = Inr (s', r)" "replica log s'" "rev s' = rev s + 1" by blast
      with Some AppendEntriesRequest_Entry app True show ?thesis by (simp add: handle_payload_def)
    qed
  qed
qed

lemma cluster_inv_store:
  assumes inv: "cluster_inv cfg n c" and s: "replica (cuLog c) s" "rev (cuStores c f) \<le> rev s"
  shows "cluster_inv cfg n (c\<lparr>cuStores := (cuStores c)(f := s)\<rparr>) \<and> grows c (c\<lparr>cuStores := (cuStores c)(f := s)\<rparr>)"
proof -
  let ?S = "(cuStores c)(f := s)"
  have up: "\<forall>g. rev (cuStores c g) \<le> rev (?S g)" using s(2) by simp
  have "MatchOf g (cuLeader c) \<le> rev (?S g)" if "g \<noteq> cfgNodeID cfg" for g
  proof -
    have "MatchOf g (cuLeader c) \<le> rev (cuStores c g)" using inv that by (simp add: cluster_inv_def)
    with up show ?thesis using order_trans by blast
  qed
  moreover have "Quorum (int (length (cfgNodeAddrs cfg))) \<le> holders cfg ?S (ldCommit (cuLeader c))"
    using inv holders_mono [OF up order_refl, of cfg "ldCommit (cuLeader c)"]
    unfolding cluster_inv_def by (meson order_trans)
  moreover have "\<forall>lk\<in>set (cuLinks c). link_ok (cfgNodeID cfg) (cuLog c) ?S lk"
    using inv link_ok_stores [OF _ up] unfolding cluster_inv_def by blast
  moreover have "\<forall>g. replica (cuLog c) (?S g)" using inv s(1) by (simp add: cluster_inv_def)
  ultimately show ?thesis
    using inv up by (simp add: cluster_inv_def grows_def)
qed

lemma step_follow:
  assumes inv: "cluster_inv cfg n c" and lk: "link_ok (cfgNodeID cfg) (cuLog c) (cuStores c) lk"
  shows "good_step cfg n c (follow_link k now sends lk c)"
proof (cases "lkDown lk = [] \<or> \<not> lkReading lk")
  case True
  with inv show ?thesis by (auto simp: follow_link_def good_step_idle split: list.splits)
next
  case False
  then obtain m ms where down: "lkDown lk = m # ms" by (cases "lkDown lk") auto
  let ?s = "cuStores c (lkFid lk)"
  have rep: "replica (cuLog c) ?s" and lg: "log_ok n (cuLog c)" and m: "msg_ok (cuLog c) m"
    using inv lk down by (auto simp: cluster_inv_def link_ok_def)
  obtain r where r: "handle_payload StoreApplier now m ?s = Inr r"
    "\<forall>s'. r = Inr (Some s') \<longrightarrow> replica (cuLog c) s' \<and> rev ?s \<le> rev s'"
    using handle_ok [OF m rep lg] by blast
  have dropped: "link_ok (cfgNodeID cfg) (cuLog c) (cuStores c) (lk\<lparr>lkDown := ms\<rparr>)"
    "link_ok (cfgNodeID cfg) (cuLog c) (cuStores c) (lk\<lparr>lkDown := ms, lkReading := False\<rparr>)"
    using lk down by (auto simp: link_ok_def)
  consider (stop) e where "r = Inl e" | (old) "r = Inr None" | (next_state) s' where "r = Inr (Some s')"
    by (metis option.exhaust sumE)
  then show ?thesis
  proof cases
    case stop
    with good_step_link [OF inv dropped(2), of k] r(1) down False show ?thesis by (simp add: follow_link_def)
  next
    case old
    with good_step_link [OF inv dropped(1), of k] r(1) down False show ?thesis by (simp add: follow_link_def)
  next
    case next_state
    let ?c = "c\<lparr>cuStores := (cuStores c)(lkFid lk := s')\<rparr>"
    let ?lk = "if sends then lk\<lparr>lkDown := ms, lkUp := lkUp lk @ [ack StoreApplier (lkFid lk) s']\<rparr>
      else lk\<lparr>lkDown := ms, lkReading := False\<rparr>"
    have s': "replica (cuLog c) s'" "rev ?s \<le> rev s'" using r(2) next_state by auto
    note store = cluster_inv_store [OF inv s']
    have up: "\<forall>g. rev (cuStores c g) \<le> rev (cuStores ?c g)" using s'(2) by simp
    have "link_ok (cfgNodeID cfg) (cuLog c) (cuStores ?c) lk" using link_ok_stores [OF lk up] .
    then have "link_ok (cfgNodeID cfg) (cuLog ?c) (cuStores ?c) ?lk"
      using down replica_pos [OF s'(1)] by (auto simp: link_ok_def ack_position)
    from cluster_inv_link [OF cluster_inv_later [OF conjunct1 [OF store]] this, of k] store
    show ?thesis using r(1) next_state down False by (auto simp: follow_link_def good_step_def intro: grows_trans)
  qed
qed

lemma step_close:
  assumes inv: "cluster_inv cfg n c" and lk: "link_ok (cfgNodeID cfg) (cuLog c) (cuStores c) lk"
  shows "good_step cfg n c (close_link k lk c)"
proof (cases "lkHandler lk")
  case (HServing ps)
  have closed: "link_ok (cfgNodeID cfg) (cuLog c) (cuStores c) (lk\<lparr>lkHandler := HClosed\<rparr>)"
    using lk by (simp add: link_ok_def)
  let ?go = "lkRecvDone lk \<or> lkPush lk = PEnded \<or> stopChClosed (cuLeader c)"
  show ?thesis
  proof (cases "?go \<and> map_of (pmPeers (cuPeers c)) (lkFid lk) = Some ps")
    case False
    with HServing good_step_link [OF inv closed, of k] inv show ?thesis
      by (auto simp: close_link_def close_stream_def good_step_def cluster_inv_later)
  next
    case True
    let ?f = "lkFid lk" and ?pm = "(cuPeers c)\<lparr>pmPeers := AList.delete (lkFid lk) (pmPeers (cuPeers c))\<rparr>"
    obtain l where l: "FollowerReset ?f (cuLeader c) = Inr l" "leader_ok cfg n (cuLog c) l" "ldCommit l = ldCommit (cuLeader c)"
      "MatchOf ?f l = 0" "\<forall>j. j \<noteq> ?f \<longrightarrow> MatchOf j l = MatchOf j (cuLeader c)"
      using leader_ok_ack(2) [of cfg n "cuLog c" "cuLeader c" ?f] inv unfolding cluster_inv_def by blast
    have "MatchOf f l \<le> rev (cuStores c f)" if "f \<noteq> cfgNodeID cfg" for f
      using inv that l(4,5) position_ok [OF inv, of f] by (cases "f = ?f") (auto simp: cluster_inv_def)
    then have counted: "\<forall>f. f \<noteq> cfgNodeID cfg \<longrightarrow> MatchOf f l \<le> rev (cuStores c f)" by blast
    from cluster_inv_link_leader [OF inv leader_ok_later [OF l(2)] l(3) counted closed, of k]
    have "cluster_inv cfg (Suc n) (set_link k (lk\<lparr>lkHandler := HClosed\<rparr>) (c\<lparr>cuPeers := ?pm, cuLeader := l\<rparr>))
        \<and> grows c (set_link k (lk\<lparr>lkHandler := HClosed\<rparr>) (c\<lparr>cuPeers := ?pm, cuLeader := l\<rparr>))"
      by (simp add: cluster_inv_def grows_def set_link_def)
    with True HServing l(1) show ?thesis by (simp add: close_link_def close_stream_def good_step_def)
  qed
qed (simp_all add: close_link_def good_step_idle inv)

lemma cluster_step_good:
  assumes inv: "cluster_inv cfg n c" and a: "act_ok a" and n: "int n + 1 < maxIndex"
  shows "good_step cfg n c (cluster_step a c)"
proof (cases a)
  case (DoPropose e)
  with a step_propose [OF inv _ n] show ?thesis by (simp add: act_ok_def)
next
  case (ReceiveFails k)
  have "link_ok (cfgNodeID cfg) (cuLog c) (cuStores c) (lk\<lparr>lkRecvDone := True\<rparr>)"
    if "link_ok (cfgNodeID cfg) (cuLog c) (cuStores c) lk" for lk using that by (simp add: link_ok_def)
  with ReceiveFails show ?thesis
    by (auto intro!: on_link_good [OF inv] good_step_link [OF inv] good_step_idle [OF inv])
next
  case (Disconnect k)
  have "link_ok (cfgNodeID cfg) (cuLog c) (cuStores c) (lk\<lparr>lkReading := False\<rparr>)"
    if "link_ok (cfgNodeID cfg) (cuLog c) (cuStores c) lk" for lk using that by (simp add: link_ok_def)
  with Disconnect show ?thesis by (auto intro!: on_link_good [OF inv] good_step_link [OF inv])
next
  case (Restart nid)
  with a show ?thesis by (simp add: act_ok_def)
qed (auto intro!: on_link_good [OF inv] simp del: cluster_step.simps(2-5)
  simp: step_select [OF inv] step_turn [OF inv] step_stop [OF inv] step_connect [OF inv]
    step_accept [OF inv] step_receive [OF inv] step_push [OF inv _ n] step_follow [OF inv] step_close [OF inv])

lemma cluster_run_good:
  assumes "cluster_inv cfg n c" and "\<forall>a\<in>set as. act_ok a" and "int n + int (length as) < maxIndex"
  shows "\<exists>c'. cluster_run as c = Inr c' \<and> cluster_inv cfg (n + length as) c' \<and> grows c c'"
  using assms
proof (induction as arbitrary: n c)
  case (Cons a as)
  obtain c1 where c1: "cluster_step a c = Inr c1" "cluster_inv cfg (Suc n) c1" "grows c c1"
    using cluster_step_good [OF Cons.prems(1), of a] Cons.prems(2,3) by (auto simp: good_step_def)
  with Cons.IH [OF c1(2)] Cons.prems(2,3) show ?case by (auto intro: grows_trans)
qed simp

end
