(* ===== verification/ClusterChurn.thy ===== *)
theory ClusterChurn
  imports ClusterSafe
begin

text \<open>
  Runs in which followers restart. A follower that restarts has lost its state, so the bounds of
  \<open>cluster_inv\<close> on acknowledgements no longer hold for the stores themselves. They hold for the furthest
  states that the followers have had: \<open>churn_inv\<close> matches a cluster with one that has these states
  in place of the stores and satisfies \<open>cluster_inv\<close>. Most actions do not look at the stores and
  are the same in both.
\<close>

subsection \<open>Actions and stores\<close>

definition churn_ok :: "Config \<Rightarrow> cluster_act \<Rightarrow> bool" where
  "churn_ok cfg a \<longleftrightarrow> (\<forall>e. a = DoPropose e \<longrightarrow> store_fits (e\<lparr>leIndex := 1\<rparr>)) \<and> a \<noteq> Restart (cfgNodeID cfg)"

lemma act_ok_churn: "act_ok a \<Longrightarrow> churn_ok cfg a"
  by (simp add: act_ok_def churn_ok_def)

definition with_stores :: "(int32 \<Rightarrow> Store) \<Rightarrow> Cluster \<Rightarrow> Cluster" where
  "with_stores T c = c\<lparr>cuStores := T\<rparr>"

lemma with_stores_sel [simp]:
  "cuStores (with_stores T c) = T" "cuLeader (with_stores T c) = cuLeader c" "cuPeers (with_stores T c) = cuPeers c"
  "cuLinks (with_stores T c) = cuLinks c" "cuLog (with_stores T c) = cuLog c"
  by (simp_all add: with_stores_def)

lemma with_stores_upd:
  "with_stores T (set_link k lk c) = set_link k lk (with_stores T c)"
  "with_stores T (c\<lparr>cuLeader := l\<rparr>) = (with_stores T c)\<lparr>cuLeader := l\<rparr>"
  "with_stores T (c\<lparr>cuPeers := pm\<rparr>) = (with_stores T c)\<lparr>cuPeers := pm\<rparr>"
  "with_stores T (c\<lparr>cuLog := log\<rparr>) = (with_stores T c)\<lparr>cuLog := log\<rparr>"
  by (simp_all add: with_stores_def set_link_def)

fun blind :: "cluster_act \<Rightarrow> bool" where
  "blind (Connect f) = False"
| "blind (Follow k now sends) = False"
| "blind (Restart nid) = False"
| "blind a = True"

lemma on_link_with_stores:
  assumes "\<And>lk. f lk (with_stores T c) = map_sum id (with_stores T) (f lk c)"
  shows "on_link k f (with_stores T c) = map_sum id (with_stores T) (on_link k f c)"
  using assms by (simp add: on_link_def)

lemma go_bind_map: "go_bind x (\<lambda>y. Inr (f (g y))) = map_sum id f (go_bind x (\<lambda>y. Inr (g y)))"
  by (cases x) simp_all

lemma accept_with_stores: "accept_link k lk (with_stores T c) = with_stores T (accept_link k lk c)"
  by (auto simp: accept_link_def with_stores_upd Let_def split: stream_handler.splits list.splits prod.splits)

lemma blind_step:
  assumes "blind a"
  shows "cluster_step a (with_stores T c) = map_sum id (with_stores T) (cluster_step a c)"
proof (cases a)
  case (DoPropose e)
  then show ?thesis by (cases "Propose e (cuLeader c)") (auto simp: with_stores_def split: sum.splits)
next
  case (DoSelect pc i)
  then show ?thesis by (auto simp: with_stores_upd split: option.splits)
next
  case (DoTurn clk)
  then show ?thesis by (cases "commitLoop_turn clk (cuLeader c)") (auto simp: with_stores_upd split: option.splits)
next
  case DoStop
  then show ?thesis by (cases "Stop (cuLeader c)") (auto simp: with_stores_upd)
next
  case (Accept k)
  then show ?thesis by (simp add: on_link_with_stores accept_with_stores)
next
  case (Receive k)
  have "receive_link k lk (with_stores T c) = map_sum id (with_stores T) (receive_link k lk c)" for lk
    by (cases "lkUp lk"; cases "recv_step (List.hd (lkUp lk)) (lkRecv lk) (cuLeader c)")
      (auto simp: receive_link_def with_stores_upd)
  with Receive show ?thesis by (simp add: on_link_with_stores)
next
  case (ReceiveFails k)
  then show ?thesis by (simp add: on_link_with_stores with_stores_upd)
next
  case (Push k pc)
  have "push_link k pc lk (with_stores T c) = map_sum id (with_stores T) (push_link k pc lk c)" for lk
    by (cases "push_step pc (fst (lkRecv lk)) (lkPush lk) (cuLeader c)")
      (auto simp: push_link_def with_stores_upd split: option.splits)
  with Push show ?thesis by (simp add: on_link_with_stores)
next
  case (Disconnect k)
  then show ?thesis by (simp add: on_link_with_stores with_stores_upd)
next
  case (Close k)
  have "close_link k lk (with_stores T c) = map_sum id (with_stores T) (close_link k lk c)" for lk
  proof (cases "lkHandler lk")
    case (HServing ps)
    then show ?thesis
      by (cases "close_stream (lkFid lk) ps (cuPeers c) (cuLeader c)") (auto simp: close_link_def with_stores_upd)
  qed (simp_all add: close_link_def)
  with Close show ?thesis by (simp add: on_link_with_stores)
qed (use assms in simp_all)

subsection \<open>The invariant\<close>

definition churn_inv :: "Config \<Rightarrow> nat \<Rightarrow> Cluster \<Rightarrow> bool" where
  "churn_inv cfg n c \<longleftrightarrow> (\<exists>T. cluster_inv cfg n (with_stores T c)
     \<and> (\<forall>f. replica (cuLog c) (cuStores c f) \<and> rev (cuStores c f) \<le> rev (T f)))"

text \<open>\<open>R\<close> are the nodes that may have restarted.\<close>

definition grows_but :: "int32 set \<Rightarrow> Cluster \<Rightarrow> Cluster \<Rightarrow> bool" where
  "grows_but R c c' \<longleftrightarrow> (\<exists>es. cuLog c' = cuLog c @ es) \<and> ldCommit (cuLeader c) \<le> ldCommit (cuLeader c')
     \<and> (\<forall>f. f \<notin> R \<longrightarrow> rev (cuStores c f) \<le> rev (cuStores c' f))"

lemma grows_but_refl [simp]: "grows_but R c c"
  by (simp add: grows_but_def)

lemma grows_but_trans: "grows_but R a b \<Longrightarrow> grows_but S b c \<Longrightarrow> grows_but (R \<union> S) a c"
  unfolding grows_but_def by (metis UnCI append.assoc order_trans)

lemma with_own_stores [simp]: "with_stores (cuStores c) c = c"
  by (simp add: with_stores_def)

lemma cluster_churn_inv: "cluster_inv cfg n c \<Longrightarrow> churn_inv cfg n c"
  by (auto simp: churn_inv_def cluster_inv_def intro!: exI [of _ "cuStores c"])

lemma churn_inv_parts:
  assumes "churn_inv cfg n c"
  shows "leader_ok cfg n (cuLog c) (cuLeader c)" "log_ok n (cuLog c)" "replica (cuLog c) (cuStores c f)"
  using assms by (auto simp: churn_inv_def cluster_inv_def)

lemma churn_invI:
  assumes "cluster_inv cfg n (with_stores T c)"
    and "\<And>f. replica (cuLog c) (cuStores c f) \<and> rev (cuStores c f) \<le> rev (T f)"
  shows "churn_inv cfg n c"
  using assms unfolding churn_inv_def by blast

lemma churn_blind:
  assumes inv: "churn_inv cfg n c" and a: "churn_ok cfg a" "blind a" and n: "int n + 1 < maxIndex"
  shows "\<exists>c'. cluster_step a c = Inr c' \<and> churn_inv cfg (Suc n) c' \<and> grows_but {} c c'"
proof -
  obtain T where T: "cluster_inv cfg n (with_stores T c)"
    "\<forall>f. replica (cuLog c) (cuStores c f) \<and> rev (cuStores c f) \<le> rev (T f)"
    using inv by (auto simp: churn_inv_def)
  have "act_ok a" using a by (auto simp: act_ok_def churn_ok_def)
  then obtain d where d: "cluster_step a (with_stores T c) = Inr d" "cluster_inv cfg (Suc n) d" "grows (with_stores T c) d"
    using cluster_step_good [OF T(1) _ n] by (auto simp: good_step_def)
  then obtain c' where c': "cluster_step a c = Inr c'" "d = with_stores T c'"
    using blind_step [OF a(2), of T c] by (cases "cluster_step a c") auto
  have "c' = with_stores (cuStores c) c'" using blind_step [OF a(2), of "cuStores c" c] c'(1) by simp
  then have same: "cuStores c' = cuStores c" by (metis with_stores_sel(1))
  have g: "\<exists>es. cuLog c' = cuLog c @ es" "ldCommit (cuLeader c) \<le> ldCommit (cuLeader c')"
    using d(3) by (auto simp: c'(2) grows_def)
  have rep: "replica (cuLog c') (cuStores c f)" for f using T(2) g(1) replica_mono by metis
  have "churn_inv cfg (Suc n) c'"
    using d(2) T(2) rep unfolding c'(2) by (intro churn_invI) (auto simp: same)
  with c'(1) g same show ?thesis by (auto simp: grows_but_def)
qed

lemma churn_connect:
  assumes inv: "churn_inv cfg n c"
  shows "\<exists>c'. cluster_step (Connect f) c = Inr c' \<and> churn_inv cfg (Suc n) c' \<and> grows_but {} c c'"
proof -
  obtain T where T: "cluster_inv cfg n (with_stores T c)"
    "\<forall>f. replica (cuLog c) (cuStores c f) \<and> rev (cuStores c f) \<le> rev (T f)"
    using inv by (auto simp: churn_inv_def)
  note later = cluster_inv_later [OF T(1)]
  have cfg: "ldCfg (cuLeader c) = cfg" using T(1) by (simp add: cluster_inv_def leader_ok_def)
  let ?c = "c\<lparr>cuLinks := cuLinks c @ [new_link f (cuStores c f)]\<rparr>"
  show ?thesis
  proof (cases "f = cfgNodeID cfg \<or> (\<exists>lk\<in>set (cuLinks c). lkFid lk = f \<and> lkReading lk)")
    case True
    with cfg have "cluster_step (Connect f) c = Inr c" by auto
    with T(2) later show ?thesis by (auto intro: churn_invI)
  next
    case False
    have "0 \<le> rev (cuStores c f)" using T(2) replica_pos by blast
    with False T(2) have "link_ok (cfgNodeID cfg) (cuLog c) T (new_link f (cuStores c f))"
      by (simp add: link_ok_def new_link_def ack_position)
    with later have "cluster_inv cfg (Suc n) (with_stores T ?c)"
      by (simp add: cluster_inv_def)
    then have "churn_inv cfg (Suc n) ?c" by (rule churn_invI) (use T(2) in simp)
    moreover have "grows_but {} c ?c" by (simp add: grows_but_def)
    ultimately show ?thesis using False cfg by auto
  qed
qed

lemma churn_follow:
  assumes inv: "churn_inv cfg n c"
  shows "\<exists>c'. cluster_step (Follow k now sends) c = Inr c' \<and> churn_inv cfg (Suc n) c' \<and> grows_but {} c c'"
proof -
  obtain T where T: "cluster_inv cfg n (with_stores T c)"
    "\<forall>f. replica (cuLog c) (cuStores c f) \<and> rev (cuStores c f) \<le> rev (T f)"
    using inv by (auto simp: churn_inv_def)
  note later = cluster_inv_later [OF T(1)]
  have idle: "churn_inv cfg (Suc n) c" using later T(2) by (auto intro: churn_invI)
  let ?lk = "cuLinks c ! k"
  show ?thesis
  proof (cases "k < length (cuLinks c) \<and> lkDown ?lk \<noteq> [] \<and> lkReading ?lk")
    case False
    then have "cluster_step (Follow k now sends) c = Inr c"
      by (auto simp: on_link_def follow_link_def split: list.splits)
    with idle show ?thesis by auto
  next
    case True
    then obtain m ms where k: "k < length (cuLinks c)" "lkReading ?lk" and down: "lkDown ?lk = m # ms"
      by (cases "lkDown ?lk") auto
    let ?f = "lkFid ?lk"
    have lk: "link_ok (cfgNodeID cfg) (cuLog c) T ?lk" using T(1) k(1) by (simp add: cluster_inv_def)
    obtain r where r: "handle_payload StoreApplier now m (cuStores c ?f) = Inr r"
      "\<forall>s'. r = Inr (Some s') \<longrightarrow> replica (cuLog c) s' \<and> rev (cuStores c ?f) \<le> rev s'"
      using handle_ok [of "cuLog c" m "cuStores c ?f" n now] T lk down by (auto simp: cluster_inv_def link_ok_def)
    have dropped: "link_ok (cfgNodeID cfg) (cuLog c) T (?lk\<lparr>lkDown := ms\<rparr>)"
      "link_ok (cfgNodeID cfg) (cuLog c) T (?lk\<lparr>lkDown := ms, lkReading := False\<rparr>)"
      using lk down by (auto simp: link_ok_def)
    have link: "churn_inv cfg (Suc n) (set_link k lk' c) \<and> grows_but {} c (set_link k lk' c)"
      if "link_ok (cfgNodeID cfg) (cuLog c) T lk'" for lk'
    proof -
      have "cluster_inv cfg (Suc n) (with_stores T (set_link k lk' c))"
        using cluster_inv_link [OF later, of lk' k] that by (simp add: with_stores_upd)
      then have "churn_inv cfg (Suc n) (set_link k lk' c)"
        by (rule churn_invI) (use T(2) in \<open>simp add: set_link_def\<close>)
      then show ?thesis by (simp add: grows_but_def set_link_def)
    qed
    consider (stop) e where "r = Inl e" | (old) "r = Inr None" | (next_state) s' where "r = Inr (Some s')"
      by (metis option.exhaust sumE)
    then show ?thesis
    proof cases
      case stop
      with link [OF dropped(2)] r(1) k down show ?thesis by (simp add: on_link_def follow_link_def)
    next
      case old
      with link [OF dropped(1)] r(1) k down show ?thesis by (simp add: on_link_def follow_link_def)
    next
      case next_state
      have s': "replica (cuLog c) s'" "rev (cuStores c ?f) \<le> rev s'" using r(2) next_state by auto
      let ?T = "if rev (T ?f) \<le> rev s' then T(?f := s') else T"
      let ?c = "c\<lparr>cuStores := (cuStores c)(?f := s')\<rparr>"
      let ?lk' = "if sends then ?lk\<lparr>lkDown := ms, lkUp := lkUp ?lk @ [ack StoreApplier ?f s']\<rparr>
        else ?lk\<lparr>lkDown := ms, lkReading := False\<rparr>"
      have inv': "cluster_inv cfg (Suc n) (with_stores ?T ?c)"
        using cluster_inv_store [OF later, of s' ?f] s'(1) later by (simp add: with_stores_def)
      have up: "\<forall>g. rev (T g) \<le> rev (?T g)" and reached: "rev s' \<le> rev (?T ?f)" by auto
      have "link_ok (cfgNodeID cfg) (cuLog c) ?T ?lk" using link_ok_stores [OF lk up] .
      then have "link_ok (cfgNodeID cfg) (cuLog c) ?T ?lk'"
        using down replica_pos [OF s'(1)] reached by (auto simp: link_ok_def ack_position)
      with cluster_inv_link [OF inv', of ?lk' k]
      have "cluster_inv cfg (Suc n) (with_stores ?T (set_link k ?lk' ?c))" by (simp add: with_stores_upd)
      then have "churn_inv cfg (Suc n) (set_link k ?lk' ?c)"
      proof (rule churn_invI)
        fix g
        have "rev (cuStores c g) \<le> rev (?T g)" using T(2) up order_trans by blast
        with T(2) s'(1) reached show "replica (cuLog (set_link k ?lk' ?c)) (cuStores (set_link k ?lk' ?c) g)
            \<and> rev (cuStores (set_link k ?lk' ?c) g) \<le> rev (?T g)" by (simp add: set_link_def)
      qed
      moreover have "grows_but {} c (set_link k ?lk' ?c)" using s'(2) by (simp add: grows_but_def set_link_def)
      moreover have "cluster_step (Follow k now sends) c = Inr (set_link k ?lk' ?c)"
        using r(1) next_state k down by (simp add: on_link_def follow_link_def)
      ultimately show ?thesis by blast
    qed
  qed
qed

lemma churn_restart:
  assumes inv: "churn_inv cfg n c" and f: "f \<noteq> cfgNodeID cfg"
  shows "\<exists>c'. cluster_step (Restart f) c = Inr c' \<and> churn_inv cfg (Suc n) c' \<and> grows_but {f} c c'"
proof -
  obtain T where T: "cluster_inv cfg n (with_stores T c)"
    "\<forall>f. replica (cuLog c) (cuStores c f) \<and> rev (cuStores c f) \<le> rev (T f)"
    using inv by (auto simp: churn_inv_def)
  note later = cluster_inv_later [OF T(1)]
  have cfg: "ldCfg (cuLeader c) = cfg" using T(1) by (simp add: cluster_inv_def leader_ok_def)
  let ?c = "restart_node f c"
  have c': "?c = c\<lparr>cuStores := (cuStores c)(f := New),
      cuLinks := map (\<lambda>lk. if lkFid lk = f then lk\<lparr>lkReading := False\<rparr> else lk) (cuLinks c)\<rparr>"
    using f cfg by (simp add: restart_node_def)
  have "link_ok (cfgNodeID cfg) (cuLog c) T (lk\<lparr>lkReading := False\<rparr>)" if "link_ok (cfgNodeID cfg) (cuLog c) T lk" for lk
    using that by (simp add: link_ok_def)
  with later have "cluster_inv cfg (Suc n) (with_stores T ?c)"
    by (auto simp: cluster_inv_def c')
  then have "churn_inv cfg (Suc n) ?c"
  proof (rule churn_invI)
    fix g
    have "rev New = 0" "0 \<le> rev (T f)"
      using T(1) replica_pos [of "cuLog c" "T f"] by (auto simp: cluster_inv_def New_def)
    with T(2) show "replica (cuLog ?c) (cuStores ?c g) \<and> rev (cuStores ?c g) \<le> rev (T g)"
      by (simp add: c' replica_New)
  qed
  moreover have "grows_but {f} c ?c" by (simp add: grows_but_def c')
  ultimately show ?thesis by auto
qed

lemma churn_step_good:
  assumes "churn_inv cfg n c" and "churn_ok cfg a" and "int n + 1 < maxIndex"
  shows "\<exists>c'. cluster_step a c = Inr c' \<and> churn_inv cfg (Suc n) c' \<and> grows_but {f. a = Restart f} c c'"
proof (cases "blind a")
  case True
  then have "{f. a = Restart f} = {}" by (cases a) auto
  with churn_blind [OF assms(1,2) True assms(3)] show ?thesis by simp
next
  case False
  then show ?thesis
    using assms churn_connect [OF assms(1)] churn_follow [OF assms(1)] churn_restart [OF assms(1)]
    by (cases a) (auto simp: churn_ok_def simp del: cluster_step.simps)
qed

lemma churn_run_good:
  assumes "churn_inv cfg n c" and "\<forall>a\<in>set as. churn_ok cfg a" and "int n + int (length as) < maxIndex"
  shows "\<exists>c'. cluster_run as c = Inr c' \<and> churn_inv cfg (n + length as) c' \<and> grows_but {f. Restart f \<in> set as} c c'"
  using assms
proof (induction as arbitrary: n c)
  case (Cons a as)
  obtain c1 where c1: "cluster_step a c = Inr c1" "churn_inv cfg (Suc n) c1" "grows_but {f. a = Restart f} c c1"
    using churn_step_good [OF Cons.prems(1), of a] Cons.prems(2,3) by auto
  moreover obtain c' where c': "cluster_run as c1 = Inr c'" "churn_inv cfg (Suc n + length as) c'" "grows_but {f. Restart f \<in> set as} c1 c'"
    using Cons.IH [OF c1(2)] Cons.prems(2,3) by auto
  moreover have "{f. a = Restart f} \<union> {f. Restart f \<in> set as} = {f. Restart f \<in> set (a # as)}" by auto
  ultimately show ?case using grows_but_trans [OF c1(3) c'(3)] by simp
qed simp

end
