(* ===== verification/ClusterProps.thy ===== *)
theory ClusterProps
  imports ClusterChurn
begin

text \<open>
  The properties of a cluster, over every run from its start: any order of proposals, commits,
  connections, failures and deliveries, and where the statement allows it any restarts of followers.
\<close>

subsection \<open>Nodes\<close>

definition members :: "Config \<Rightarrow> int32 set" where
  "members cfg = set (map fst (cfgNodeAddrs cfg))"

definition config_ok :: "Config \<Rightarrow> bool" where
  "config_ok cfg \<longleftrightarrow> gomap_ok (cfgNodeAddrs cfg) \<and> cfgNodeID cfg \<in> members cfg"

text \<open>The nodes that have applied the log up to an index.\<close>

definition nodes_at :: "Cluster \<Rightarrow> int64 \<Rightarrow> int32 set" where
  "nodes_at c i = {nid \<in> members (ldCfg (cuLeader c)). i \<le> rev (node_store c nid)}"

definition majority :: "Config \<Rightarrow> int32 set \<Rightarrow> bool" where
  "majority cfg S \<longleftrightarrow> card (members cfg) < 2 * card S"

lemma card_members: "config_ok cfg \<Longrightarrow> card (members cfg) = length (cfgNodeAddrs cfg)"
  unfolding config_ok_def members_def by (metis distinct_card length_map)

lemma churn_inv_cfg: "churn_inv cfg n c \<Longrightarrow> ldCfg (cuLeader c) = cfg"
  using churn_inv_parts(1) by (simp add: leader_ok_def)

lemma node_replica: "churn_inv cfg n c \<Longrightarrow> replica (cuLog c) (node_store c nid)"
  using churn_inv_parts by (simp add: leader_ok_def node_store_def)

lemma leader_position:
  "churn_inv cfg n c \<Longrightarrow> rev (node_store c (cfgNodeID cfg)) = ldCommit (cuLeader c)"
  using leader_ok_range [OF churn_inv_parts(1)] churn_inv_cfg by (simp add: node_store_def)

lemma committed_majority:
  assumes cfg: "config_ok cfg" and inv: "cluster_inv cfg n c" and i: "i \<le> ldCommit (cuLeader c)"
  shows "majority cfg (nodes_at c i)"
proof -
  let ?m = "cfgNodeAddrs cfg" and ?self = "cfgNodeID cfg"
  let ?f = "filter (\<lambda>(nid, addr). nid \<noteq> ?self \<and> ldCommit (cuLeader c) \<le> rev (cuStores c nid)) ?m"
  have "nid \<in> nodes_at c i" if "nid \<in> insert ?self (set (map fst ?f))" for nid
    using that i cfg leader_position [OF cluster_churn_inv [OF inv]] churn_inv_cfg [OF cluster_churn_inv [OF inv]]
    by (auto simp: nodes_at_def members_def config_ok_def node_store_def)
  then have "card (insert ?self (set (map fst ?f))) \<le> card (nodes_at c i)"
    by (intro card_mono) (auto simp: nodes_at_def members_def)
  moreover have "card (insert ?self (set (map fst ?f))) = 1 + length ?f"
  proof -
    have "distinct (map fst ?f)" using cfg by (simp add: config_ok_def distinct_map_filter)
    from distinct_card [OF this] have "card (set (map fst ?f)) = length ?f" by (simp only: length_map)
    moreover have "?self \<notin> set (map fst ?f)" by auto
    ultimately show ?thesis using card_insert_disjoint [OF finite_set, of ?self "map fst ?f"] by linarith
  qed
  moreover have "int (length ?m) div 2 + 1 \<le> 1 + int (length ?f)"
    using inv by (simp add: cluster_inv_def holders_def Quorum_def go_div_nonneg)
  ultimately show ?thesis
    using card_members [OF cfg] by (simp add: majority_def)
qed

text \<open>A run from the start.\<close>

lemma run_start:
  assumes "config_ok cfg" and "\<forall>a\<in>set as. act_ok a" and "int (length as) < maxIndex"
  shows "\<exists>c. cluster_run as (new_cluster cfg) = Inr c \<and> cluster_inv cfg (length as) c"
  using cluster_run_good [OF cluster_inv_new, of cfg as 0] assms by (auto simp: config_ok_def)

lemma run_inv:
  assumes "config_ok cfg" and "\<forall>a\<in>set as. act_ok a" and "int (length as) < maxIndex"
    and "cluster_run as (new_cluster cfg) = Inr c"
  shows "cluster_inv cfg (length as) c"
  using run_start [OF assms(1-3)] assms(4) by auto

lemma churn_start:
  assumes "config_ok cfg" and "\<forall>a\<in>set as. churn_ok cfg a" and "int (length as) < maxIndex"
  shows "\<exists>c. cluster_run as (new_cluster cfg) = Inr c \<and> churn_inv cfg (length as) c"
  using churn_run_good [OF cluster_churn_inv [OF cluster_inv_new], of cfg as 0] assms by (auto simp: config_ok_def)

lemma churn_run:
  assumes "config_ok cfg" and "\<forall>a\<in>set as. churn_ok cfg a" and "int (length as) < maxIndex"
    and "cluster_run as (new_cluster cfg) = Inr c"
  shows "churn_inv cfg (length as) c"
  using churn_start [OF assms(1-3)] assms(4) by auto

text \<open>A run and its continuation.\<close>

lemma churn_runs:
  assumes "config_ok cfg" and "\<forall>a\<in>set (as @ bs). churn_ok cfg a" and "int (length (as @ bs)) < maxIndex"
    and "cluster_run as (new_cluster cfg) = Inr c" and "cluster_run bs c = Inr c'"
  shows "churn_inv cfg (length as) c" "churn_inv cfg (length as + length bs) c'" "grows_but {f. Restart f \<in> set bs} c c'"
proof -
  show inv: "churn_inv cfg (length as) c" using churn_run [OF assms(1) _ _ assms(4)] assms(2,3) by simp
  show "churn_inv cfg (length as + length bs) c'" "grows_but {f. Restart f \<in> set bs} c c'"
    using churn_run_good [OF inv, of bs] assms(2,3,5) by auto
qed

lemma run_spec_agree:
  assumes "same_data a b" and "no_expiry a" and "\<forall>e\<in>set log. no_expiry_entry e" and "length cs = length ds"
  shows "same_data (run_spec (zip cs log) a) (run_spec (zip ds log) b)"
  using assms
proof (induction log arbitrary: cs ds a b)
  case (Cons e log)
  show ?case
  proof (cases cs)
    case Nil
    with Cons.prems show ?thesis by (simp add: run_spec_def)
  next
    case C: (Cons x cs')
    with Cons.prems(4) obtain y ds' where D: "ds = y # ds'" "length cs' = length ds'" by (cases ds) auto
    have "same_data (fst (spec_apply x e a)) (fst (spec_apply y e b)) \<and> no_expiry (fst (spec_apply x e a))"
      using spec_apply_agree [OF Cons.prems(1,2), of e x y] Cons.prems(3) by simp
    with Cons.IH [of "fst (spec_apply x e a)" "fst (spec_apply y e b)" cs' ds'] Cons.prems(3) D(2) show ?thesis
      by (simp add: C D(1) run_spec_def)
  qed
qed (simp add: run_spec_def)

subsection \<open>A write on one of three nodes\<close>

text \<open>A proposal is pushed to node 2, which applies it.\<close>

definition early_acts :: "cluster_act list" where
  "early_acts = [DoPropose (create_entry 0 0), Connect 2, Accept 0, Push 0 PushGo, Push 0 PushGo, Follow 0 0 True]"

definition early_store :: Store where
  "early_store = (case applyOne StoreApplier 0 (create_entry 1 0) New of Inr (s, r) \<Rightarrow> s | Inl p \<Rightarrow> New)"

lemma early_apply: "\<exists>r. applyOne StoreApplier 0 (create_entry 1 0) New = Inr (early_store, r)"
  and early_abs: "abs_of early_store = fst (spec_apply 0 (create_entry 1 0) (abs_of New))"
proof -
  obtain s where s: "applyOne StoreApplier 0 (create_entry 1 0) New = Inr (s, snd (spec_apply 0 (create_entry 1 0) (abs_of New)))"
    "abs_of s = fst (spec_apply 0 (create_entry 1 0) (abs_of New))"
    using applyOne_store_inv [OF store_inv_New, of "create_entry 1 0" 0]
    by (auto simp: within_limit_def create_entry_def maxIndex_def)
  then have "early_store = s" by (simp add: early_store_def)
  with s show "\<exists>r. applyOne StoreApplier 0 (create_entry 1 0) New = Inr (early_store, r)"
    "abs_of early_store = fst (spec_apply 0 (create_entry 1 0) (abs_of New))" by simp_all
qed

lemma early_store_facts:
  "rev early_store = 1"
  "Get now ''a'' ''k'' early_store = Some \<lparr>kvNamespace = ''a'', kvKey = ''k'', kvValue = ''v'', kvVersion = 1,
     kvRevision = 1, kvTtlMs = 0, kvExpireAtMs = 0\<rparr>"
proof -
  have one: "add64 0 1 = 1" by (simp add: add64_def wrap64_def)
  let ?e = "\<lparr>keValue = ''v'', keVersion = 1, keRevision = 1, keTtlMs = 0, keExpireAtMs = 0\<rparr>"
  have "absRev (abs_of early_store) = 1" "absKvs (abs_of early_store) = Map.empty((''a'', ''k'') \<mapsto> ?e)"
    unfolding early_abs
    by (simp_all add: spec_apply_def create_entry_def abs_of_New spec_put_def live_def cas_ok_def put_entry_def
        spec_emit_def one Let_def)
  then show "rev early_store = 1"
    "Get now ''a'' ''k'' early_store = Some \<lparr>kvNamespace = ''a'', kvKey = ''k'', kvValue = ''v'', kvVersion = 1,
     kvRevision = 1, kvTtlMs = 0, kvExpireAtMs = 0\<rparr>"
    by (simp_all add: Get_live live_def aliveKV_def kvToPB_def)
qed

definition early_link :: Link where
  "early_link = \<lparr>lkFid = 2, lkDown = [], lkUp = [ack StoreApplier 2 early_store], lkReading = True,
     lkHandler = HServing 0, lkRecv = (None, False), lkRecvDone = False, lkPush = PSend [] (ThenRead None)\<rparr>"

definition early_cluster :: Cluster where
  "early_cluster = \<lparr>cuLeader = leader1, cuPeers = \<lparr>pmPeers = [(2, 0)], pmNext = 1\<rparr>,
     cuStores = (\<lambda>_. New)(2 := early_store), cuLinks = [early_link], cuLog = [create_entry 1 0]\<rparr>"

lemma cfg3_sel: "cfgNodeID cfg3 = 1" "cfgNodeAddrs cfg3 = [(1, ''a''), (2, ''b''), (3, ''c'')]"
  by (simp_all add: cfg3_def)

lemma leader1_more: "stopChClosed leader1 = False" "bcSubs (ping leader1) = []" "bcSeq (ping leader1) = 0"
  "resChans leader1 1 = Some (make_chan 1)" "ldState leader1 = New"
  by (simp_all add: leader1_def proposed_def Propose_def leader_eval wake_def notifyReplicators_def notify_def)

lemma early_run: "cluster_run early_acts (new_cluster cfg3) = Inr early_cluster"
proof -
  have ack0: "ack StoreApplier 2 New = \<lparr>arFollowerId = 2, arAckIndex = 0, arSuccess = True\<rparr>"
    by (simp add: ack_def StoreApplier_def AppliedRevision_def)
  have catchup: "sendCatchup None 0 leader1 = Inr ([entry_msg (create_entry 1 0)], True)"
    by (simp add: sendCatchup_def Catchup_def leader1_facts send_all_def)
  obtain r where app: "applyOne StoreApplier 0 (create_entry 1 0) New = Inr (early_store, r)"
    using early_apply by blast
  have handled: "handle_payload StoreApplier 0 (entry_msg (create_entry 1 0)) New = Inr (Inr (Some early_store))"
    using app by (intro handle_entry_next) (simp_all add: create_entry_def StoreApplier_def AppliedRevision_def)
  show ?thesis
    by (simp add: early_acts_def new_cluster_def leader1_propose create_entry_at leader1_facts on_link_def
        new_link_def accept_link_def ack0 set_link_def open_stream_def NewPeerManager_def recv_start_def
        push_link_def push_step_def catchup follow_link_def handled early_cluster_def early_link_def cfg3_sel)
qed

definition commit_acts :: "cluster_act list" where
  "commit_acts = early_acts @ [Receive 0, DoTurn (\<lambda>_. 0)]"

lemma config_ok_cfg3: "config_ok cfg3"
  by (simp add: config_ok_def members_def cfg3_sel)

lemma early_acts_ok: "\<forall>a\<in>set (early_acts @ [Disconnect 0]). act_ok a" "length early_acts = 6"
  by (auto simp: early_acts_def act_ok_def store_fits_def create_entry_def maxIndex_def)

lemma early_acts_churn: "\<forall>a\<in>set early_acts. churn_ok cfg a" "\<forall>a\<in>set (early_acts @ [Restart 2]). churn_ok cfg3 a"
  using early_acts_ok(1) by (auto intro: act_ok_churn) (simp add: churn_ok_def cfg3_sel)

lemma commit_acts_ok: "\<forall>a\<in>set (commit_acts @ [Disconnect 0]). act_ok a" "length commit_acts = 8"
  using early_acts_ok by (auto simp: commit_acts_def act_ok_def)

lemma commit_run:
  obtains l where "commitLoop_turn (\<lambda>_. 0) leader2 = Inr (Some l)"
    "cluster_run commit_acts (new_cluster cfg3)
       = Inr (early_cluster\<lparr>cuLeader := l, cuLinks := [early_link\<lparr>lkUp := []\<rparr>]\<rparr>)"
    "\<exists>l' r. propose_select CaseResult 1 l = Some (l', Inr r)"
proof -
  have inv: "node_inv leader2" using leader_reach_inv [OF leader_reach2] by blast
  have one: "find_commit (\<lambda>i. votes leader2 i \<ge> needVotes leader2) 1 0 = 1"
    by (subst find_commit.simps) (simp add: leader_votes)
  obtain l where l: "commitLoop_turn (\<lambda>_. 0) leader2 = Inr (Some l)" "ldCommit l = 1"
    using turn_ok [OF inv leader2_facts(3) refl, of "\<lambda>_. 0"] one by (auto simp: leader2_facts)
  have "map_of (waiters leader2) 1 \<noteq> None" by (simp add: leader2_facts)
  with commit_answers_waiters [OF leader_reach2 l(1)] l(2) have "\<exists>l' r. propose_select CaseResult 1 l = Some (l', Inr r)"
    by (fastforce simp: leader2_facts)
  moreover have "ack StoreApplier 2 early_store = \<lparr>arFollowerId = 2, arAckIndex = 1, arSuccess = True\<rparr>"
    by (simp add: ack_def StoreApplier_def AppliedRevision_def early_store_facts)
  ultimately show ?thesis using l(1)
    by (intro that [of l]) (simp_all add: commit_acts_def cluster_run_append early_run on_link_def early_cluster_def early_link_def
        receive_link_def recv_step_def leader2_ack set_link_def)
qed

subsection \<open>Properties\<close>



text \<open>C6: One log. In every run each node is at some position of the one log of the leader and its keys and
  instances are what the abstract machine makes of the entries up to there, at some clock readings,
  whether they came one by one or in a snapshot; the leader is at its commit index; the log only
  grows at its end; and no node goes back unless it restarts.\<close>

theorem cluster_one_log:
  assumes "config_ok cfg" and "\<forall>a\<in>set (as @ bs). churn_ok cfg a" and "int (length (as @ bs)) < maxIndex"
    and "cluster_run as (new_cluster cfg) = Inr c" and "cluster_run bs c = Inr c'"
  shows "consecutive 0 (cuLog c') \<and> (\<exists>es. cuLog c' = cuLog c @ es)
    \<and> rev (node_store c' (cfgNodeID cfg)) = ldCommit (cuLeader c')
    \<and> (\<forall>nid. (Restart nid \<in> set bs \<or> rev (node_store c nid) \<le> rev (node_store c' nid))
      \<and> (\<exists>clks. int (length clks) = rev (node_store c' nid) \<and> length clks \<le> length (cuLog c')
           \<and> same_data (abs_of (node_store c' nid)) (run_spec (zip clks (cuLog c')) (abs_of New))))"
proof -
  note inv = churn_runs(1) [OF assms] and inv' = churn_runs(2) [OF assms] and g = churn_runs(3) [OF assms]
  have "Restart nid \<in> set bs \<or> rev (node_store c nid) \<le> rev (node_store c' nid)" for nid
    using g leader_position [OF inv] leader_position [OF inv'] churn_inv_cfg [OF inv] churn_inv_cfg [OF inv']
    by (cases "nid = cfgNodeID cfg") (auto simp: grows_but_def node_store_def)
  moreover have "consecutive 0 (cuLog c')" using churn_inv_parts(2) [OF inv'] by (simp add: log_ok_def)
  ultimately show ?thesis
    using g leader_position [OF inv'] node_replica [OF inv'] by (simp add: grows_but_def replica_def)
qed

theorem cluster_one_log_witness:
  "\<exists>c'. cluster_run [Restart 2] early_cluster = Inr c' \<and> rev (node_store c' 1) = ldCommit (cuLeader c')
    \<and> rev (node_store early_cluster 3) \<le> rev (node_store c' 3)"
proof -
  let ?c = "restart_node 2 early_cluster"
  have run: "cluster_run [Restart 2] early_cluster = Inr ?c" by simp
  have len: "int (length (early_acts @ [Restart 2])) < maxIndex" using early_acts_ok(2) by (simp add: maxIndex_def)
  note one = cluster_one_log [OF config_ok_cfg3 early_acts_churn(2) len early_run run]
  have "rev (node_store ?c 1) = ldCommit (cuLeader ?c)" using one cfg3_sel(1) by metis
  moreover have "Restart 3 \<in> set [Restart 2] \<or> rev (node_store early_cluster 3) \<le> rev (node_store ?c 3)"
    using one by blast
  then have "rev (node_store early_cluster 3) \<le> rev (node_store ?c 3)" by simp
  ultimately show ?thesis using run by blast
qed

lemma leader_answer:
  assumes "leader_ok cfg n log l" and "propose_select CaseResult i l = Some (l', Inr r)"
  shows "i \<le> ldCommit l" "answer_of log i r"
proof -
  obtain ch where ch: "resChans l i = Some ch"
    using assms(2) by (auto simp: propose_select_def split: option.splits)
  have "\<not> chClosed ch \<and> (\<forall>r\<in>set (chBuf ch). i \<le> ldCommit l \<and> answer_of log i r)"
    using assms(1) ch by (auto simp: leader_ok_def)
  then show "i \<le> ldCommit l" "answer_of log i r"
    using assms(2) ch by (auto simp: propose_select_def try_recv_def split: list.splits)
qed



text \<open>C11: Without expiry times the nodes agree. Two nodes of a cluster at the same position have the
  same keys and instances, whatever their clocks read and however the entries reached them, if no entry
  of the log carries an expiry time; so \<open>Get\<close> gives the same on both.\<close>

theorem cluster_agrees:
  assumes "config_ok cfg" and "\<forall>a\<in>set as. churn_ok cfg a" and "int (length as) < maxIndex"
    and "cluster_run as (new_cluster cfg) = Inr c" and "\<forall>e\<in>set (cuLog c). no_expiry_entry e"
    and "rev (node_store c x) = rev (node_store c y)"
  shows "same_data (abs_of (node_store c x)) (abs_of (node_store c y))
    \<and> Get now ns key (node_store c x) = Get now ns key (node_store c y)"
proof -
  have inv: "churn_inv cfg (length as) c" using churn_run [OF assms(1-4)] .
  obtain cs ds where cs: "int (length cs) = rev (node_store c x)" "int (length ds) = rev (node_store c y)"
    "same_data (abs_of (node_store c x)) (run_spec (zip cs (cuLog c)) (abs_of New))"
    "same_data (abs_of (node_store c y)) (run_spec (zip ds (cuLog c)) (abs_of New))"
    using node_replica [OF inv, of x] node_replica [OF inv, of y] unfolding replica_def by blast
  have "no_expiry (abs_of New)" by (simp add: no_expiry_def)
  moreover have "length cs = length ds" using cs(1,2) assms(6) by simp
  ultimately have "same_data (run_spec (zip cs (cuLog c)) (abs_of New)) (run_spec (zip ds (cuLog c)) (abs_of New))"
    by (intro run_spec_agree assms(5)) simp_all
  with cs(3,4) have same: "same_data (abs_of (node_store c x)) (abs_of (node_store c y))"
    unfolding same_data_def by metis
  then show ?thesis by (simp add: Get_live same_data_def)
qed

theorem cluster_agrees_witness:
  "same_data (abs_of (node_store early_cluster 1)) (abs_of (node_store early_cluster 3))
    \<and> Get 7 ''a'' ''k'' (node_store early_cluster 1) = Get 7 ''a'' ''k'' (node_store early_cluster 3)"
  using cluster_agrees [OF config_ok_cfg3, of early_acts early_cluster 1 3 7 "''a''" "''k''"] early_acts_ok(2) early_acts_churn(1) early_run
  by (simp add: maxIndex_def early_cluster_def no_expiry_entry_def create_entry_def node_store_def cfg3_sel leader1_more)

end
