(* ===== verification/ClusterReads.thy ===== *)
theory ClusterReads
  imports ClusterProps
begin

text \<open>
  What a client that was told of a successful put can rely on when it reads: the record is found on every
  node that has applied its entry, until a later entry of the log changes the key or the record expires.
\<close>

subsection \<open>The entries that change a key\<close>

text \<open>A put or delete of the key changes it, and so does the expiry of the record with revision \<open>i\<close>.\<close>

definition touches :: "mapKey \<Rightarrow> int64 \<Rightarrow> LogEntry \<Rightarrow> bool" where
  "touches k i e \<longleftrightarrow> (case leOp e of
     Some (LogEntry_Put op) \<Rightarrow> (poNamespace op, poKey op) = k
   | Some (LogEntry_Delete op) \<Rightarrow> (doNamespace op, doKey op) = k
   | Some (LogEntry_ExpireKeys items) \<Rightarrow> (\<exists>item\<in>set items. (ekNamespace item, ekKey item) = k \<and> ekGuardRevision item = i)
   | _ \<Rightarrow> False)"

lemma untouched:
  assumes v: "absKvs a k = Some v" and i: "keRevision v = i" and e: "\<not> touches k i e"
  shows "absKvs (fst (spec_apply now e a)) k = Some v"
proof (cases "leOp e")
  case (Some op)
  then show ?thesis
  proof (cases op)
    case (LogEntry_Put p)
    with v e Some show ?thesis
      by (auto simp: spec_apply_def spec_put_def spec_emit_def touches_def Let_def)
  next
    case (LogEntry_Delete d)
    with v e Some show ?thesis
      by (auto simp: spec_apply_def spec_delete_def spec_emit_def touches_def Let_def split: option.splits)
  next
    case (LogEntry_ExpireKeys items)
    have "\<not> guarded items (absKvs a) k"
      using v i e Some LogEntry_ExpireKeys by (auto simp: guarded_def touches_def)
    with v spec_expire_map [of "leIndex e" items "absKvs a" k] Some LogEntry_ExpireKeys show ?thesis
      by (simp add: spec_apply_def spec_emit_def Let_def case_prod_beta)
  qed (use v Some in \<open>simp_all add: spec_apply_def Let_def case_prod_beta\<close>)
qed (use v in \<open>simp add: spec_apply_def\<close>)

lemma run_spec_Cons: "run_spec ((now, e) # es) a = run_spec es (fst (spec_apply now e a))"
  by (simp add: run_spec_def)

lemma untouched_run:
  assumes "absKvs a k = Some v" and "keRevision v = i" and "\<forall>(now, e)\<in>set es. \<not> touches k i e"
  shows "absKvs (run_spec es a) k = Some v"
  using assms
proof (induction es arbitrary: a)
  case (Cons x es)
  obtain now e where x: "x = (now, e)" by (cases x)
  with Cons.prems have "absKvs (fst (spec_apply now e a)) k = Some v" by (intro untouched) auto
  with Cons.IH [of "fst (spec_apply now e a)"] Cons.prems(2,3) show ?case by (simp add: x run_spec_Cons)
qed (simp add: run_spec_def)

subsection \<open>The entry of a put\<close>

lemma spec_put_succeeds:
  assumes op: "leOp e = Some (LogEntry_Put op)" and a: "ocErr (snd (spec_apply now e a)) = None"
  shows "\<exists>v. absKvs (fst (spec_apply now e a)) (poNamespace op, poKey op) = Some v
    \<and> keValue v = poValue op \<and> keRevision v = leIndex e \<and> keExpireAtMs v = poExpireAtMs op"
  using assms by (auto simp: spec_apply_def spec_put_def spec_emit_def put_entry_def putOutcome_def Let_def split: if_splits)

lemma spec_put_unconditional:
  assumes "leOp e = Some (LogEntry_Put op)" and "poExpectedVersion op < 0"
  shows "ocErr (snd (spec_apply now e a)) = None"
  using assms by (simp add: spec_apply_def spec_put_def cas_ok_def putOutcome_def noOutcome_def Let_def)

lemma run_spec_no_expiry:
  assumes "no_expiry a" and "\<forall>e\<in>set log. no_expiry_entry e"
  shows "no_expiry (run_spec (zip cs log) a)"
  using assms
proof (induction log arbitrary: cs a)
  case (Cons e log)
  show ?case
  proof (cases cs)
    case C: (Cons x cs')
    have "no_expiry (fst (spec_apply x e a))"
      using spec_apply_agree [OF same_data_refl Cons.prems(1), of e x x] Cons.prems(2) by simp
    with Cons.IH [of "fst (spec_apply x e a)" cs'] Cons.prems(2) show ?thesis by (simp add: C run_spec_Cons)
  qed (use Cons.prems in \<open>simp add: run_spec_def\<close>)
qed (simp add: run_spec_def)

text \<open>The outcome of an entry is the same on every node if the put is unconditional or nothing expires.\<close>

lemma same_outcome:
  assumes "answer_of log i r" and op: "leOp (log ! nat (i - 1)) = Some (LogEntry_Put op)"
    and ok: "ocErr r = None" and "poExpectedVersion op < 0 \<or> (\<forall>e\<in>set log. no_expiry_entry e)"
    and len: "int (length ds) = i - 1"
  shows "ocErr (snd (spec_apply now (log ! nat (i - 1)) (run_spec (zip ds log) (abs_of New)))) = None"
proof (cases "poExpectedVersion op < 0")
  case False
  then have quiet: "\<forall>e\<in>set log. no_expiry_entry e" using assms(4) by simp
  obtain cs now' where i: "1 \<le> i" "i \<le> int (length log)" and cs: "int (length cs) = i - 1"
    and r: "r = snd (spec_apply now' (log ! nat (i - 1)) (run_spec (zip cs log) (abs_of New)))"
    using assms(1) by (auto simp: answer_of_def)
  have new: "no_expiry (abs_of New)" by (simp add: no_expiry_def)
  have "same_data (run_spec (zip cs log) (abs_of New)) (run_spec (zip ds log) (abs_of New))"
    using run_spec_agree [OF same_data_refl new quiet, of cs ds] cs len by simp
  from spec_apply_agree [OF this run_spec_no_expiry [OF new quiet], of "log ! nat (i - 1)" now' now]
  show ?thesis using ok r i quiet by simp
qed (rule spec_put_unconditional [OF op])

lemma take_zip1: "take j (zip xs ys) = zip (take j xs) ys"
proof (induction xs arbitrary: j ys)
  case (Cons x xs)
  then show ?case by (cases j; cases ys) simp_all
qed simp

text \<open>The data of a store is what the entry at \<open>i\<close> makes of the entries before it, followed by the later ones.\<close>

lemma replica_split:
  assumes s: "replica log s" and i: "1 \<le> i" "i \<le> rev s"
  obtains ds now es where "int (length ds) = i - 1" "map snd es = drop (nat i) (take (nat (rev s)) log)"
    "same_data (abs_of s)
       (run_spec es (fst (spec_apply now (log ! nat (i - 1)) (run_spec (zip ds log) (abs_of New)))))"
proof -
  let ?j = "nat (i - 1)"
  obtain cs where cs: "int (length cs) = rev s" "length cs \<le> length log"
    "same_data (abs_of s) (run_spec (zip cs log) (abs_of New))"
    using s by (auto simp: replica_def)
  let ?z = "zip cs log" and ?a = "run_spec (zip (take ?j cs) log) (abs_of New)"
  have j: "?j < length ?z" "Suc ?j = nat i" using cs(1,2) i by auto
  then have "?z ! ?j = (cs ! ?j, log ! ?j)" by simp
  then have split: "?z = take ?j ?z @ (cs ! ?j, log ! ?j) # drop (nat i) ?z"
    using id_take_nth_drop [OF j(1)] j(2) by simp
  have "run_spec ?z (abs_of New) = run_spec (drop (nat i) ?z) (fst (spec_apply (cs ! ?j) (log ! ?j) ?a))"
    using arg_cong [OF split, of "\<lambda>z. run_spec z (abs_of New)"] by (simp only: run_spec_append run_spec_Cons take_zip1)
  moreover have "map snd ?z = take (nat (rev s)) log"
    using cs(1,2) by (simp add: map_snd_zip_take flip: cs(1))
  then have "map snd (drop (nat i) ?z) = drop (nat i) (take (nat (rev s)) log)" by (simp only: drop_map [symmetric])
  moreover have "int (length (take ?j cs)) = i - 1" using j(1) i by simp
  ultimately show thesis using that cs(3) by metis
qed

lemma put_on_replica:
  assumes s: "replica log s" and log: "consecutive 0 log" and ans: "answer_of log i r"
    and op: "leOp (log ! nat (i - 1)) = Some (LogEntry_Put op)" and ok: "ocErr r = None"
    and det: "poExpectedVersion op < 0 \<or> (\<forall>e\<in>set log. no_expiry_entry e)"
    and reached: "i \<le> rev s"
    and quiet: "\<forall>e\<in>set (drop (nat i) (take (nat (rev s)) log)). \<not> touches (poNamespace op, poKey op) i e"
  shows "\<exists>v. map_of (kvs s) (poNamespace op, poKey op) = Some v
    \<and> keValue v = poValue op \<and> keRevision v = i \<and> keExpireAtMs v = poExpireAtMs op"
proof -
  have i: "1 \<le> i" "i \<le> int (length log)" using ans by (auto simp: answer_of_def)
  obtain ds now es where ds: "int (length ds) = i - 1" and es: "map snd es = drop (nat i) (take (nat (rev s)) log)"
    and data: "same_data (abs_of s)
       (run_spec es (fst (spec_apply now (log ! nat (i - 1)) (run_spec (zip ds log) (abs_of New)))))"
    by (rule replica_split [OF s i(1) reached])
  have "leIndex (log ! nat (i - 1)) = i" using consecutive_nth [OF log, of "nat (i - 1)"] i by simp
  with spec_put_succeeds [OF op same_outcome [OF ans op ok det ds]] obtain v where
    v: "absKvs (fst (spec_apply now (log ! nat (i - 1)) (run_spec (zip ds log) (abs_of New)))) (poNamespace op, poKey op) = Some v"
    "keValue v = poValue op" "keRevision v = i" "keExpireAtMs v = poExpireAtMs op"
    by auto
  have "\<forall>(now, e)\<in>set es. \<not> touches (poNamespace op, poKey op) i e"
    using quiet unfolding es [symmetric] by auto
  from untouched_run [OF v(1,3) this] data v show ?thesis by (auto simp: same_data_def)
qed

subsection \<open>Properties\<close>



end
