(* ===== verification/ClusterLive.thy ===== *)
theory ClusterLive
  imports ClusterProps
begin

text \<open>
  No run leads into a dead end: whatever has happened, the followers can be connected again and
  brought to the end of the log, and one more write commits everything.
\<close>

subsection \<open>Runs of one action\<close>

lemma on_link_nth: "k < length (cuLinks c) \<Longrightarrow> on_link k f c = f (cuLinks c ! k) c"
  by (simp add: on_link_def)

lemma set_link_sel [simp]:
  "cuLeader (set_link k lk c) = cuLeader c" "cuStores (set_link k lk c) = cuStores c"
  "cuLog (set_link k lk c) = cuLog c" "cuPeers (set_link k lk c) = cuPeers c"
  "length (cuLinks (set_link k lk c)) = length (cuLinks c)"
  "k < length (cuLinks c) \<Longrightarrow> cuLinks (set_link k lk c) ! k = lk"
  by (simp_all add: set_link_def)

text \<open>What the goroutines of other streams and the peer manager do is left open: two clusters have the
  same core if they agree on everything else.\<close>

definition same_core :: "Cluster \<Rightarrow> Cluster \<Rightarrow> bool" where
  "same_core c c' \<longleftrightarrow> cuLeader c' = cuLeader c \<and> cuStores c' = cuStores c \<and> cuLog c' = cuLog c"

lemma disconnect_all:
  "m \<le> length (cuLinks c) \<Longrightarrow> \<exists>c'. cluster_run (map Disconnect [0..<m]) c = Inr c' \<and> same_core c c'
    \<and> length (cuLinks c') = length (cuLinks c) \<and> (\<forall>k<m. \<not> lkReading (cuLinks c' ! k))"
proof (induction m)
  case 0
  then show ?case by (simp add: same_core_def)
next
  case (Suc m)
  then obtain c1 where c1: "cluster_run (map Disconnect [0..<m]) c = Inr c1" "same_core c c1"
    "length (cuLinks c1) = length (cuLinks c)" "\<forall>k<m. \<not> lkReading (cuLinks c1 ! k)" by auto
  let ?c = "set_link m ((cuLinks c1 ! m)\<lparr>lkReading := False\<rparr>) c1"
  have "cluster_run (map Disconnect [0..<Suc m]) c = Inr ?c"
    using c1(1,3) Suc.prems by (simp add: cluster_run_append on_link_nth)
  moreover have "\<not> lkReading (cuLinks ?c ! k)" if "k < Suc m" for k
    using that c1(3,4) Suc.prems by (cases "k = m") (auto simp: set_link_def)
  ultimately show ?case using c1(2,3) by (auto simp: same_core_def)
qed

text \<open>The push goroutine sends what is left of a batch.\<close>

lemma push_batch:
  assumes "k < length (cuLinks c)" and "cuLinks c ! k = lk" and "lkHandler lk \<noteq> HNew" and "lkPush lk = PSend msgs aft"
  shows "cluster_run (replicate (length msgs) (Push k PushGo)) c
    = Inr (set_link k (lk\<lparr>lkPush := PSend [] aft, lkDown := lkDown lk @ msgs\<rparr>) c)"
  using assms
proof (induction msgs arbitrary: c lk)
  case Nil
  then show ?case by (simp add: set_link_def) (metis Cluster.surjective Cluster.update_convs(4) Link.surjective Link.update_convs(2,8) list_update_id append_Nil2)
next
  case (Cons m ms)
  let ?lk = "lk\<lparr>lkPush := PSend ms aft, lkDown := lkDown lk @ [m]\<rparr>"
  have "cluster_step (Push k PushGo) c = Inr (set_link k ?lk c)"
    using Cons.prems by (simp add: on_link_nth push_link_def push_step_def set_link_def)
  moreover have "cluster_run (replicate (length ms) (Push k PushGo)) (set_link k ?lk c)
      = Inr (set_link k (?lk\<lparr>lkPush := PSend [] aft, lkDown := lkDown ?lk @ ms\<rparr>) (set_link k ?lk c))"
    using Cons.prems by (intro Cons.IH) simp_all
  ultimately show ?case by (simp add: set_link_def)
qed

text \<open>A message is handled and its acknowledgement received.\<close>

definition delivering :: "nat \<Rightarrow> int32 \<Rightarrow> AppendEntriesRequest list \<Rightarrow> Cluster \<Rightarrow> bool" where
  "delivering k f msgs c \<longleftrightarrow> k < length (cuLinks c) \<and> (let lk = cuLinks c ! k in lkFid lk = f \<and> lkDown lk = msgs
     \<and> lkUp lk = [] \<and> lkReading lk \<and> lkHandler lk \<noteq> HNew \<and> lkRecv lk = (None, False) \<and> \<not> lkRecvDone lk)"

definition acked :: "Config \<Rightarrow> nat \<Rightarrow> Cluster \<Rightarrow> Cluster \<Rightarrow> bool" where
  "acked cfg n c c' \<longleftrightarrow> cuLog c' = cuLog c \<and> leader_ok cfg n (cuLog c) (cuLeader c')
     \<and> (\<exists>M w. cuLeader c' = (cuLeader c)\<lparr>ldMatch := M, wakeCh := w\<rparr>)
     \<and> (chBuf (wakeCh (cuLeader c)) \<noteq> [] \<longrightarrow> chBuf (wakeCh (cuLeader c')) \<noteq> [])
     \<and> (\<forall>j. MatchOf j (cuLeader c) \<le> MatchOf j (cuLeader c'))"

lemma acked_refl: "leader_ok cfg n (cuLog c) (cuLeader c) \<Longrightarrow> acked cfg n c c"
  by (auto simp: acked_def intro!: exI [of _ "ldMatch (cuLeader c)"] exI [of _ "wakeCh (cuLeader c)"])

lemma acked_trans:
  assumes "acked cfg n a b" and "acked cfg n b c"
  shows "acked cfg n a c"
proof -
  obtain M w N v where "cuLeader b = (cuLeader a)\<lparr>ldMatch := M, wakeCh := w\<rparr>" "cuLeader c = (cuLeader b)\<lparr>ldMatch := N, wakeCh := v\<rparr>"
    using assms unfolding acked_def by blast
  then have "\<exists>M w. cuLeader c = (cuLeader a)\<lparr>ldMatch := M, wakeCh := w\<rparr>" by (intro exI [of _ N] exI [of _ v]) simp
  moreover have "MatchOf j (cuLeader a) \<le> MatchOf j (cuLeader c)" for j
    using assms unfolding acked_def by (meson order_trans)
  moreover have "cuLog b = cuLog a" "cuLog c = cuLog b" "leader_ok cfg n (cuLog b) (cuLeader c)"
    "chBuf (wakeCh (cuLeader a)) \<noteq> [] \<longrightarrow> chBuf (wakeCh (cuLeader c)) \<noteq> []"
    using assms unfolding acked_def by blast+
  ultimately show ?thesis unfolding acked_def by simp
qed

lemma ack_frame:
  assumes "wake_ok (wakeCh l)" and "FollowerAck i index l = Inr l'"
  shows "(\<exists>M w. l' = l\<lparr>ldMatch := M, wakeCh := w\<rparr>) \<and> chBuf (wakeCh l') \<noteq> []"
proof -
  let ?M = "if index > MatchOf i l then AList.update i index (ldMatch l) else ldMatch l"
  have "FollowerAck i index l = wake (l\<lparr>ldMatch := ?M\<rparr>)" by (simp add: FollowerAck_def)
  also have "\<dots> = Inr (l\<lparr>ldMatch := ?M, wakeCh := (wakeCh l)\<lparr>chBuf := [()]\<rparr>\<rparr>)"
    using wake_result [of "l\<lparr>ldMatch := ?M\<rparr>"] assms(1) by simp
  finally have l': "l' = l\<lparr>ldMatch := ?M, wakeCh := (wakeCh l)\<lparr>chBuf := [()]\<rparr>\<rparr>" using assms(2) by simp
  then show ?thesis by (intro conjI exI [of _ ?M] exI [of _ "(wakeCh l)\<lparr>chBuf := [()]\<rparr>"]) simp_all
qed

lemma ack_acked:
  assumes "leader_ok cfg n (cuLog c) (cuLeader c)" and "cuLog c' = cuLog c" and "FollowerAck i index (cuLeader c) = Inr (cuLeader c')"
  shows "acked cfg n c c' \<and> index \<le> MatchOf i (cuLeader c')"
proof -
  let ?l = "cuLeader c"
  have wk: "wake_ok (wakeCh ?l)" using assms(1) by (simp add: leader_ok_def leader_inv_def)
  obtain l' where l': "FollowerAck i index ?l = Inr l'" "leader_ok cfg n (cuLog c) l'"
    "MatchOf i l' = max (MatchOf i ?l) index" "\<forall>j. j \<noteq> i \<longrightarrow> MatchOf j l' = MatchOf j ?l"
    using leader_ok_ack(1) [OF assms(1)] by blast
  have eq: "l' = cuLeader c'" using l'(1) assms(3) by simp
  have frame: "(\<exists>M w. cuLeader c' = ?l\<lparr>ldMatch := M, wakeCh := w\<rparr>) \<and> chBuf (wakeCh (cuLeader c')) \<noteq> []"
    using ack_frame [OF wk assms(3)] .
  have "MatchOf j ?l \<le> MatchOf j l'" for j using l'(3,4) by (cases "j = i") auto
  then show ?thesis using l' frame assms(2) unfolding acked_def eq by auto
qed

lemma cluster_run_round:
  assumes "cluster_run [a, b] c = Inr d"
  shows "cluster_run (concat (replicate (length (m # ms)) [a, b])) c = cluster_run (concat (replicate (length ms) [a, b])) d"
  using assms cluster_run_append [of "[a, b]" "concat (replicate (length ms) [a, b])"] by simp

lemma deliver_batch:
  assumes "leader_ok cfg n (cuLog c) (cuLeader c)" and "delivering k f msgs c"
    and "stream_loop StoreApplier f (received (replicate (length msgs) 0) msgs) (cuStores c f) sent = Inr (st', sent', EndWaiting)"
    and "rev (cuStores c f) = r0 \<or> rev (cuStores c f) \<le> MatchOf f (cuLeader c)"
  shows "\<exists>c'. cluster_run (concat (replicate (length msgs) [Follow k 0 True, Receive k])) c = Inr c'
    \<and> cuStores c' = (cuStores c)(f := st') \<and> acked cfg n c c' \<and> (rev st' = r0 \<or> rev st' \<le> MatchOf f (cuLeader c'))
    \<and> (\<exists>lk. lkFid lk = f \<and> cuLinks c' = (cuLinks c)[k := lk])"
  using assms
proof (induction msgs arbitrary: c sent)
  case Nil
  then show ?case by (auto simp: received_def acked_refl delivering_def Let_def intro!: exI [of _ "cuLinks c ! k"])
next
  case (Cons m ms)
  let ?lk = "cuLinks c ! k"
  have k: "k < length (cuLinks c)" and lk: "lkFid ?lk = f" "lkDown ?lk = m # ms" "lkUp ?lk = []" "lkReading ?lk"
    "lkHandler ?lk \<noteq> HNew" "lkRecv ?lk = (None, False)" "\<not> lkRecvDone ?lk"
    using Cons.prems(2) by (auto simp: delivering_def Let_def)
  obtain q where q: "handle_payload StoreApplier 0 m (cuStores c f) = Inr q"
    using Cons.prems(3) by (auto simp: received_def go_bind_Inr_iff)
  show ?case
  proof (cases q)
    case (Inl e)
    with Cons.prems(3) q have False
      by (auto simp: received_def handle_payload_def Let_def go_bind_Inr_iff split: option.splits AppendEntriesRequest_Payload.splits if_splits)
    then show ?thesis ..
  next
    case (Inr o1)
    show ?thesis
    proof (cases o1)
      case None
      let ?c = "set_link k (?lk\<lparr>lkDown := ms\<rparr>) c"
      have run: "cluster_run [Follow k 0 True, Receive k] c = Inr ?c"
        using k lk q Inr None by (simp add: on_link_nth follow_link_def receive_link_def)
      have "\<exists>c'. cluster_run (concat (replicate (length ms) [Follow k 0 True, Receive k])) ?c = Inr c'
        \<and> cuStores c' = (cuStores ?c)(f := st') \<and> acked cfg n ?c c' \<and> (rev st' = r0 \<or> rev st' \<le> MatchOf f (cuLeader c'))
        \<and> (\<exists>lk. lkFid lk = f \<and> cuLinks c' = (cuLinks ?c)[k := lk])"
        using Cons.prems q Inr None k lk by (intro Cons.IH) (auto simp: delivering_def received_def)
      moreover have "acked cfg n c c'" if "acked cfg n ?c c'" for c' using that by (simp add: acked_def)
      ultimately show ?thesis unfolding cluster_run_round [OF run] by (fastforce simp: set_link_def)
    next
      case (Some st1)
      obtain l1 where l1: "FollowerAck f (rev st1) (cuLeader c) = Inr l1"
        using leader_ok_ack(1) [OF Cons.prems(1)] by blast
      let ?c = "set_link k (?lk\<lparr>lkDown := ms, lkUp := [], lkRecv := (None, False)\<rparr>) (c\<lparr>cuStores := (cuStores c)(f := st1), cuLeader := l1\<rparr>)"
      have run: "cluster_run [Follow k 0 True, Receive k] c = Inr ?c"
        using k lk q Inr Some l1
        by (simp add: on_link_nth follow_link_def receive_link_def recv_step_def ack_def StoreApplier_def
            AppliedRevision_def set_link_def)
      have a: "acked cfg n c ?c \<and> rev st1 \<le> MatchOf f (cuLeader ?c)"
        using ack_acked [OF Cons.prems(1), of ?c f "rev st1"] l1 by simp
      have "\<exists>c'. cluster_run (concat (replicate (length ms) [Follow k 0 True, Receive k])) ?c = Inr c'
        \<and> cuStores c' = (cuStores ?c)(f := st') \<and> acked cfg n ?c c' \<and> (rev st' = r0 \<or> rev st' \<le> MatchOf f (cuLeader c'))
        \<and> (\<exists>lk. lkFid lk = f \<and> cuLinks c' = (cuLinks ?c)[k := lk])"
      proof (rule Cons.IH)
        show "leader_ok cfg n (cuLog ?c) (cuLeader ?c)" using a by (simp add: acked_def)
        show "delivering k f ms ?c" using Cons.prems(2) k by (simp add: delivering_def Let_def)
        show "stream_loop StoreApplier f (received (replicate (length ms) 0) ms) (cuStores ?c f) (sent @ [ack StoreApplier f st1])
            = Inr (st', sent', EndWaiting)" using Cons.prems(3) q Inr Some by (simp add: received_def)
        show "rev (cuStores ?c f) = r0 \<or> rev (cuStores ?c f) \<le> MatchOf f (cuLeader ?c)" using a by simp
      qed
      then obtain c' where c': "cluster_run (concat (replicate (length ms) [Follow k 0 True, Receive k])) ?c = Inr c'"
        "cuStores c' = (cuStores c)(f := st')" "acked cfg n ?c c'" "rev st' = r0 \<or> rev st' \<le> MatchOf f (cuLeader c')"
        "\<exists>lk. lkFid lk = f \<and> cuLinks c' = (cuLinks c)[k := lk]"
        by (auto simp: set_link_def)
      then show ?thesis unfolding cluster_run_round [OF run] using acked_trans [OF _ c'(3)] a by blast
    qed
  qed
qed

text \<open>A follower connects and is brought to the end of the log.\<close>

lemma catch_up_follower:
  assumes ok: "leader_ok cfg n (cuLog c) (cuLeader c)" and f: "f \<noteq> cfgNodeID cfg" "f \<in> members cfg"
    and st: "replica (cuLog c) (cuStores c f)" "rev (cuStores c f) < int (length (cuLog c))"
    and new: "\<forall>lk\<in>set (cuLinks c). lkFid lk = f \<longrightarrow> \<not> lkReading lk"
  shows "\<exists>bs c' st'. cluster_run bs c = Inr c' \<and> acked cfg n c c' \<and> cuStores c' = (cuStores c)(f := st')
    \<and> rev st' = int (length (cuLog c)) \<and> int (length (cuLog c)) \<le> MatchOf f (cuLeader c')
    \<and> (\<exists>lk. lkFid lk = f \<and> cuLinks c' = cuLinks c @ [lk])"
proof -
  let ?l = "cuLeader c" and ?s = "cuStores c f" and ?k = "length (cuLinks c)"
  have idx: "AppliedIndex StoreApplier x = rev x" for x by (simp add: StoreApplier_def AppliedRevision_def)
  have cfg: "ldCfg ?l = cfg" "LastIndex ?l = int (length (cuLog c))" "node_inv ?l" "exportSnapshot ?l \<noteq> None"
    using ok by (auto simp: leader_ok_def)
  obtain addr where addr: "map_of (cfgNodeAddrs cfg) f = Some addr"
    using f(2) unfolding members_def by (metis map_of_eq_None_iff option.exhaust set_map)
  obtain msgs where msgs: "sendCatchup None (rev ?s) ?l = Inr (msgs, True)"
    and loop: "\<And>clks. length clks = length msgs \<Longrightarrow> \<exists>st' acks. stream_loop StoreApplier f (received clks msgs) ?s []
         = Inr (st', acks, EndWaiting) \<and> rev st' = int (length (cuLog c))"
    using store_replica.catchup_ok [OF cfg(3,4), of ?s f "[]"] replica_pos [OF st(1)] cfg(2)
    unfolding idx by fastforce
  obtain st' acks where st': "stream_loop StoreApplier f (received (replicate (length msgs) 0) msgs) ?s []
     = Inr (st', acks, EndWaiting)" "rev st' = int (length (cuLog c))"
    using loop [of "replicate (length msgs) 0"] by auto
  obtain pm ps where pm: "open_stream f (cuPeers c) = (pm, ps)" by (cases "open_stream f (cuPeers c)")
  let ?lk = "\<lparr>lkFid = f, lkDown = [], lkUp = [], lkReading = True, lkHandler = HServing ps, lkRecv = (None, False),
     lkRecvDone = False, lkPush = PSend msgs (ThenRead None)\<rparr>"
  let ?c1 = "c\<lparr>cuPeers := pm, cuLinks := cuLinks c @ [?lk]\<rparr>"
  have "cluster_run [Connect f, Accept ?k, Push ?k PushGo] c = Inr ?c1"
    using f new cfg(1) addr pm msgs replica_pos [OF st(1)]
    by (auto simp: on_link_nth accept_link_def new_link_def ack_def idx set_link_def recv_start_def push_link_def push_step_def)
  moreover let ?c2 = "set_link ?k (?lk\<lparr>lkPush := PSend [] (ThenRead None), lkDown := msgs\<rparr>) ?c1"
  have "cluster_run (replicate (length msgs) (Push ?k PushGo)) ?c1 = Inr ?c2"
    using push_batch [of ?k ?c1 ?lk msgs "ThenRead None"] by simp
  moreover obtain c3 where c3: "cluster_run (concat (replicate (length msgs) [Follow ?k 0 True, Receive ?k])) ?c2 = Inr c3"
    "cuStores c3 = (cuStores c)(f := st')" "acked cfg n ?c2 c3" "rev st' = rev ?s \<or> rev st' \<le> MatchOf f (cuLeader c3)"
    "\<exists>lk. lkFid lk = f \<and> cuLinks c3 = (cuLinks ?c2)[?k := lk]"
    using deliver_batch [of cfg n ?c2 ?k f msgs "[]" st' acks "rev ?s"] ok st'(1) by (auto simp: delivering_def simp del: fun_upd_apply)
  ultimately have "cluster_run ([Connect f, Accept ?k, Push ?k PushGo] @ replicate (length msgs) (Push ?k PushGo)
      @ concat (replicate (length msgs) [Follow ?k 0 True, Receive ?k])) c = Inr c3"
    by (simp only: cluster_run_append go_bind.simps)
  moreover have "acked cfg n c c3" using c3(3) by (simp add: acked_def)
  moreover have "\<exists>lk. lkFid lk = f \<and> cuLinks c3 = cuLinks c @ [lk]" using c3(5) by (auto simp: set_link_def)
  moreover have "int (length (cuLog c)) \<le> MatchOf f (cuLeader c3)" using c3(4) st'(2) st(2) by simp
  ultimately show ?thesis using c3(2) st'(2) by blast
qed

lemma catch_up_all:
  assumes "leader_ok cfg n (cuLog c) (cuLeader c)" and "distinct fs" and "set fs \<subseteq> members cfg - {cfgNodeID cfg}"
    and "\<forall>f\<in>set fs. replica (cuLog c) (cuStores c f) \<and> rev (cuStores c f) < int (length (cuLog c))
       \<and> (\<forall>lk\<in>set (cuLinks c). lkFid lk = f \<longrightarrow> \<not> lkReading lk)"
  shows "\<exists>bs c'. cluster_run bs c = Inr c' \<and> acked cfg n c c' \<and> (\<forall>g. g \<notin> set fs \<longrightarrow> cuStores c' g = cuStores c g)
    \<and> (\<forall>f\<in>set fs. rev (cuStores c' f) = int (length (cuLog c)) \<and> int (length (cuLog c)) \<le> MatchOf f (cuLeader c'))"
  using assms
proof (induction fs arbitrary: c)
  case Nil
  then show ?case by (intro exI [of _ "[]"]) (simp add: acked_refl)
next
  case (Cons f fs)
  have f: "f \<noteq> cfgNodeID cfg" "f \<in> members cfg" "replica (cuLog c) (cuStores c f)" "rev (cuStores c f) < int (length (cuLog c))"
    "\<forall>lk\<in>set (cuLinks c). lkFid lk = f \<longrightarrow> \<not> lkReading lk"
    using Cons.prems(3,4) by auto
  obtain bs c1 st' where c1: "cluster_run bs c = Inr c1" "acked cfg n c c1" "cuStores c1 = (cuStores c)(f := st')"
    "rev st' = int (length (cuLog c))" "int (length (cuLog c)) \<le> MatchOf f (cuLeader c1)"
    and links: "\<exists>lk. lkFid lk = f \<and> cuLinks c1 = cuLinks c @ [lk]"
    using catch_up_follower [OF Cons.prems(1) f] by blast
  have log: "cuLog c1 = cuLog c" "leader_ok cfg n (cuLog c1) (cuLeader c1)" using c1(2) by (simp_all add: acked_def)
  obtain bs' c2 where c2: "cluster_run bs' c1 = Inr c2" "acked cfg n c1 c2" "\<forall>g. g \<notin> set fs \<longrightarrow> cuStores c2 g = cuStores c1 g"
    "\<forall>f\<in>set fs. rev (cuStores c2 f) = int (length (cuLog c)) \<and> int (length (cuLog c)) \<le> MatchOf f (cuLeader c2)"
    using Cons.IH [OF log(2)] Cons.prems(2-4) links unfolding log(1) c1(3) by fastforce
  have "int (length (cuLog c)) \<le> MatchOf f (cuLeader c2)" using c1(5) c2(2) unfolding acked_def by (meson order_trans)
  moreover have "rev (cuStores c2 f) = int (length (cuLog c))" using c2(3) Cons.prems(2) c1(3,4) by simp
  ultimately have "\<forall>f\<in>set (f # fs). rev (cuStores c2 f) = int (length (cuLog c)) \<and> int (length (cuLog c)) \<le> MatchOf f (cuLeader c2)"
    using c2(4) by simp
  moreover have "\<forall>g. g \<notin> set (f # fs) \<longrightarrow> cuStores c2 g = cuStores c g" using c2(3) c1(3) by simp
  moreover have "cluster_run (bs @ bs') c = Inr c2" using c1(1) c2(1) by (simp add: cluster_run_append)
  ultimately show ?case using acked_trans [OF c1(2) c2(2)] by blast
qed

lemma propose_waits: "Propose e l = Inr (l', Inr i) \<Longrightarrow> map_of (waiters l') i = Some i"
  by (auto simp: Propose_def Let_def wake_def notifyReplicators_def notify_def go_bind_Inr_iff update_conv'
      split: if_splits send_outcome.splits)

lemma votes_of_set:
  assumes "F \<subseteq> members cfg - {cfgNodeID cfg}" and "ldCfg l = cfg" and "\<forall>f\<in>F. i \<le> MatchOf f l"
  shows "1 + int (card F) \<le> votes l i"
proof -
  let ?fs = "filter (\<lambda>(nid, addr). nid \<noteq> cfgNodeID cfg \<and> i \<le> MatchOf nid l) (cfgNodeAddrs cfg)"
  have "F \<subseteq> set (map fst ?fs)" using assms(1,3) by (force simp: members_def)
  then have "card F \<le> length (map fst ?fs)" by (meson card_length card_mono finite_set order_trans)
  then show ?thesis by (simp add: votes_def assms(2))
qed

lemma commit_turn:
  assumes ok: "leader_ok cfg n log l" and wake: "chBuf (wakeCh l) \<noteq> []"
    and votes: "needVotes l \<le> votes l (int (length log))" and less: "ldCommit l < int (length log)"
    and wait: "map_of (waiters l) (int (length log)) \<noteq> None"
  shows "\<exists>l' l'' r. commitLoop_turn clk l = Inr (Some l') \<and> ldCommit l' = int (length log)
    \<and> rev (ldState l') = int (length log) \<and> ldCfg l' = cfg
    \<and> propose_select CaseResult (int (length log)) l' = Some (l'', Inr r)"
proof -
  let ?N = "int (length log)" and ?ok = "\<lambda>i. votes l i \<ge> needVotes l"
  have inv: "node_inv l" and last: "LastIndex l = ?N" using ok by (auto simp: leader_ok_def)
  have "find_commit ?ok ?N (ldCommit l) = ?N"
    using find_commit_spec [of "ldCommit l" ?N ?ok] less votes by force
  then obtain l' rs where l': "commitLoop_turn clk l = Inr (Some l')" "node_inv l'" "ldCommit l' = ?N"
    "resChans l' ?N = Some ((make_chan 1)\<lparr>chBuf := [rs ! nat (?N - (ldCommit l + 1))]\<rparr>)"
    using turn_ok [OF inv wake refl, of clk] last less wait by auto
  moreover have "rev (ldState l') = ?N"
    using l'(2,3) by (simp add: leader_inv_def log_inv_def StoreApplier_def AppliedRevision_def)
  moreover have "ldCfg l' = cfg" using turn_frame [OF l'(1)] ok by (simp add: leader_ok_def)
  ultimately show ?thesis by (auto simp: propose_select_def make_chan_def try_recv_def)
qed

text \<open>C7: A majority is enough. Whatever has happened in a cluster, restarts of followers included, as long as the leader has not been
  stopped or restarted, every further proposal can be committed and answered with nobody's help but that of the leader and a set of followers
  that form a majority with it: they connect, are brought to the end of the log with a snapshot or entries, and
  acknowledge. All entries before it are committed with it.\<close>

theorem majority_commits:
  assumes cfg: "config_ok cfg" and acts: "\<forall>a\<in>set as. churn_ok cfg a" and len: "int (length as) + 1 < maxIndex"
    and run: "cluster_run as (new_cluster cfg) = Inr c" and up: "\<not> stopped (cuLeader c)"
    and e: "store_fits (e\<lparr>leIndex := 1\<rparr>)"
    and F: "F \<subseteq> members cfg - {cfgNodeID cfg}" "majority cfg (insert (cfgNodeID cfg) F)"
  shows "\<exists>bs c' i l r. cluster_run (DoPropose e # bs) c = Inr c' \<and> cuLog c' = cuLog c @ [e\<lparr>leIndex := i, leTerm := 1\<rparr>]
    \<and> i = int (length (cuLog c')) \<and> ldCommit (cuLeader c') = i
    \<and> propose_select CaseResult i (cuLeader c') = Some (l, Inr r)
    \<and> insert (cfgNodeID cfg) F \<subseteq> nodes_at c' i \<and> (\<forall>g. g \<notin> F \<longrightarrow> cuStores c' g = cuStores c g)"
proof -
  let ?n = "Suc (length as)" and ?N = "int (length (cuLog c)) + 1"
  have inv: "churn_inv cfg (length as) c" using churn_run [OF cfg acts _ run] len by simp
  note ok = churn_inv_parts(1) [OF inv] churn_inv_parts(2) [OF inv]
  then have last: "LastIndex (cuLeader c) = int (length (cuLog c))" by (simp add: leader_ok_def)
  let ?e = "e\<lparr>leIndex := ?N, leTerm := 1\<rparr>" and ?log = "cuLog c @ [e\<lparr>leIndex := ?N, leTerm := 1\<rparr>]"
  obtain l1 where l1: "Propose e (cuLeader c) = Inr (l1, Inr ?N)" "chBuf (wakeCh l1) \<noteq> []" "ldCommit l1 = ldCommit (cuLeader c)"
  proof -
    have "store_fits (e\<lparr>leIndex := LastIndex (cuLeader c) + 1, leTerm := 1\<rparr>)"
      using e ok(2) len last by (auto simp: store_fits_def log_ok_def)
    moreover have "node_inv (cuLeader c)" using ok(1) by (simp add: leader_ok_def)
    ultimately show thesis using that leader_inv_propose [OF _ up] last by metis
  qed
  have ok1: "leader_ok cfg ?n ?log l1" using leader_ok_propose [OF ok e] l1(1) len by auto
  let ?c1 = "c\<lparr>cuLeader := l1, cuLog := ?log\<rparr>"
  have step: "cluster_step (DoPropose e) c = Inr ?c1" using l1(1) by simp
  obtain c2 where c2: "cluster_run (map Disconnect [0..<length (cuLinks ?c1)]) ?c1 = Inr c2" "same_core ?c1 c2"
    "\<forall>lk\<in>set (cuLinks c2). \<not> lkReading lk"
    using disconnect_all [of "length (cuLinks ?c1)" ?c1] by (metis in_set_conv_nth order_refl)
  have core: "cuLeader c2 = l1" "cuStores c2 = cuStores c" "cuLog c2 = ?log" using c2(2) by (simp_all add: same_core_def)
  obtain fs where fs: "set fs = F" "distinct fs"
    using finite_distinct_list [of F] F(1) unfolding members_def by (meson finite_Diff finite_set finite_subset)
  have rep: "replica ?log (cuStores c f) \<and> rev (cuStores c f) < int (length ?log)" for f
    using churn_inv_parts(3) [OF inv, of f] replica_pos [of "cuLog c" "cuStores c f"] replica_mono by auto
  obtain bs c3 where c3: "cluster_run bs c2 = Inr c3" "acked cfg ?n c2 c3" "\<forall>g. g \<notin> F \<longrightarrow> cuStores c3 g = cuStores c g"
    "\<forall>f\<in>F. rev (cuStores c3 f) = ?N \<and> ?N \<le> MatchOf f (cuLeader c3)"
    using catch_up_all [of cfg ?n c2 fs] ok1 core rep c2(3) fs F(1) by (auto simp: add.commute)
  obtain M w where l3: "cuLeader c3 = l1\<lparr>ldMatch := M, wakeCh := w\<rparr>" "chBuf w \<noteq> []" "leader_ok cfg ?n ?log (cuLeader c3)"
    "cuLog c3 = ?log"
    using c3(2) l1(2) unfolding acked_def core by auto
  have "ldCfg (cuLeader c3) = cfg" using l3(3) by (simp add: leader_ok_def)
  moreover have "Quorum (int (length (cfgNodeAddrs cfg))) \<le> 1 + int (card F)"
  proof -
    have "finite F" using F(1) finite_subset unfolding members_def by blast
    then have "card (insert (cfgNodeID cfg) F) = Suc (card F)" using F(1) by (intro card_insert_disjoint) auto
    then show ?thesis using F(2) card_members [OF cfg] by (simp add: majority_def Quorum_def go_div_nonneg)
  qed
  ultimately have votes: "needVotes (cuLeader c3) \<le> votes (cuLeader c3) (int (length ?log))"
    using votes_of_set [OF F(1), of "cuLeader c3" ?N] c3(4) by (simp add: needVotes_def add.commute)
  have "ldCommit (cuLeader c3) < int (length ?log)"
    using leader_ok_range [OF ok(1)] l1(3) l3(1) by simp
  moreover have "map_of (waiters (cuLeader c3)) (int (length ?log)) \<noteq> None"
    using propose_waits [OF l1(1)] l3(1) by (simp add: algebra_simps)
  ultimately obtain l4 l r where l4: "commitLoop_turn (\<lambda>_. 0) (cuLeader c3) = Inr (Some l4)" "ldCommit l4 = ?N"
    "rev (ldState l4) = ?N" "ldCfg l4 = cfg" "propose_select CaseResult ?N l4 = Some (l, Inr r)"
    using commit_turn [OF l3(3) _ votes, of "\<lambda>_. 0"] l3(1,2) by (auto simp: algebra_simps)
  let ?c4 = "c3\<lparr>cuLeader := l4\<rparr>"
  show ?thesis
  proof (intro exI conjI)
    show "cluster_run (DoPropose e # map Disconnect [0..<length (cuLinks ?c1)] @ bs @ [DoTurn (\<lambda>_. 0)]) c = Inr ?c4"
      unfolding cluster_run.simps step using c2(1) c3(1) l4(1) by (simp add: cluster_run_append)
    show "insert (cfgNodeID cfg) F \<subseteq> nodes_at ?c4 ?N"
      using F(1) c3(4) l4(3,4) cfg by (auto simp: nodes_at_def node_store_def config_ok_def)
    show "cuLog ?c4 = ?log" "?N = int (length (cuLog ?c4))" using l3(4) by simp_all
    show "ldCommit (cuLeader ?c4) = ?N" "propose_select CaseResult ?N (cuLeader ?c4) = Some (l, Inr r)"
      using l4(2,5) by simp_all
    show "\<forall>g. g \<notin> F \<longrightarrow> cuStores ?c4 g = cuStores c g" using c3(3) by simp
  qed
qed

theorem majority_commits_witness:
  "\<exists>bs c'. cluster_run (DoPropose (create_entry 0 0) # bs) early_cluster = Inr c' \<and> ldCommit (cuLeader c') = 2
    \<and> {1, 3} \<subseteq> nodes_at c' 2 \<and> cuStores c' 2 = early_store"
proof -
  have up: "\<not> stopped (cuLeader early_cluster)"
    by (simp add: early_cluster_def leader1_def proposed_def Propose_def leader_eval wake_def notifyReplicators_def notify_def)
  have e: "store_fits ((create_entry 0 0)\<lparr>leIndex := 1\<rparr>)"
    by (simp add: store_fits_def create_entry_def maxIndex_def)
  have F: "{3} \<subseteq> members cfg3 - {cfgNodeID cfg3}" "majority cfg3 (insert (cfgNodeID cfg3) {3})"
    by (simp_all add: members_def cfg3_sel majority_def)
  have log: "length (cuLog early_cluster) = 1" "cuStores early_cluster 2 = early_store" by (simp_all add: early_cluster_def)
  from majority_commits [OF config_ok_cfg3 early_acts_churn(1) _ early_run up e F] obtain bs c' i where
    "cluster_run (DoPropose (create_entry 0 0) # bs) early_cluster = Inr c'" "i = int (length (cuLog c'))"
    "cuLog c' = cuLog early_cluster @ [(create_entry 0 0)\<lparr>leIndex := i, leTerm := 1\<rparr>]" "ldCommit (cuLeader c') = i"
    "insert (cfgNodeID cfg3) {3} \<subseteq> nodes_at c' i" "\<forall>g. g \<notin> {3} \<longrightarrow> cuStores c' g = cuStores early_cluster g"
    using early_acts_ok(2) by (fastforce simp: maxIndex_def)
  moreover from this have "i = 2" using log(1) by simp
  ultimately show ?thesis using log(2) by (auto simp: cfg3_sel intro!: exI [of _ bs] exI [of _ c'])
qed

end
