(* ===== verification/ClusterServices.thy ===== *)
theory ClusterServices
  imports ClusterReads ClusterLive RegistryProps Sweeper
begin

text \<open>
  What an instance that was told of a successful registration can rely on: every node that has applied the
  entry discovers it as long as its lease, with the renewals that the node has applied, runs.
\<close>

subsection \<open>The entries that leave an instance alive\<close>

text \<open>No other registration of the id, renewals beyond \<open>now\<close>, and no expiry that names one of the
  revisions \<open>revs\<close> of the record.\<close>

definition keeps_instance :: "svcKey \<Rightarrow> int64 set \<Rightarrow> int64 \<Rightarrow> LogEntry \<Rightarrow> bool" where
  "keeps_instance k revs now e \<longleftrightarrow> (case leOp e of
     Some (LogEntry_Register op) \<Rightarrow> register_key op \<noteq> k
   | Some (LogEntry_Heartbeat op) \<Rightarrow> (hoNamespace op, hoService op, hoInstanceId op) = k \<longrightarrow>
       leIndex e \<in> revs \<and> (hoNewExpireAtMs op = 0 \<or> now < hoNewExpireAtMs op)
   | Some (LogEntry_ExpireServices items) \<Rightarrow> (\<forall>item\<in>set items.
       (esNamespace item, esService item, esInstanceId item) = k \<longrightarrow> esGuardRevision item \<notin> revs)
   | _ \<Rightarrow> True)"

text \<open>The record of a registration, perhaps renewed, which is alive at \<open>now\<close>.\<close>

definition record_of :: "RegisterOp \<Rightarrow> int64 set \<Rightarrow> int64 \<Rightarrow> instEntry \<Rightarrow> bool" where
  "record_of op revs now x \<longleftrightarrow> ieAddress x = roAddress op \<and> ieMetadata x = cloneMap (roMetadata op)
     \<and> ieRevision x \<in> revs \<and> instAlive now x"

lemma kept_instance:
  assumes x: "absInsts a k = Some x" "record_of op revs now x" and e: "keeps_instance k revs now e"
  shows "\<exists>y. absInsts (fst (spec_apply clk e a)) k = Some y \<and> record_of op revs now y"
proof (cases "leOp e")
  case (Some entry)
  then show ?thesis
  proof (cases entry)
    case (LogEntry_Register p)
    with x e Some show ?thesis by (auto simp: spec_apply_def keeps_instance_def Let_def)
  next
    case (LogEntry_Heartbeat h)
    with x e Some show ?thesis
      by (auto simp: spec_apply_def spec_heartbeat_def keeps_instance_def record_of_def instAlive_def Let_def
          split: option.splits)
  next
    case (LogEntry_ExpireServices items)
    have "\<not> svc_guarded items (absInsts a) k"
      using x e Some LogEntry_ExpireServices by (auto simp: svc_guarded_def keeps_instance_def record_of_def)
    with x Some LogEntry_ExpireServices show ?thesis by (simp add: spec_apply_def Let_def)
  qed (use x Some in \<open>simp_all add: spec_apply_def spec_emit_def Let_def case_prod_beta\<close>)
qed (use x in \<open>simp add: spec_apply_def\<close>)

lemma kept_run:
  assumes "absInsts a k = Some x" and "record_of op revs now x" and "\<forall>(clk, e)\<in>set es. keeps_instance k revs now e"
  shows "\<exists>y. absInsts (run_spec es a) k = Some y \<and> record_of op revs now y"
  using assms
proof (induction es arbitrary: a x)
  case (Cons z es)
  obtain clk e where z: "z = (clk, e)" by (cases z)
  with Cons.prems obtain y where "absInsts (fst (spec_apply clk e a)) k = Some y" "record_of op revs now y"
    using kept_instance by fastforce
  with Cons.IH [of "fst (spec_apply clk e a)" y] Cons.prems(3) show ?case by (simp add: z run_spec_Cons)
qed (auto simp: run_spec_def)

lemma registered_on_replica:
  assumes s: "replica log s" and log: "consecutive 0 log" and ans: "answer_of log i r"
    and op: "leOp (log ! nat (i - 1)) = Some (LogEntry_Register op)"
    and reached: "i \<le> rev s" and revs: "i \<in> revs" and alive: "roExpireAtMs op = 0 \<or> now < roExpireAtMs op"
    and quiet: "\<forall>e\<in>set (drop (nat i) (take (nat (rev s)) log)). keeps_instance (register_key op) revs now e"
  shows "\<exists>x. map_of (instances s) (register_key op) = Some x \<and> record_of op revs now x"
proof -
  have i: "1 \<le> i" "i \<le> int (length log)" using ans by (auto simp: answer_of_def)
  obtain ds clk es where ds: "int (length ds) = i - 1" and es: "map snd es = drop (nat i) (take (nat (rev s)) log)"
    and data: "same_data (abs_of s)
       (run_spec es (fst (spec_apply clk (log ! nat (i - 1)) (run_spec (zip ds log) (abs_of New)))))"
    by (rule replica_split [OF s i(1) reached])
  have "leIndex (log ! nat (i - 1)) = i" using consecutive_nth [OF log, of "nat (i - 1)"] i by simp
  then have x: "absInsts (fst (spec_apply clk (log ! nat (i - 1)) (run_spec (zip ds log) (abs_of New)))) (register_key op)
      = Some (register_entry i op)" "record_of op revs now (register_entry i op)"
    using revs alive by (simp_all add: spec_apply_def op Let_def record_of_def register_entry_def instAlive_def)
  have "\<forall>(clk, e)\<in>set es. keeps_instance (register_key op) revs now e"
    using quiet unfolding es [symmetric] by auto
  from kept_run [OF x this] data show ?thesis by (auto simp: same_data_def)
qed

subsection \<open>Properties\<close>


definition cfg1 :: Config where
  "cfg1 = \<lparr>cfgNodeID = 1, cfgLeaderID = 1, cfgNodeAddrs = [(1, ''a'')], cfgBatchWindow = 0\<rparr>"

definition solo_acts :: "cluster_act list" where
  "solo_acts = [DoPropose (op_entry (LogEntry_Register register_op)), DoTurn (\<lambda>_. 0)]"

text \<open>A cluster of one node commits alone.\<close>

lemma solo_run:
  obtains c l r where "cluster_run solo_acts (new_cluster cfg1) = Inr c"
    "leOp (cuLog c ! 0) = Some (LogEntry_Register register_op)" "length (cuLog c) = 1"
    "propose_select CaseResult 1 (cuLeader c) = Some (l, Inr r)"
proof -
  let ?e = "op_entry (LogEntry_Register register_op)" and ?l = "nodeLeader cfg1 :: Store Leader"
  have ok: "leader_ok cfg1 0 [] ?l" "log_ok 0 []"
    using cluster_inv_new [of cfg1] by (simp_all add: cluster_inv_def new_cluster_def cfg1_def members_def)
  have e: "store_fits (?e\<lparr>leIndex := 1\<rparr>)" by (simp add: store_fits_def op_entry_def maxIndex_def)
  have last: "LastIndex ?l = 0" "\<not> stopped ?l" "ldCommit ?l = 0"
    using ok(1) by (simp_all add: leader_ok_def nodeLeader_def NewLeader_def SetSnapshotExporter_def)
  have "store_fits (?e\<lparr>leIndex := LastIndex ?l + 1, leTerm := 1\<rparr>)"
    using e last(1) by (simp add: store_fits_def)
  moreover have "node_inv ?l" using ok(1) by (simp add: leader_ok_def)
  ultimately obtain l1 where l1: "Propose ?e ?l = Inr (l1, Inr 1)" "chBuf (wakeCh l1) \<noteq> []" "ldCommit l1 = 0"
    using leader_inv_propose [OF _ last(2), of StoreApplier _ store_fits _ ?e] last by fastforce
  let ?log = "[?e\<lparr>leIndex := 1, leTerm := 1\<rparr>]"
  have ok1: "leader_ok cfg1 1 ?log l1" using leader_ok_propose [OF ok e] l1(1) last(1) by (auto simp: maxIndex_def)
  have "ldCfg l1 = cfg1" using ok1 by (simp add: leader_ok_def)
  then have votes: "needVotes l1 \<le> votes l1 (int (length ?log))"
    by (simp add: needVotes_def votes_def Quorum_def cfg1_def go_div_nonneg)
  obtain l2 l r where l2: "commitLoop_turn (\<lambda>_. 0) l1 = Inr (Some l2)" "propose_select CaseResult 1 l2 = Some (l, Inr r)"
    using commit_turn [OF ok1 l1(2) votes, of "\<lambda>_. 0"] l1(3) propose_waits [OF l1(1)] by auto
  let ?c = "(new_cluster cfg1)\<lparr>cuLeader := l2, cuLog := ?log\<rparr>"
  have "cluster_run solo_acts (new_cluster cfg1) = Inr ?c"
    using l1(1) l2(1) by (simp add: solo_acts_def new_cluster_def)
  then show thesis using that [of ?c] l2(2) by (simp add: op_entry_def)
qed


end
