(* ===== verification/ClusterRuns.thy ===== *)
theory ClusterRuns
  imports ClusterProps
begin

text \<open>
  Two runs of a cluster of three nodes that show what replication does not promise: a follower
  shows a write that nobody committed, and a write that a majority holds is not committed.
\<close>

subsection \<open>A write on one follower\<close>

text \<open>C23: A follower can show a write that nobody committed. In a cluster of three nodes a put is pushed to one
  follower, which applies it at once and serves it to every read; the leader has not committed it, reads
  at the leader do not find it, and its proposer is told that the deadline passed. A client that moves
  from one node to another sees the value come and go.\<close>

theorem uncommitted_read:
  "\<exists>c. cluster_run early_acts (new_cluster cfg3) = Inr c \<and> ldCommit (cuLeader c) = 0
    \<and> (\<forall>now. Get now ''a'' ''k'' (node_store c 2) \<noteq> None \<and> Get now ''a'' ''k'' (node_store c 1) = None)
    \<and> (\<exists>l. propose_select (CaseCtxDone DeadlineExceeded) 1 (cuLeader c) = Some (l, Inl (ErrCtx DeadlineExceeded)))"
proof -
  have "Get now ''a'' ''k'' New = None" for now by (simp add: Get_live live_def)
  then show ?thesis
    using early_run early_store_facts(2)
    by (simp add: early_cluster_def node_store_def leader1_facts leader1_more cfg3_sel propose_select_def)
qed

subsection \<open>A write on a majority\<close>

text \<open>No goroutine has anything left to do for the log: the streams that followers read have nothing on
  the way, and no acknowledgement can be received.\<close>

definition settled :: "int64 \<Rightarrow> Link \<Rightarrow> bool" where
  "settled n lk \<longleftrightarrow> lkHandler lk \<noteq> HNew \<and> (lkUp lk = [] \<or> lkRecvDone lk)
     \<and> (lkReading lk \<longrightarrow> lkDown lk = [] \<and> (lkPush lk = PEnded
          \<or> (\<exists>i sentTo. n \<le> sentTo \<and> (lkPush lk = PTail i sentTo \<or> lkPush lk = PCheck i sentTo))))"


definition quiet_act :: "cluster_act \<Rightarrow> bool" where
  "quiet_act a \<longleftrightarrow> (\<forall>e. a \<noteq> DoPropose e) \<and> (\<forall>f. a \<noteq> Connect f) \<and> (\<forall>nid. a \<noteq> Restart nid)"

definition stalled :: "Cluster \<Rightarrow> bool" where
  "stalled c \<longleftrightarrow> (\<forall>lk\<in>set (cuLinks c). settled (int (length (cuLog c))) lk)
     \<and> (\<forall>i. ldCommit (cuLeader c) < i \<longrightarrow> votes (cuLeader c) i < needVotes (cuLeader c))"

lemma stalled_leader:
  assumes "stalled c" and "ldCfg l = ldCfg (cuLeader c)" "ldCommit l = ldCommit (cuLeader c)"
    and "\<forall>f. MatchOf f l \<le> MatchOf f (cuLeader c) \<or> MatchOf f l \<le> ldCommit (cuLeader c)"
  shows "stalled (c\<lparr>cuLeader := l\<rparr>)"
proof -
  have "votes l i \<le> votes (cuLeader c) i" if "ldCommit (cuLeader c) < i" for i
  proof -
    have "i \<le> MatchOf f (cuLeader c)" if "i \<le> MatchOf f l" for f
      using assms(4) that \<open>ldCommit (cuLeader c) < i\<close> by (smt (verit))
    then show ?thesis by (auto simp: votes_def assms(2) intro!: length_filter_le)
  qed
  with assms show ?thesis by (fastforce simp: stalled_def needVotes_def)
qed

lemma stalled_link: "stalled c \<Longrightarrow> settled (int (length (cuLog c))) lk \<Longrightarrow> stalled (set_link k lk c)"
  using set_update_subset_insert [of "cuLinks c" k lk] by (auto simp: stalled_def set_link_def dest!: subsetD)

lemma stalled_peers [simp]: "stalled (c\<lparr>cuPeers := pm\<rparr>) = stalled c"
  by (simp add: stalled_def)

lemma push_step_settled:
  assumes "settled (LastIndex l) lk" and "push_step pc (fst (lkRecv lk)) (lkPush lk) l = Inr (Some (l', i, p, out))"
  shows "settled (LastIndex l) (lk\<lparr>lkRecv := (i, snd (lkRecv lk)), lkPush := p, lkDown := lkDown lk @ out\<rparr>)"
proof (cases "lkReading lk")
  case False
  with assms(1) show ?thesis by (simp add: settled_def)
next
  case True
  with assms(1) consider (ended) "lkPush lk = PEnded"
    | (tail) j s where "lkPush lk = PTail j s" "LastIndex l \<le> s" | (check) j s where "lkPush lk = PCheck j s" "LastIndex l \<le> s"
    by (auto simp: settled_def)
  then show ?thesis
  proof cases
    case ended
    with assms show ?thesis by (simp add: push_step_def)
  next
    case tail
    with assms show ?thesis
      by (auto simp: push_step_def settled_def split: push_case.splits prod.splits if_splits)
  next
    case check
    with assms show ?thesis by (auto simp: push_step_def settled_def Let_def)
  qed
qed

lemma stalled_step:
  assumes inv: "cluster_inv cfg n c" and st: "stalled c" and a: "quiet_act a" and run: "cluster_step a c = Inr c'"
    and n: "int n + 1 < maxIndex"
  shows "stalled c' \<and> ldCommit (cuLeader c') = ldCommit (cuLeader c)"
proof -
  let ?l = "cuLeader c" and ?n = "int (length (cuLog c))"
  have ok: "leader_ok cfg n (cuLog c) ?l" and last: "LastIndex ?l = ?n" and cfg: "ldCfg ?l = cfg"
    using inv by (auto simp: cluster_inv_def leader_ok_def)
  note range = leader_ok_range [OF ok]
  have nth: "settled ?n (cuLinks c ! k)" if "k < length (cuLinks c)" for k
    using st that by (simp add: stalled_def)
  show ?thesis
  proof (cases a)
    case (DoSelect pc index)
    show ?thesis
    proof (cases "propose_select pc index ?l")
      case None
      with DoSelect run st show ?thesis by simp
    next
      case (Some q)
      obtain l r where q: "q = (l, r)" by (cases q)
      have "leader_ok cfg n (cuLog c) l \<and> ldMatch l = ldMatch ?l \<and> ldCommit l = ldCommit ?l"
        using leader_ok_select [OF ok] Some q by blast
      then have "stalled (c\<lparr>cuLeader := l\<rparr>)" "ldCommit l = ldCommit ?l"
        using cfg by (auto intro!: stalled_leader [OF st] simp: MatchOf_def leader_ok_def)
      with DoSelect run Some q show ?thesis by auto
    qed
  next
    case (DoTurn clk)
    obtain r where r: "commitLoop_turn clk ?l = Inr r" "case r of None \<Rightarrow> True
      | Some l' \<Rightarrow> leader_ok cfg n (cuLog c) l' \<and> ldMatch l' = ldMatch ?l \<and> ldCommit ?l \<le> ldCommit l'
          \<and> (ldCommit l' = ldCommit ?l \<or> needVotes ?l \<le> votes ?l (ldCommit l'))"
      using leader_ok_turn [OF ok] inv unfolding cluster_inv_def by blast
    show ?thesis
    proof (cases r)
      case None
      with DoTurn run r(1) st show ?thesis by simp
    next
      case (Some l)
      have "ldCommit l = ldCommit ?l"
        using r(2) Some st unfolding stalled_def by (simp add: not_less) (metis linorder_not_less order_le_less)
      then have "stalled (c\<lparr>cuLeader := l\<rparr>)" "ldCommit l = ldCommit ?l"
        using cfg r(2) Some by (auto intro!: stalled_leader [OF st] simp: MatchOf_def leader_ok_def)
      with DoTurn run r(1) Some show ?thesis by auto
    qed
  next
    case DoStop
    obtain l where "Stop ?l = Inr l" "leader_ok cfg n (cuLog c) l" "ldMatch l = ldMatch ?l" "ldCommit l = ldCommit ?l"
      using leader_ok_stop [OF ok] by blast
    moreover from this have "stalled (c\<lparr>cuLeader := l\<rparr>)"
      using cfg by (auto intro!: stalled_leader [OF st] simp: MatchOf_def leader_ok_def)
    ultimately show ?thesis using DoStop run by auto
  next
    case (Accept k)
    have "accept_link k lk c = c" if "settled ?n lk" for lk
      using that by (auto simp: settled_def accept_link_def split: stream_handler.splits)
    with Accept run st nth show ?thesis by (auto simp: on_link_def split: if_splits)
  next
    case (Receive k)
    have "receive_link k lk c = Inr c" if "settled ?n lk" for lk
      using that by (auto simp: settled_def receive_link_def split: list.splits)
    with Receive run st nth show ?thesis by (auto simp: on_link_def split: if_splits)
  next
    case (ReceiveFails k)
    have "stalled (set_link k (lk\<lparr>lkRecvDone := True\<rparr>) c)" if "settled ?n lk" for lk
      using that by (intro stalled_link [OF st]) (simp add: settled_def)
    with ReceiveFails run st nth show ?thesis by (auto simp: on_link_def set_link_def split: if_splits)
  next
    case (Push k pc)
    show ?thesis
    proof (cases "k < length (cuLinks c)")
      case False
      with Push run st show ?thesis by (simp add: on_link_def)
    next
      case True
      let ?lk = "cuLinks c ! k"
      have lk: "settled (LastIndex ?l) ?lk" "lkHandler ?lk \<noteq> HNew" using nth [OF True] last by (simp_all add: settled_def)
      have "phase_ok (cuLog c) (lkPush ?lk)" "\<forall>i. fst (lkRecv ?lk) = Some i \<longrightarrow> 0 \<le> i \<and> i \<le> ?n"
        using link_of [OF inv True] position_ok [OF inv, of "lkFid ?lk"] by (auto simp: link_ok_def)
      from push_step_ok [OF ok this(1) n this(2)] obtain r where
        r: "push_step pc (fst (lkRecv ?lk)) (lkPush ?lk) ?l = Inr r" "push_ok cfg n (cuLog c) ?l (fst (lkRecv ?lk)) r"
        by blast
      show ?thesis
      proof (cases r)
        case None
        with Push run True r(1) lk(2) st show ?thesis by (simp add: on_link_def push_link_def)
      next
        case (Some q)
        obtain l i p out where q: "q = (l, i, p, out)" by (cases q) auto
        have l: "leader_ok cfg (Suc n) (cuLog c) l" "ldMatch l = ldMatch ?l" "ldCommit l = ldCommit ?l"
          using r(2) by (auto simp: push_ok_def Some q)
        then have "stalled (c\<lparr>cuLeader := l\<rparr>)"
          using cfg by (auto intro!: stalled_leader [OF st] simp: MatchOf_def leader_ok_def)
        moreover have "settled ?n (?lk\<lparr>lkRecv := (i, snd (lkRecv ?lk)), lkPush := p, lkDown := lkDown ?lk @ out\<rparr>)"
          using push_step_settled [OF lk(1)] r(1) last by (simp add: Some q)
        ultimately have "stalled (set_link k (?lk\<lparr>lkRecv := (i, snd (lkRecv ?lk)), lkPush := p, lkDown := lkDown ?lk @ out\<rparr>) (c\<lparr>cuLeader := l\<rparr>))"
          by (intro stalled_link) simp_all
        with Push run True r(1) lk(2) l(3) show ?thesis
          by (auto simp: on_link_def push_link_def Some q set_link_def)
      qed
    qed
  next
    case (Follow k now sends)
    have "follow_link k now sends lk c = Inr c" if "settled ?n lk" for lk
      using that by (auto simp: settled_def follow_link_def split: list.splits)
    with Follow run st nth show ?thesis by (auto simp: on_link_def split: if_splits)
  next
    case (Disconnect k)
    have "stalled (set_link k (lk\<lparr>lkReading := False\<rparr>) c)" if "settled ?n lk" for lk
      using that by (intro stalled_link [OF st]) (simp add: settled_def)
    with Disconnect run st nth show ?thesis by (auto simp: on_link_def set_link_def split: if_splits)
  next
    case (Close k)
    show ?thesis
    proof (cases "k < length (cuLinks c)")
      case False
      with Close run st show ?thesis by (simp add: on_link_def)
    next
      case True
      let ?lk = "cuLinks c ! k"
      obtain l where l: "FollowerReset (lkFid ?lk) ?l = Inr l" "leader_ok cfg n (cuLog c) l" "ldCommit l = ldCommit ?l"
        "MatchOf (lkFid ?lk) l = 0" "\<forall>j. j \<noteq> lkFid ?lk \<longrightarrow> MatchOf j l = MatchOf j ?l"
        using leader_ok_ack(2) [OF ok, of "lkFid ?lk"] by blast
      have "MatchOf f l \<le> MatchOf f ?l \<or> MatchOf f l \<le> ldCommit ?l" for f
        using l(4,5) range by (cases "f = lkFid ?lk") auto
      then have "stalled (c\<lparr>cuLeader := l\<rparr>)"
        using cfg l(2,3) by (auto intro!: stalled_leader [OF st] simp: leader_ok_def)
      then have base: "stalled (c\<lparr>cuPeers := pm, cuLeader := l\<rparr>)" "stalled (c\<lparr>cuPeers := pm, cuLeader := ?l\<rparr>)" for pm
        using st by (simp_all add: stalled_def)
      have closed: "settled ?n (?lk\<lparr>lkHandler := HClosed\<rparr>)" using nth [OF True] by (simp add: settled_def)
      have "stalled (set_link k (?lk\<lparr>lkHandler := HClosed\<rparr>) (c\<lparr>cuPeers := pm, cuLeader := l\<rparr>))"
        "stalled (set_link k (?lk\<lparr>lkHandler := HClosed\<rparr>) (c\<lparr>cuPeers := pm, cuLeader := ?l\<rparr>))" for pm
        using base [of pm] closed by (auto intro!: stalled_link)
      with Close run True l(1,3) st stalled_link [OF st closed, of k] show ?thesis
        by (auto simp: on_link_def close_link_def close_stream_def set_link_def split: stream_handler.splits if_splits)
    qed
  qed (use a in \<open>auto simp: quiet_act_def\<close>)
qed

lemma stalled_run:
  assumes "cluster_inv cfg n c" and "stalled c" and "\<forall>a\<in>set as. quiet_act a" and "int n + int (length as) < maxIndex"
  shows "\<exists>c'. cluster_run as c = Inr c' \<and> ldCommit (cuLeader c') = ldCommit (cuLeader c)"
  using assms
proof (induction as arbitrary: n c)
  case (Cons a as)
  have "act_ok a" using Cons.prems(3) by (simp add: act_ok_def quiet_act_def)
  then obtain c1 where c1: "cluster_step a c = Inr c1" "cluster_inv cfg (Suc n) c1"
    using cluster_step_good [OF Cons.prems(1)] Cons.prems(4) by (auto simp: good_step_def)
  moreover have "stalled c1 \<and> ldCommit (cuLeader c1) = ldCommit (cuLeader c)"
    using stalled_step [OF Cons.prems(1,2) _ c1(1)] Cons.prems(3,4) by simp
  ultimately show ?case using Cons.IH [OF c1(2)] Cons.prems(3,4) by auto
qed simp

text \<open>The stream ends before the acknowledgement is read; the follower connects again, and its position
  is the first message of the new stream.\<close>

definition lost_acts :: "cluster_act list" where
  "lost_acts = [Disconnect 0, ReceiveFails 0, Close 0, Connect 2, Accept 1, Push 1 PushGo, Push 1 PushGo,
     Push 1 PushGo, Push 1 PushGo]"

definition lost_leader :: "Store Leader" where
  "lost_leader = leader1\<lparr>ldMatch := [(2, 0)], ping := \<lparr>bcSubs = [(1, make_chan 1)], bcSeq = 1\<rparr>\<rparr>"

definition lost_cluster :: Cluster where
  "lost_cluster = \<lparr>cuLeader = lost_leader, cuPeers = \<lparr>pmPeers = [(2, 1)], pmNext = 2\<rparr>,
     cuStores = (\<lambda>_. New)(2 := early_store),
     cuLinks = [early_link\<lparr>lkReading := False, lkRecvDone := True, lkHandler := HClosed\<rparr>,
       \<lparr>lkFid = 2, lkDown = [], lkUp = [], lkReading = True, lkHandler = HServing 1, lkRecv = (None, False),
        lkRecvDone = False, lkPush = PTail 1 1\<rparr>],
     cuLog = [create_entry 1 0]\<rparr>"

lemma lost_run: "cluster_run lost_acts early_cluster = Inr lost_cluster"
proof -
  have ack1: "ack StoreApplier 2 early_store = \<lparr>arFollowerId = 2, arAckIndex = 1, arSuccess = True\<rparr>"
    by (simp add: ack_def StoreApplier_def AppliedRevision_def early_store_facts)
  have reset: "FollowerReset 2 leader1 = Inr (leader1\<lparr>ldMatch := [(2, 0)]\<rparr>)"
    by (simp add: FollowerReset_def wake_def leader1_facts)
  let ?l = "leader1\<lparr>ldMatch := [(2, 0)]\<rparr>"
  have catchup: "sendCatchup None 1 ?l = Inr ([], True)" "LastIndex ?l = 1"
    by (simp_all add: sendCatchup_def Catchup_def leader1_facts send_all_def slice_from_def LastIndex_def)
  have sub: "SubscribeEntries ?l = (lost_leader, 1)"
    by (cases "ping leader1") (use leader1_more in
      \<open>simp add: SubscribeEntries_def subscribe_def lost_leader_def add64_def wrap64_def\<close>)
  show ?thesis
    by (simp add: lost_acts_def early_cluster_def early_link_def on_link_def set_link_def close_link_def
        close_stream_def reset new_link_def ack1 accept_link_def leader1_facts cfg3_sel open_stream_def
        recv_start_def push_link_def push_step_def catchup sub lost_cluster_def)
qed

text \<open>C24: A write that a majority holds may stay uncommitted. A put is in the log of the leader and applied on one
  of two followers, but the stream breaks before the acknowledgement is read. The follower connects
  again at the end of the log; the leader takes this position as the start of the catch-up, does not count
  it as an acknowledgement, has nothing to send, and so gets none. Whatever happens then, short of a new
  proposal or a new connection, the put is never committed.\<close>

theorem lost_ack_stalls:
  "\<exists>c. cluster_run (early_acts @ lost_acts) (new_cluster cfg3) = Inr c
    \<and> LastIndex (cuLeader c) = 1 \<and> rev (node_store c 2) = 1 \<and> ldCommit (cuLeader c) = 0
    \<and> (\<forall>as. list_all quiet_act as \<and> length as < 2 ^ 50 \<longrightarrow>
         (\<exists>c'. cluster_run as c = Inr c' \<and> ldCommit (cuLeader c') = 0))"
proof -
  have run: "cluster_run (early_acts @ lost_acts) (new_cluster cfg3) = Inr lost_cluster"
    by (simp add: cluster_run_append early_run lost_run)
  have acts: "\<forall>a\<in>set (early_acts @ lost_acts). act_ok a"
    by (auto simp: early_acts_def lost_acts_def act_ok_def store_fits_def create_entry_def maxIndex_def)
  have len: "length (early_acts @ lost_acts) = 15" by (simp add: early_acts_def lost_acts_def)
  have inv: "cluster_inv cfg3 15 lost_cluster"
    using run_inv [OF config_ok_cfg3 acts _ run] unfolding len by (simp add: maxIndex_def)
  have facts: "ldCommit lost_leader = 0" "LastIndex lost_leader = 1" "ldCfg lost_leader = cfg3" "ldMatch lost_leader = [(2, 0)]"
    by (simp_all add: lost_leader_def leader1_facts LastIndex_def)
  have "votes lost_leader i < needVotes lost_leader" if "0 < i" for i
    using that by (simp add: votes_def needVotes_def facts cfg3_sel MatchOf_def Quorum_def go_div_def)
  then have "stalled lost_cluster"
    by (simp add: stalled_def lost_cluster_def facts settled_def early_link_def)
  from stalled_run [OF inv this] have "\<exists>c'. cluster_run as lost_cluster = Inr c' \<and> ldCommit (cuLeader c') = 0"
    if "list_all quiet_act as" "length as < 2 ^ 50" for as
    using that facts(1) by (simp add: list_all_iff maxIndex_def lost_cluster_def)
  with run show ?thesis
    by (intro exI [of _ lost_cluster])
      (simp add: lost_cluster_def facts node_store_def cfg3_sel early_store_facts)
qed

theorem lost_ack_stalls_witness:
  "\<exists>c. cluster_run (early_acts @ lost_acts) (new_cluster cfg3) = Inr c
    \<and> (\<exists>c'. cluster_run [DoTurn (\<lambda>_. 0), Push 1 PushGo, Receive 1] c = Inr c' \<and> ldCommit (cuLeader c') = 0)"
proof -
  have "list_all quiet_act [DoTurn (\<lambda>_. 0), Push 1 PushGo, Receive 1]" by (simp add: quiet_act_def)
  with lost_ack_stalls show ?thesis by fastforce
qed

end
