(* ===== verification/ClusterRestart.thy ===== *)
theory ClusterRestart
  imports ClusterLive
begin

text \<open>
  What a restart of a process does to a cluster: the nodes keep everything in memory, and the leader
  trusts what a follower acknowledged before.
\<close>

subsection \<open>A follower restarts\<close>

text \<open>Node 2 acknowledges an entry, restarts, and connects again before the handler of its old stream
  returns. The handler finds that it was replaced and does not reset the acknowledgement.\<close>

definition stale_acts :: "cluster_act list" where
  "stale_acts = [Receive 0, Restart 2, Connect 2, Accept 1, ReceiveFails 0, Close 0, DoTurn (\<lambda>_. 0)]"

lemma acked_run: "cluster_run (early_acts @ [Receive 0]) (new_cluster cfg3)
    = Inr (early_cluster\<lparr>cuLeader := leader2, cuLinks := [early_link\<lparr>lkUp := []\<rparr>]\<rparr>)"
  by (simp add: cluster_run_append early_run on_link_def early_cluster_def early_link_def receive_link_def recv_step_def
      ack_def StoreApplier_def AppliedRevision_def early_store_facts leader2_ack set_link_def)

lemma acked_turn:
  obtains l l' r where "commitLoop_turn (\<lambda>_. 0) leader2 = Inr (Some l)" "rev (ldState l) = 1" "ldCfg l = cfg3"
    "propose_select CaseResult 1 l = Some (l', Inr r)"
proof -
  have acts: "\<forall>a\<in>set (early_acts @ [Receive 0]). act_ok a" using early_acts_ok(1) by (auto simp: act_ok_def)
  have "leader_ok cfg3 7 [create_entry 1 0] leader2"
    using run_inv [OF config_ok_cfg3 acts _ acked_run] early_acts_ok(2)
    by (simp add: maxIndex_def cluster_inv_def early_cluster_def)
  from commit_turn [OF this, of "\<lambda>_. 0"] show ?thesis
    using that by (auto simp: leader2_facts leader_votes)
qed

lemma stale_run:
  obtains l l' r c where "rev (ldState l) = 1" "ldCfg l = cfg3" "propose_select CaseResult 1 l = Some (l', Inr r)"
    "cluster_run (early_acts @ stale_acts) (new_cluster cfg3) = Inr c" "cuLeader c = l" "cuStores c = (\<lambda>_. New)"
    "lkHandler (cuLinks c ! 0) = HClosed" "lkRecv (cuLinks c ! 1) = (Some 0, False)"
proof -
  obtain l l' r where l: "commitLoop_turn (\<lambda>_. 0) leader2 = Inr (Some l)" "rev (ldState l) = 1" "ldCfg l = cfg3"
    "propose_select CaseResult 1 l = Some (l', Inr r)"
    by (rule acked_turn)
  have cfg: "ldCfg leader2 = cfg3" by (simp add: leader2_eq leader1_facts)
  have new: "ack StoreApplier 2 New = \<lparr>arFollowerId = 2, arAckIndex = 0, arSuccess = True\<rparr>"
    "(\<lambda>_. New)(2 := New) = (\<lambda>_::int32. New)"
    by (auto simp: ack_def StoreApplier_def AppliedRevision_def)
  have "cluster_run (early_acts @ stale_acts) (new_cluster cfg3) = cluster_run (tl stale_acts)
      (early_cluster\<lparr>cuLeader := leader2, cuLinks := [early_link\<lparr>lkUp := []\<rparr>]\<rparr>)"
    using acked_run by (simp add: stale_acts_def cluster_run_append go_bind_Inr_iff early_run)
  also have "\<exists>c. \<dots> = Inr c \<and> cuLeader c = l \<and> cuStores c = (\<lambda>_. New)
      \<and> lkHandler (cuLinks c ! 0) = HClosed \<and> lkRecv (cuLinks c ! 1) = (Some 0, False)"
    by (simp add: stale_acts_def early_cluster_def early_link_def on_link_def l(1) set_link_def restart_node_def cfg cfg3_sel
        new_link_def new accept_link_def open_stream_def recv_start_def close_link_def close_stream_def)
  finally show ?thesis using that l by blast
qed

text \<open>C25: A restart of a follower leaves its acknowledgements in force. Node 2 of three acknowledges a put and
  restarts; its new stream is open and has told the leader that it is at position 0, and the handler of the
  old stream has returned; still the leader counts the old acknowledgement, commits the put and answers
  its proposer, although no other node has it.\<close>

theorem restart_stale_ack:
  "\<exists>c l r. cluster_run (early_acts @ stale_acts) (new_cluster cfg3) = Inr c
    \<and> lkHandler (cuLinks c ! 0) = HClosed \<and> lkRecv (cuLinks c ! 1) = (Some 0, False)
    \<and> propose_select CaseResult 1 (cuLeader c) = Some (l, Inr r)
    \<and> nodes_at c 1 = {1} \<and> \<not> majority cfg3 (nodes_at c 1)"
proof -
  obtain l l' r c where "rev (ldState l) = 1" "ldCfg l = cfg3" "propose_select CaseResult 1 l = Some (l', Inr r)"
    "cluster_run (early_acts @ stale_acts) (new_cluster cfg3) = Inr c" "cuLeader c = l" "cuStores c = (\<lambda>_. New)"
    "lkHandler (cuLinks c ! 0) = HClosed" "lkRecv (cuLinks c ! 1) = (Some 0, False)"
    by (rule stale_run)
  moreover from this have "nodes_at c 1 = {1}"
    by (auto simp: nodes_at_def node_store_def members_def cfg3_sel)
  ultimately show ?thesis by (auto simp: majority_def members_def cfg3_sel)
qed

subsection \<open>The leader restarts\<close>

text \<open>C26: A restart of the leader is fatal while a follower remembers. After any run in which some follower has applied
  an entry, the leader that restarts has an empty log; as soon as this follower connects again with its
  position, the push goroutine slices the log beyond its end and the leader process panics. This repeats
  at each further restart, until the follower is restarted, too, and the data is gone.\<close>

theorem leader_restart_fatal:
  assumes "config_ok cfg" and "\<forall>a\<in>set as. churn_ok cfg a" and "int (length as) < maxIndex"
    and "cluster_run as (new_cluster cfg) = Inr c"
    and "f \<in> members cfg - {cfgNodeID cfg}" and "0 < rev (cuStores c f)"
  shows "\<exists>bs k c'. cluster_run (Restart (cfgNodeID cfg) # bs @ [Connect f, Accept k]) c = Inr c'
    \<and> cluster_step (Push k PushGo) c' = Inl PanicSliceBounds"
proof -
  have inv: "churn_inv cfg (length as) c" using churn_run [OF assms(1-4)] .
  let ?l = "nodeLeader cfg :: Store Leader" and ?k = "length (cuLinks c)"
  let ?c1 = "restart_node (cfgNodeID cfg) c"
  have c1: "cuLeader ?c1 = ?l" "cuStores ?c1 = cuStores c" "length (cuLinks ?c1) = ?k"
    using churn_inv_cfg [OF inv] by (simp_all add: restart_node_def)
  obtain c2 where c2: "cluster_run (map Disconnect [0..<?k]) ?c1 = Inr c2" "same_core ?c1 c2"
    "length (cuLinks c2) = ?k" "\<forall>lk\<in>set (cuLinks c2). \<not> lkReading lk"
    using disconnect_all [of ?k ?c1] c1(3) by (metis in_set_conv_nth order_refl)
  have core: "cuLeader c2 = ?l" "cuStores c2 = cuStores c" "ldCfg ?l = cfg" "compactIndex ?l = 0" "ldLog ?l = []"
    using c2(2) c1 by (simp_all add: same_core_def nodeLeader_def SetSnapshotExporter_def NewLeader_def)
  have catchup: "sendCatchup None (rev (cuStores c f)) ?l = Inl PanicSliceBounds"
    using assms(6) by (simp add: sendCatchup_def Catchup_def core slice_from_def)
  have f: "f \<noteq> cfgNodeID cfg" "map_of (cfgNodeAddrs cfg) f \<noteq> None"
    using assms(5) by (auto simp: members_def map_of_eq_None_iff)
  obtain pm ps where pm: "open_stream f (cuPeers c2) = (pm, ps)" by (cases "open_stream f (cuPeers c2)")
  let ?lk = "\<lparr>lkFid = f, lkDown = [], lkUp = [], lkReading = True, lkHandler = HServing ps,
     lkRecv = (Some (rev (cuStores c f)), False), lkRecvDone = False, lkPush = PWait\<rparr>"
  let ?c3 = "c2\<lparr>cuPeers := pm, cuLinks := cuLinks c2 @ [?lk]\<rparr>"
  have "cluster_run [Connect f, Accept ?k] c2 = Inr ?c3"
    unfolding c2(3) [symmetric]
    using f c2(4) core pm assms(6)
    by (auto simp: on_link_nth accept_link_def new_link_def ack_def StoreApplier_def AppliedRevision_def set_link_def recv_start_def)
  then have "cluster_run (Restart (cfgNodeID cfg) # map Disconnect [0..<?k] @ [Connect f, Accept ?k]) c = Inr ?c3"
    using c2(1) by (simp add: cluster_run_append)
  moreover have "cluster_step (Push ?k PushGo) ?c3 = Inl PanicSliceBounds"
    unfolding c2(3) [symmetric]
    using core catchup by (simp add: on_link_nth push_link_def push_step_def)
  ultimately show ?thesis by blast
qed

theorem leader_restart_fatal_witness:
  "\<exists>bs k c'. cluster_run (Restart 1 # bs @ [Connect 2, Accept k]) early_cluster = Inr c'
    \<and> cluster_step (Push k PushGo) c' = Inl PanicSliceBounds"
  using leader_restart_fatal [OF config_ok_cfg3 early_acts_churn(1) _ early_run, of 2] early_acts_ok(2)
  by (simp add: maxIndex_def members_def cfg3_sel early_cluster_def early_store_facts)

end
