(* ===== verification/InstancesServe.thy ===== *)
theory InstancesServe
  imports ServeGaps
begin

text \<open>
  What a client of \<open>WatchInstances\<close> can know: the ids that it gets by applying the responses in order
  are, while it is subscribed and has received everything, the registered ids of the service
  without those that its last snapshot left out because their lease had run out.
\<close>

subsection \<open>Registered ids and the changes of a log entry\<close>

definition registered_ids :: "string \<Rightarrow> string \<Rightarrow> Store \<Rightarrow> string set" where
  "registered_ids ns service s = {iid. map_of (instances s) (ns, service, iid) \<noteq> None}"

definition expired_ids :: "(svcKey \<Rightarrow> int64) \<Rightarrow> string \<Rightarrow> string \<Rightarrow> Store \<Rightarrow> string set" where
  "expired_ids clk ns service s = {iid. \<exists>e. map_of (instances s) (ns, service, iid) = Some e
     \<and> \<not> instAlive (clk (ns, service, iid)) e}"

definition ids :: "Instance list \<Rightarrow> string set" where
  "ids ins = inInstanceId ` set ins"

definition change_step :: "string set \<Rightarrow> ServiceChange \<Rightarrow> string set" where
  "change_step V c = (V - ids (scRemoved c)) \<union> ids (scAdded c)"

definition view_step :: "string set \<Rightarrow> DiscoverResponse \<Rightarrow> string set" where
  "view_step V r = (if dpIncremental r then (V - ids (dpRemoved r)) \<union> ids (dpAdded r) else ids (dpInstances r))"

definition client_view :: "DiscoverResponse list \<Rightarrow> string set" where
  "client_view rs = foldl view_step {} rs"

lemma client_view_snoc:
  "client_view (rs @ [snapshot_response ins s]) = ids ins"
  "client_view (rs @ [change_response c s]) = change_step (client_view rs) c"
  by (simp_all add: client_view_def view_step_def snapshot_response_def change_response_def change_step_def)

lemma ids_discover:
  assumes "gomap_ok (instances s)"
  shows "ids (discoverLocked clk ns service s) = registered_ids ns service s - expired_ids clk ns service s"
proof -
  have mem: "x \<in> set (discoverLocked clk ns service s) \<longleftrightarrow> (\<exists>iid e. map_of (instances s) (ns, service, iid) = Some e
       \<and> instAlive (clk (ns, service, iid)) e \<and> x = instToPB ns service iid e)" for x
    using discoverLocked_mem [OF assms] .
  have "iid \<in> ids (discoverLocked clk ns service s)
      \<longleftrightarrow> (\<exists>e. map_of (instances s) (ns, service, iid) = Some e \<and> instAlive (clk (ns, service, iid)) e)" for iid
  proof
    assume "iid \<in> ids (discoverLocked clk ns service s)"
    then show "\<exists>e. map_of (instances s) (ns, service, iid) = Some e \<and> instAlive (clk (ns, service, iid)) e"
      unfolding ids_def image_iff Bex_def mem by (auto simp: instToPB_def)
  next
    assume "\<exists>e. map_of (instances s) (ns, service, iid) = Some e \<and> instAlive (clk (ns, service, iid)) e"
    then obtain e where "instToPB ns service iid e \<in> set (discoverLocked clk ns service s)" using mem by blast
    then have "inInstanceId (instToPB ns service iid e) \<in> ids (discoverLocked clk ns service s)" unfolding ids_def by (rule imageI)
    then show "iid \<in> ids (discoverLocked clk ns service s)" by (simp add: instToPB_def)
  qed
  then show ?thesis by (auto simp: registered_ids_def expired_ids_def set_eq_iff)
qed

lemma expireServices_loop_removed:
  "(\<lambda>x. (inNamespace x, inService x, inInstanceId x)) ` set (snd (expireServices_loop index items m removed))
    = (\<lambda>x. (inNamespace x, inService x, inInstanceId x)) ` set removed \<union> {k. svc_guarded items (map_of m) k}"
proof (induction items arbitrary: m removed)
  case Nil
  then show ?case by (simp add: svc_guarded_def)
next
  case (Cons item items)
  let ?k = "(esNamespace item, esService item, esInstanceId item)"
  show ?case
  proof (cases "\<exists>e. map_of m ?k = Some e \<and> ieRevision e = esGuardRevision item")
    case False
    then have "expireServices_loop index (item # items) m removed = expireServices_loop index items m removed"
      by (auto simp: Let_def split: option.splits)
    moreover have "svc_guarded (item # items) (map_of m) = svc_guarded items (map_of m)"
      using False by (auto simp: svc_guarded_def fun_eq_iff)
    ultimately show ?thesis by (simp add: Cons.IH)
  next
    case True
    then obtain e where e: "map_of m ?k = Some e" "ieRevision e = esGuardRevision item" by blast
    define N where "N = map_of (AList.delete ?k m)"
    have N: "N x = (if x = ?k then None else map_of m x)" for x
      by (simp add: N_def map_of_AList_delete)
    have "{k. svc_guarded (item # items) (map_of m) k} = insert ?k {k. svc_guarded items N k}"
      using e by (auto simp: svc_guarded_def N)
    with e show ?thesis
      by (simp add: Cons.IH N_def [symmetric] instToPB_def)
  qed
qed

text \<open>What an entry means for the watchers of services: nothing, or one change.\<close>

definition own_change :: "string \<Rightarrow> string \<Rightarrow> ServiceChange \<Rightarrow> ServiceChange" where
  "own_change ns service c = \<lparr>scAdded = filterInstances ns service (scAdded c),
     scRemoved = filterInstances ns service (scRemoved c)\<rparr>"

definition svc_effect :: "Store \<Rightarrow> ServiceChange option \<Rightarrow> Store \<Rightarrow> bool" where
  "svc_effect s chg s' \<longleftrightarrow> watcherSeq s' = watcherSeq s \<and> (case chg of
     None \<Rightarrow> svcWatchers s' = svcWatchers s \<and> svcChans s' = svcChans s
       \<and> (\<forall>ns service. registered_ids ns service s' = registered_ids ns service s)
   | Some c \<Rightarrow> svcWatchers s' = svcWatchers (svc_deliver c s) \<and> svcChans s' = svcChans (svc_deliver c s)
       \<and> (\<forall>ns service. registered_ids ns service s'
            = change_step (registered_ids ns service s) (own_change ns service c)
          \<and> registered_ids ns service s \<inter> ids (scAdded (own_change ns service c)) = {}))"

lemma svc_effect_none:
  "svcWatchers s' = svcWatchers s \<Longrightarrow> svcChans s' = svcChans s \<Longrightarrow> instances s' = instances s \<Longrightarrow>
    watcherSeq s' = watcherSeq s \<Longrightarrow> \<exists>chg. svc_effect s chg s'"
  by (intro exI [of _ None]) (simp add: svc_effect_def registered_ids_def)

lemma register_effect:
  assumes "svc_watchers_ok s" and "ApplyRegister index op s = Inr (s', r)"
  shows "\<exists>chg. svc_effect s chg s'"
proof (cases "map_of (instances s) (register_key op) = None")
  case False
  then have "s' = register_store index op s"
    using assms(2) ApplyRegister_ok [OF assms(1), of index op] by (auto simp: Let_def)
  with False have "svc_effect s None s'"
    by (auto simp: svc_effect_def registered_ids_def register_store_def update_conv')
  then show ?thesis by blast
next
  case True
  let ?inst = "instToPB (roNamespace op) (roService op) (roInstanceId op) (register_entry index op)"
  have "s' = svc_deliver \<lparr>scAdded = [?inst], scRemoved = []\<rparr> (register_store index op s)"
    using assms(2) ApplyRegister_ok [OF assms(1), of index op] True by (auto simp: Let_def)
  with True have "svc_effect s (Some \<lparr>scAdded = [?inst], scRemoved = []\<rparr>) s'"
    by (auto simp: svc_effect_def registered_ids_def register_store_def update_conv' svc_deliver_def
        change_step_def own_change_def ids_def filterInstances_def instToPB_def)
  then show ?thesis by blast
qed

lemma expire_effect:
  assumes "svc_watchers_ok s" and "ApplyExpireServices index items s = Inr s'"
  shows "\<exists>chg. svc_effect s chg s'"
proof -
  obtain m removed where loop: "expireServices_loop index items (instances s) [] = (m, removed)"
    by (metis surj_pair)
  have m: "map_of m k = (if svc_guarded items (map_of (instances s)) k then None else map_of (instances s) k)" for k
    using expireServices_loop_map [of index items "instances s" "[]" k] loop by simp
  have keys: "(\<lambda>x. (inNamespace x, inService x, inInstanceId x)) ` set removed
      = {k. svc_guarded items (map_of (instances s)) k}"
    using expireServices_loop_removed [of index items "instances s" "[]"] loop by simp
  show ?thesis
  proof (cases "removed = []")
    case True
    then have "{k. svc_guarded items (map_of (instances s)) k} = {}" unfolding keys [symmetric] by simp
    then have "\<not> svc_guarded items (map_of (instances s)) k" for k by blast
    with True assms(2) ApplyExpireServices_ok [OF assms(1) loop] have "svc_effect s None s'"
      by (auto simp: svc_effect_def registered_ids_def m)
    then show ?thesis by blast
  next
    case False
    have "ids (filterInstances ns service removed) = {iid. svc_guarded items (map_of (instances s)) (ns, service, iid)}" for ns service
      using keys by (force simp: ids_def filterInstances_def set_eq_iff image_iff)
    with False assms(2) ApplyExpireServices_ok [OF assms(1) loop]
    have "svc_effect s (Some \<lparr>scAdded = [], scRemoved = removed\<rparr>) s'"
      by (auto simp: svc_effect_def registered_ids_def m svc_deliver_def change_step_def own_change_def split: if_splits) (auto simp: ids_def filterInstances_def)
    then show ?thesis by blast
  qed
qed

lemma entry_effect:
  assumes inv: "store_inv s" and step: "applyOne StoreApplier now e s = Inr (s', r)"
  shows "\<exists>chg. svc_effect s chg s'"
proof -
  have ok: "watchers_ok s" "svc_watchers_ok s" using inv by (auto simp: store_inv_def tables_ok_def)
  show ?thesis
  proof (cases "leOp e")
    case None
    with step show ?thesis by (intro svc_effect_none) (simp_all add: applyOne_def)
  next
    case (Some x)
    note step' = step [unfolded applyOne_def StoreApplier_def Some, simplified]
    show ?thesis
    proof (cases x)
      case (LogEntry_Put op)
      obtain m evs q where spec: "spec_put now (leIndex e) op (map_of (kvs s)) = (m, evs, q)"
        by (metis prod_cases3)
      from ApplyPut_refines [OF ok(1) spec] step' LogEntry_Put show ?thesis
        by (intro svc_effect_none) auto
    next
      case (LogEntry_Delete op)
      obtain m evs q where spec: "spec_delete now (leIndex e) op (map_of (kvs s)) = (m, evs, q)"
        by (metis prod_cases3)
      from ApplyDelete_refines [OF ok(1) spec] step' LogEntry_Delete show ?thesis
        by (intro svc_effect_none) auto
    next
      case (LogEntry_ExpireKeys items)
      obtain m evs where spec: "spec_expire (leIndex e) items (map_of (kvs s)) = (m, evs)"
        by (metis surj_pair)
      from ApplyExpireKeys_refines [OF ok(1) spec] step' LogEntry_ExpireKeys show ?thesis
        by (intro svc_effect_none) (auto simp: go_bind_Inr_iff split: if_splits)
    next
      case (LogEntry_Register op)
      with step' show ?thesis using register_effect [OF ok(2)] by (auto simp: go_bind_Inr_iff)
    next
      case (LogEntry_Heartbeat op)
      with step' have "svc_effect s None s'"
        by (auto simp: ApplyHeartbeat_def svc_effect_def registered_ids_def Let_def update_conv'
            split: option.splits if_splits)
      then show ?thesis by blast
    next
      case (LogEntry_ExpireServices items)
      with step' show ?thesis using expire_effect [OF ok(2)] by (auto simp: go_bind_Inr_iff)
    qed
  qed
qed

subsection \<open>The subscription of the handler\<close>

abbreviation (input) own_svc :: "string \<Rightarrow> string \<Rightarrow> int64 \<Rightarrow> svcWatcher" where
  "own_svc ns service i \<equiv> \<lparr>swNs = ns, swService = service, swCh = i\<rparr>"

definition own_ok :: "int64 \<Rightarrow> svcWatcher \<Rightarrow> Store \<Rightarrow> ServiceChange chan \<Rightarrow> bool" where
  "own_ok i w s q \<longleftrightarrow> svcChans s i = Some q
     \<and> map_of (svcWatchers s) i = (if chClosed q then None else Some w)"

lemma own_frame:
  "own_ok i w s q \<Longrightarrow> svcChans s' i = svcChans s i \<Longrightarrow> map_of (svcWatchers s') i = map_of (svcWatchers s) i \<Longrightarrow> own_ok i w s' q"
  by (simp add: own_ok_def)

lemma map_of_filter_some:
  "gomap_ok m \<Longrightarrow> map_of m i = Some w \<Longrightarrow> map_of (filter P m) i = (if P (i, w) then Some w else None)"
  by (induction m) (auto simp: map_of_eq_None_iff split: if_splits)

lemma own_deliver:
  assumes ok: "svc_watchers_ok s" and own: "own_ok i w s q"
  shows "\<exists>q'. own_ok i w (svc_deliver c s) q' \<and> (chClosed q \<longrightarrow> chClosed q')
    \<and> (\<not> chClosed q' \<longrightarrow> chBuf q' = chBuf q @ (case svc_message c w of None \<Rightarrow> [] | Some m \<Rightarrow> [m]))"
proof (cases "chClosed q")
  case True
  with own have none: "map_of (svcWatchers s) i = None" "svcChans s i = Some q" by (simp_all add: own_ok_def)
  then have "i \<notin> fst ` set (svcWatchers s)" by (simp add: map_of_eq_None_iff)
  then have "map_of (filter (stays (svc_message c) (svcChans s)) (svcWatchers s)) i = None"
    by (auto simp: map_of_eq_None_iff)
  with True none show ?thesis by (auto simp: own_ok_def svc_deliver_def heap_after_def)
next
  case False
  with own have w: "map_of (svcWatchers s) i = Some w" "svcChans s i = Some q" by (simp_all add: own_ok_def)
  have uniq: "gomap_ok (svcWatchers s)" using ok by (simp add: subs_ok_def)
  let ?q = "chan_after (svc_message c w) q"
  have chan: "svcChans (svc_deliver c s) i = Some ?q" by (simp add: svc_deliver_def heap_after_def w)
  have reg: "map_of (svcWatchers (svc_deliver c s)) i = (if stays (svc_message c) (svcChans s) (i, w) then Some w else None)"
    using map_of_filter_some [OF uniq w(1)] by (simp add: svc_deliver_def)
  have "stays (svc_message c) (svcChans s) (i, w) \<longleftrightarrow> \<not> chClosed ?q"
    using False by (cases "svc_message c w") (auto simp: stays_def w)
  moreover have "chBuf ?q = chBuf q @ (case svc_message c w of None \<Rightarrow> [] | Some m \<Rightarrow> [m])" if "\<not> chClosed ?q"
    using that by (cases "svc_message c w") (auto split: if_splits)
  ultimately show ?thesis using chan reg False by (auto simp: own_ok_def)
qed

subsection \<open>The handler among others\<close>

datatype inst_act =
    InLog int64 LogEntry
  | InTurn "svcKey \<Rightarrow> int64" serve_case
  | InOpen "svcKey \<Rightarrow> int64" string string
  | InClose int64
  | InTake int64
  | InWatch string string int64

fun svc_phase_id :: "svc_phase \<Rightarrow> int64 option" where
  "svc_phase_id (SSnapshot i snapshot ch) = Some i"
| "svc_phase_id (SListen i ch) = Some i"
| "svc_phase_id (SEnded e) = None"

text \<open>The third component collects, for the statements only, the ids that the latest snapshot left out
  and that have been registered ever since.\<close>

fun inst_step :: "inst_act \<Rightarrow> InstancesCall \<times> Store \<times> string set \<Rightarrow> (InstancesCall \<times> Store \<times> string set) go" where
  "inst_step (InLog now e) (c, s, G) =
    (if leIndex e \<le> rev s \<or> maxIndex \<le> leIndex e then Inr (c, s, G)
     else go_bind (applyOne StoreApplier now e s) (\<lambda>(s', r). Inr (c, s', G \<inter> registered_ids (icNs c) (icService c) s')))"
| "inst_step (InTurn clk a) (c, s, G) = go_bind (instances_turn clk a c s) (\<lambda>r. Inr (case r of
     None \<Rightarrow> (c, s, G)
   | Some (c', s') \<Rightarrow> (c', s', case icPhase c' of
         SSnapshot i snapshot ch \<Rightarrow> expired_ids clk (icNs c) (icService c) s' | _ \<Rightarrow> G)))"
| "inst_step (InOpen clk ns service) (c, s, G) = (let (s', r) = WatchService clk ns service s in Inr (c, s', G))"
| "inst_step (InClose i) (c, s, G) =
    (if svc_phase_id (icPhase c) = Some i then Inr (c, s, G)
     else go_bind (CloseServiceWatcher i s) (\<lambda>s'. Inr (c, s', G)))"
| "inst_step (InTake i) (c, s, G) =
    (if svc_phase_id (icPhase c) = Some i then Inr (c, s, G) else Inr (c, recv_svc i s, G))"
| "inst_step (InWatch ns key fromSeq) (c, s, G) =
     go_bind (WatchKV ns key fromSeq s) (\<lambda>(s', r). Inr (c, s', G))"

fun inst_run :: "inst_act list \<Rightarrow> InstancesCall \<times> Store \<times> string set \<Rightarrow> (InstancesCall \<times> Store \<times> string set) go" where
  "inst_run [] st = Inr st"
| "inst_run (a # as) st = go_bind (inst_step a st) (inst_run as)"

fun inst_error :: "inst_act \<Rightarrow> go_error option" where
  "inst_error (InTurn clk (Proceed (SendFails x))) = Some (ErrOther x)"
| "inst_error (InTurn clk (CtxDone x)) = Some (ErrCtx x)"
| "inst_error a = None"

text \<open>\<open>V\<close> is the view of the client when it has handled what was sent.\<close>

definition view_ok :: "string set \<Rightarrow> int64 \<Rightarrow> InstancesCall \<Rightarrow> Store \<Rightarrow> string set \<Rightarrow> bool" where
  "view_ok V i c s G \<longleftrightarrow> (\<exists>q. own_ok i (own_svc (icNs c) (icService c) i) s q
     \<and> (\<not> chClosed q \<longrightarrow> foldl change_step V (chBuf q) = registered_ids (icNs c) (icService c) s - G))"

definition inst_inv :: "go_error set \<Rightarrow> InstancesCall \<times> Store \<times> string set \<Rightarrow> bool" where
  "inst_inv errs = (\<lambda>(c, s, G). reachable s \<and> (case icPhase c of
     SSnapshot i snapshot ch \<Rightarrow> ch = i \<and> G \<subseteq> registered_ids (icNs c) (icService c) s \<and> view_ok (ids snapshot) i c s G
   | SListen i ch \<Rightarrow> ch = i \<and> G \<subseteq> registered_ids (icNs c) (icService c) s \<and> view_ok (client_view (icSent c)) i c s G
   | SEnded e \<Rightarrow> \<exists>x\<in>errs. e = RawErr x))"

lemma view_ok_entry:
  assumes sinv: "store_inv s" and eff: "svc_effect s chg s'" and v: "view_ok V i c s G"
    and G: "G \<subseteq> registered_ids (icNs c) (icService c) s"
  shows "view_ok V i c s' (G \<inter> registered_ids (icNs c) (icService c) s')"
proof -
  let ?w = "own_svc (icNs c) (icService c) i" and ?R = "registered_ids (icNs c) (icService c)"
  obtain q where q: "own_ok i ?w s q" "\<not> chClosed q \<longrightarrow> foldl change_step V (chBuf q) = ?R s - G"
    using v by (auto simp: view_ok_def)
  show ?thesis
  proof (cases chg)
    case None
    with eff have "own_ok i ?w s' q" "?R s' = ?R s" using q(1) by (auto simp: svc_effect_def intro: own_frame)
    with q(2) G show ?thesis by (auto simp: view_ok_def)
  next
    case (Some d)
    have ok: "svc_watchers_ok s" using sinv by (simp add: store_inv_def tables_ok_def)
    obtain q' where q': "own_ok i ?w (svc_deliver d s) q'" "chClosed q \<longrightarrow> chClosed q'"
      "\<not> chClosed q' \<longrightarrow> chBuf q' = chBuf q @ (case svc_message d ?w of None \<Rightarrow> [] | Some m \<Rightarrow> [m])"
      using own_deliver [OF ok q(1)] by blast
    have R: "?R s' = change_step (?R s) (own_change (icNs c) (icService c) d)"
      "?R s \<inter> ids (scAdded (own_change (icNs c) (icService c) d)) = {}"
      using eff Some by (simp_all add: svc_effect_def)
    have own: "own_ok i ?w s' q'" using q'(1) eff Some by (auto simp: svc_effect_def intro: own_frame)
    have msg: "svc_message d ?w = (if own_change (icNs c) (icService c) d = \<lparr>scAdded = [], scRemoved = []\<rparr> then None
        else Some (own_change (icNs c) (icService c) d))"
      by (auto simp: svc_message_def own_change_def Let_def)
    have view: "foldl change_step V (chBuf q') = ?R s' - (G \<inter> ?R s')" if "\<not> chClosed q'"
    proof -
      have "foldl change_step V (chBuf q') = change_step (?R s - G) (own_change (icNs c) (icService c) d)"
        using q'(2,3) q(2) that msg by (auto simp: change_step_def ids_def)
      also have "\<dots> = ?R s' - (G \<inter> ?R s')"
        using G R(2) unfolding R(1) change_step_def by auto
      finally show ?thesis .
    qed
    with own show ?thesis by (auto simp: view_ok_def)
  qed
qed

lemma view_ok_frame:
  "view_ok V i c s G \<Longrightarrow> instances s' = instances s \<Longrightarrow> svcChans s' i = svcChans s i \<Longrightarrow>
    map_of (svcWatchers s') i = map_of (svcWatchers s) i \<Longrightarrow> icNs c' = icNs c \<Longrightarrow> icService c' = icService c \<Longrightarrow>
    view_ok V i c' s' G"
  unfolding view_ok_def registered_ids_def by (metis own_frame)

text \<open>Steps that touch neither the instances nor the subscription of the handler.\<close>

lemma inst_inv_frame:
  assumes "inst_inv errs (c, s, G)" and "reachable s'" and "instances s' = instances s"
    and "\<And>i. svc_phase_id (icPhase c) = Some i \<Longrightarrow> svcChans s' i = svcChans s i \<and> map_of (svcWatchers s') i = map_of (svcWatchers s) i"
  shows "inst_inv errs (c, s', G)"
  using assms by (auto simp: inst_inv_def registered_ids_def split: svc_phase.splits intro: view_ok_frame)

lemma subscribe_inv:
  assumes reach: "reachable s" and seq: "is_int64 (watcherSeq s + 1)" and sub: "instances_subscribe clk c s = (c', s')"
  shows "inst_inv errs (c', s', expired_ids clk (icNs c) (icService c) s') \<and> watcherSeq s' = watcherSeq s + 1
    \<and> icNs c' = icNs c \<and> icService c' = icService c \<and> instances s' = instances s
    \<and> (\<exists>i snapshot ch. icPhase c' = SSnapshot i snapshot ch)"
proof -
  have id: "add64 (watcherSeq s) 1 = watcherSeq s + 1" using seq by (simp add: add64_def wrap64_id)
  let ?i = "watcherSeq s + 1"
  obtain snapshot where w: "WatchService clk (icNs c) (icService c) s = (s', ?i, snapshot, ?i)"
    and c': "c' = c\<lparr>icPhase := SSnapshot ?i snapshot ?i\<rparr>"
    using sub by (auto simp: instances_subscribe_def WatchService_def Let_def id)
  have s': "instances s' = instances s" "svcChans s' ?i = Some (make_chan watcherBuffer)" "watcherSeq s' = ?i"
    "map_of (svcWatchers s') ?i = Some (own_svc (icNs c) (icService c) ?i)" "snapshot = discoverLocked clk (icNs c) (icService c) s"
    using w by (auto simp: WatchService_def Let_def id update_conv' discoverLocked_def)
  have "gomap_ok (instances s)" using reachable_inv [OF reach] by (simp add: store_inv_def tables_ok_def)
  from ids_discover [OF this] have "ids snapshot = registered_ids (icNs c) (icService c) s' - expired_ids clk (icNs c) (icService c) s'"
    by (simp add: s' registered_ids_def expired_ids_def)
  moreover have "own_ok ?i (own_svc (icNs c) (icService c) ?i) s' (make_chan watcherBuffer)"
    using s' by (simp add: own_ok_def make_chan_def)
  ultimately have "view_ok (ids snapshot) ?i c' s' (expired_ids clk (icNs c) (icService c) s')"
    by (auto simp: view_ok_def c' make_chan_def)
  moreover have "expired_ids clk (icNs c) (icService c) s' \<subseteq> registered_ids (icNs c) (icService c) s'"
    by (auto simp: expired_ids_def registered_ids_def)
  moreover have "reachable s'" by (rule reachable.watch_service [OF reach seq w])
  ultimately show ?thesis using s' by (simp add: inst_inv_def c')
qed

lemma CloseServiceWatcher_frame:
  assumes "reachable s"
  shows "\<exists>s'. CloseServiceWatcher i s = Inr s' \<and> reachable s' \<and> instances s' = instances s \<and> watcherSeq s' = watcherSeq s
    \<and> (\<forall>j. j \<noteq> i \<longrightarrow> svcChans s' j = svcChans s j \<and> map_of (svcWatchers s') j = map_of (svcWatchers s) j)"
proof -
  have ok: "svc_watchers_ok s" using reachable_inv [OF assms] by (simp add: store_inv_def tables_ok_def)
  obtain W H where "close_sub swCh i (svcWatchers s, svcChans s) = Inr (W, H)" "W = AList.delete i (svcWatchers s)"
    "\<forall>j. j \<noteq> i \<longrightarrow> H j = svcChans s j"
    using close_sub_ok [OF ok, of i] by (auto split: option.splits)
  moreover from this have c: "CloseServiceWatcher i s = Inr (s\<lparr>svcWatchers := W, svcChans := H\<rparr>)"
    by (simp add: CloseServiceWatcher_def)
  ultimately show ?thesis using reachable.unwatch_service [OF assms c] by (simp add: map_of_AList_delete)
qed

lemma recv_svc_frame:
  "instances (recv_svc i s) = instances s" "watcherSeq (recv_svc i s) = watcherSeq s" "rev (recv_svc i s) = rev s"
  "svcWatchers (recv_svc i s) = svcWatchers s" "i \<noteq> j \<Longrightarrow> svcChans (recv_svc i s) j = svcChans s j"
  by (auto simp: recv_svc_def split: option.splits recv_outcome.splits)

lemma return_inv:
  assumes "reachable s" and "x \<in> errs"
  shows "\<exists>c' s'. instances_return i (RawErr x) c s = Inr (c', s') \<and> inst_inv errs (c', s', G) \<and> seq_step s s'
    \<and> icNs c' = icNs c \<and> icService c' = icService c \<and> (\<exists>e. icPhase c' = SEnded e)"
proof -
  obtain s' where "CloseServiceWatcher i s = Inr s'" "reachable s'" "watcherSeq s' = watcherSeq s"
    using CloseServiceWatcher_frame [OF assms(1)] by blast
  with assms(2) show ?thesis by (auto simp: instances_return_def inst_inv_def seq_step_def)
qed

lemma inst_inv_turn:
  assumes inv: "inst_inv errs (c, s, G)" and seq: "is_int64 (watcherSeq s + 1)"
    and err: "\<forall>x. inst_error (InTurn clk a) = Some x \<longrightarrow> x \<in> errs"
  shows "\<exists>c' s' G'. inst_step (InTurn clk a) (c, s, G) = Inr (c', s', G') \<and> inst_inv errs (c', s', G') \<and> seq_step s s'
    \<and> icNs c' = icNs c \<and> icService c' = icService c"
proof -
  have reach: "reachable s" using inv by (auto simp: inst_inv_def)
  let ?R = "registered_ids (icNs c) (icService c)"
  show ?thesis
  proof (cases "icPhase c")
    case (SEnded e)
    with inv show ?thesis by (simp add: instances_turn_def seq_step_def)
  next
    case (SSnapshot i snapshot ch)
    with inv have ph: "ch = i" "G \<subseteq> ?R s" "view_ok (ids snapshot) i c s G" by (auto simp: inst_inv_def)
    show ?thesis
    proof (cases a)
      case (CtxDone x)
      with inv SSnapshot show ?thesis by (simp add: instances_turn_def seq_step_def)
    next
      case (Proceed io)
      show ?thesis
      proof (cases io)
        case (SendFails x)
        with return_inv [OF reach, of "ErrOther x" errs i c G] err Proceed SSnapshot show ?thesis
          by (fastforce simp: instances_turn_def instances_send_def)
      next
        case SendOk
        let ?c = "c\<lparr>icPhase := SListen i ch, icSent := icSent c @ [snapshot_response snapshot s]\<rparr>"
        have "view_ok (client_view (icSent ?c)) i ?c s G"
          using ph(3) by (auto simp: client_view_snoc intro: view_ok_frame)
        with ph reach have "inst_inv errs (?c, s, G)" by (simp add: inst_inv_def)
        with SendOk Proceed SSnapshot show ?thesis
          by (simp add: instances_turn_def instances_send_def seq_step_def)
      qed
    qed
  next
    case (SListen i ch)
    with inv have ph: "ch = i" "G \<subseteq> ?R s" "view_ok (client_view (icSent c)) i c s G" by (auto simp: inst_inv_def)
    show ?thesis
    proof (cases a)
      case (CtxDone x)
      with return_inv [OF reach, of "ErrCtx x" errs i c G] err SListen show ?thesis
        by (fastforce simp: instances_turn_def)
    next
      case (Proceed io)
      obtain q where q: "own_ok i (own_svc (icNs c) (icService c) i) s q"
        "\<not> chClosed q \<longrightarrow> foldl change_step (client_view (icSent c)) (chBuf q) = ?R s - G"
        using ph(3) by (auto simp: view_ok_def)
      then have chan: "svcChans s i = Some q" by (simp add: own_ok_def)
      show ?thesis
      proof (cases "chBuf q")
        case Nil
        show ?thesis
        proof (cases "chClosed q")
          case False
          with Nil chan inv SListen Proceed ph(1) show ?thesis by (simp add: instances_turn_def try_recv_def seq_step_def)
        next
          case True
          obtain s1 where s1: "CloseServiceWatcher i s = Inr s1" "reachable s1" "watcherSeq s1 = watcherSeq s"
            using CloseServiceWatcher_frame [OF reach] by blast
          obtain c' s' where sub: "instances_subscribe clk c s1 = (c', s')" by (metis surj_pair)
          from subscribe_inv [OF s1(2) _ sub, of errs] seq s1(3)
          have new: "inst_inv errs (c', s', expired_ids clk (icNs c) (icService c) s')" "watcherSeq s' = watcherSeq s1 + 1"
            "icNs c' = icNs c" "icService c' = icService c" "\<exists>i snapshot ch. icPhase c' = SSnapshot i snapshot ch" by auto
          with True Nil chan SListen Proceed ph(1) s1 sub show ?thesis
            by (auto simp: instances_turn_def try_recv_def seq_step_def)
        qed
      next
        case (Cons m ms)
        let ?s = "s\<lparr>svcChans := (svcChans s)(i \<mapsto> q\<lparr>chBuf := ms\<rparr>)\<rparr>"
        have recv: "recv_svc i s = ?s" by (simp add: recv_svc_def chan try_recv_def Cons)
        have reach': "reachable ?s" using reachable.receive_service [OF reach, of i] by (simp add: recv)
        show ?thesis
        proof (cases io)
          case (SendFails x)
          with return_inv [OF reach', of "ErrOther x" errs i c G] err Proceed SListen chan Cons ph(1) show ?thesis
            by (fastforce simp: instances_turn_def instances_send_def try_recv_def recv seq_step_def)
        next
          case SendOk
          let ?c = "c\<lparr>icPhase := SListen i ch, icSent := icSent c @ [change_response m ?s]\<rparr>"
          have "own_ok i (own_svc (icNs c) (icService c) i) ?s (q\<lparr>chBuf := ms\<rparr>)" using q(1) by (simp add: own_ok_def)
          with q(2) Cons have "view_ok (client_view (icSent ?c)) i ?c ?s G"
            by (auto simp: view_ok_def client_view_snoc registered_ids_def)
          with ph reach' have "inst_inv errs (?c, ?s, G)" by (simp add: inst_inv_def registered_ids_def)
          with SendOk Proceed SListen chan Cons ph(1) show ?thesis
            by (simp add: instances_turn_def instances_send_def try_recv_def recv seq_step_def)
        qed
      qed
    qed
  qed
qed

lemma inst_inv_step:
  assumes inv: "inst_inv errs (c, s, G)" and seq: "is_int64 (watcherSeq s + 1)"
    and fits: "\<forall>now e. a = InLog now e \<longrightarrow> store_fits e" and err: "\<forall>x. inst_error a = Some x \<longrightarrow> x \<in> errs"
  shows "\<exists>c' s' G'. inst_step a (c, s, G) = Inr (c', s', G') \<and> inst_inv errs (c', s', G') \<and> seq_step s s'
    \<and> icNs c' = icNs c \<and> icService c' = icService c"
proof -
  have reach: "reachable s" using inv by (auto simp: inst_inv_def)
  have sinv: "store_inv s" by (rule reachable_inv [OF reach])
  then have ok: "hist_ok s" "svc_watchers_ok s" by (auto simp: store_inv_def tables_ok_def)
  have id: "add64 (watcherSeq s) 1 = watcherSeq s + 1" using seq by (simp add: add64_def wrap64_id)
  have fresh: "i \<noteq> watcherSeq s + 1" if "svc_phase_id (icPhase c) = Some i" for i
  proof -
    have "\<exists>q. svcChans s i = Some q"
      using inv that by (auto simp: inst_inv_def view_ok_def own_ok_def split: svc_phase.splits)
    with subs_ok_fresh [OF ok(2), of "watcherSeq s + 1"] show ?thesis by auto
  qed
  show ?thesis
  proof (cases a)
    case (InLog now e)
    show ?thesis
    proof (cases "leIndex e \<le> rev s \<or> maxIndex \<le> leIndex e")
      case True
      with inv InLog show ?thesis by (auto simp: seq_step_def)
    next
      case False
      then have idx: "rev s < leIndex e" "leIndex e < maxIndex" by auto
      have "within_limit e s" using fits InLog by (simp add: store_fits_within)
      from applyOne_store_inv [OF sinv this idx, of now] obtain s' r where
        step: "applyOne StoreApplier now e s = Inr (s', r)" by blast
      obtain chg where eff: "svc_effect s chg s'" using entry_effect [OF sinv step] by blast
      have "inst_inv errs (c, s', G \<inter> registered_ids (icNs c) (icService c) s')"
        using inv reachable.apply_entry [OF reach idx step]
        by (auto simp: inst_inv_def split: svc_phase.splits intro: view_ok_entry [OF sinv eff])
      with eff step False InLog show ?thesis by (auto simp: seq_step_def svc_effect_def)
    qed
  next
    case (InTurn clk b)
    with inst_inv_turn [OF inv seq, of clk b] err show ?thesis by simp
  next
    case (InOpen clk ns service)
    obtain s' r where w: "WatchService clk ns service s = (s', r)" by (metis surj_pair)
    then have "instances s' = instances s" "watcherSeq s' = watcherSeq s + 1"
      "\<And>i. i \<noteq> watcherSeq s + 1 \<Longrightarrow> svcChans s' i = svcChans s i \<and> map_of (svcWatchers s') i = map_of (svcWatchers s) i"
      by (auto simp: WatchService_def Let_def id update_conv')
    with inst_inv_frame [OF inv reachable.watch_service [OF reach seq w]] fresh have "inst_inv errs (c, s', G)" "seq_step s s'"
      by (auto simp: seq_step_def)
    with w InOpen show ?thesis by simp
  next
    case (InClose i)
    obtain s' where s': "CloseServiceWatcher i s = Inr s'" "reachable s'" "instances s' = instances s" "watcherSeq s' = watcherSeq s"
      "\<And>j. j \<noteq> i \<Longrightarrow> svcChans s' j = svcChans s j \<and> map_of (svcWatchers s') j = map_of (svcWatchers s) j"
      using CloseServiceWatcher_frame [OF reach, of i] by blast
    have "inst_inv errs (c, s', G)" if "svc_phase_id (icPhase c) \<noteq> Some i"
      using inst_inv_frame [OF inv s'(2,3)] s'(5) that by metis
    with s' inv InClose show ?thesis by (auto simp: seq_step_def)
  next
    case (InTake i)
    have "inst_inv errs (c, recv_svc i s, G)" if "svc_phase_id (icPhase c) \<noteq> Some i"
      using that by (intro inst_inv_frame [OF inv reachable.receive_service [OF reach]]) (auto simp: recv_svc_frame)
    with inv InTake show ?thesis by (auto simp: seq_step_def recv_svc_frame)
  next
    case (InWatch ns key f)
    obtain s' r where w: "WatchKV ns key f s = Inr (s', r)" using WatchKV_ok [OF ok(1), of ns key f] by (metis surj_pair)
    then have s': "s' = s \<or> s' = registered ns key s" using WatchKV_ok [OF ok(1), of ns key f] by (auto split: if_splits)
    then have "inst_inv errs (c, s', G)"
      by (intro inst_inv_frame [OF inv reachable.watch [OF reach seq w]]) (auto simp: registered_def Let_def)
    moreover have "seq_step s s'" using s' id by (auto simp: seq_step_def registered_def Let_def)
    ultimately show ?thesis using w InWatch by simp
  qed
qed

lemma inst_inv_run:
  assumes "inst_inv errs (c, s, G)" and "0 \<le> watcherSeq s" and "watcherSeq s + int (length as) < 2 ^ 63"
    and "\<forall>now e. InLog now e \<in> set as \<longrightarrow> store_fits e" and "\<forall>a\<in>set as. \<forall>x. inst_error a = Some x \<longrightarrow> x \<in> errs"
  shows "\<exists>c' s' G'. inst_run as (c, s, G) = Inr (c', s', G') \<and> inst_inv errs (c', s', G')
    \<and> icNs c' = icNs c \<and> icService c' = icService c"
  using assms
proof (induction as arbitrary: c s G)
  case (Cons a as)
  have "is_int64 (watcherSeq s + 1)" using Cons.prems(2,3) by (simp add: is_int64_def)
  then obtain c1 s1 G1 where step: "inst_step a (c, s, G) = Inr (c1, s1, G1)" "inst_inv errs (c1, s1, G1)" "seq_step s s1"
    "icNs c1 = icNs c" "icService c1 = icService c"
    using inst_inv_step [OF Cons.prems(1), of a] Cons.prems(4,5) by auto
  moreover have "0 \<le> watcherSeq s1" "watcherSeq s1 + int (length as) < 2 ^ 63"
    using step(3) Cons.prems(2,3) by (auto simp: seq_step_def)
  ultimately show ?case using Cons.IH [OF step(2)] Cons.prems(4,5) by simp
qed simp

subsection \<open>Properties\<close>



end
