(* ===== verification/Spec2Isabelle.thy ===== *)
theory Spec2Isabelle
  imports ReplicaProps RegistryProps SweeperProps Proposals ServeGaps ClientWatchProps Lease MainProgram
    ClusterServices ClusterRuns ClusterRestart InstancesServe
begin

text \<open>
  distconf: a replicated configuration center with a service registry, written in Go
  (\<open>src/distconf\<close>). A cluster has one fixed leader. Writes reach the leader over gRPC, become
  entries of its log, are pushed to the followers on one stream per follower, and are committed
  once a majority has acknowledged them. Every node applies the entries to an in-memory store of
  keys (with versions, compare-and-set and expiry times) and service instances (with leases), and
  serves reads and watches from it. A sweeper on the leader turns expired items into log entries.

  Theories and code

  \<^item> \<open>Prelude\<close>: Go values. \<open>'a go = panic + 'a\<close> makes panics and calls that block for ever values;
    \<open>int64\<close> is \<open>int\<close> with the wrap-around of \<open>add64\<close>; a Go map is an association list
    with distinct keys (its order stands for the unspecified iteration order), a channel a buffer
    with capacity and closed flag.
  \<^item> \<open>Messages\<close>: the protobuf messages (\<open>api/distconf/v1\<close>); a nil pointer field is None.
  \<^item> \<open>StoreState\<close>, \<open>History\<close>, \<open>Subscribers\<close>, \<open>Fanout\<close>, \<open>KVStore\<close>, \<open>Registry\<close>, \<open>Watch\<close>, \<open>Snapshots\<close>:
    the state machine of \<open>internal/store\<close>: its state, the event ring, watch channels and
    event delivery, the key operations, the instance operations, watches, snapshots and scans.
    \<open>History\<close> has the locale of a bounded event log, \<open>Subscribers\<close> the one of a delivery list;
    both are interpreted on the store.
  \<^item> \<open>Applier\<close>, \<open>StoreMachine\<close>, \<open>StoreInv\<close>, \<open>StoreReach\<close>: \<open>applyOne\<close> of \<open>internal/repl/repl.go\<close>, the
    abstract machine \<open>spec_apply\<close> that the store refines, the invariant \<open>store_inv\<close>, the states
    that operations reach.
  \<^item> \<open>Broadcaster\<close>, \<open>Leader\<close>, \<open>LeaderInv\<close>: \<open>broadcaster.go\<close> and \<open>leader.go\<close>: log, waiters, votes,
    the turn of the commit loop, compaction, catch-up; the invariant \<open>leader_inv\<close>.
  \<^item> \<open>Streams\<close>: \<open>stream.go\<close> and \<open>follower.go\<close>: what a follower does with a stream, what the leader
    sends on one.
  \<^item> \<open>Cluster\<close>: the composition of leader, streams and followers: the commit loop and the calls of \<open>Propose\<close>,
    for each stream the handler (\<open>AppendEntries\<close>, \<open>HandleStreamWithInitial\<close>), its receive and push
    goroutines in small steps, the messages on the way, and \<open>ApplyStream\<close> on the follower. A run is any
    list of actions; streams fail on either side at any time, and processes can restart (\<open>restart_node\<close>).
    \<open>ClusterInv\<close> and \<open>ClusterSafe\<close> have its
    invariant (\<open>cluster_inv\<close>: every store is a replica of a part of one log, every message and every
    position on the way is covered by a store), with a lemma for each action. \<open>ClusterChurn\<close> extends it to
    runs in which followers restart (\<open>churn_inv\<close>: the invariant holds with the furthest states that the
    followers have had in place of their stores).
  \<^item> \<open>Proposals\<close>: a whole call of \<open>Propose\<close> with any interleaving of the other goroutines.
  \<^item> \<open>Sweeper\<close>: \<open>internal/sweeper\<close> over the interface \<open>proposer\<close>, which the leader provides
    (\<open>leader_calls\<close>).
  \<^item> \<open>GoStrings\<close>, \<open>Status\<close>, \<open>Server\<close>: the functions of packages \<open>strings\<close> and \<open>strconv\<close> that
    the code uses; errors and tokens on the wire, with the error classes of the client;
    node life cycle and unary handlers of \<open>internal/server\<close>. The handlers run over the interface
    \<open>write_handlers\<close>, a \<open>proposer\<close> with bounds, which the leader provides (\<open>leader_writes\<close>).
  \<^item> \<open>WatchServe\<close>, \<open>ServeGaps\<close>: the streaming handlers \<open>watchLoop\<close> (\<open>watch.go\<close>) and \<open>WatchInstances\<close>
    (\<open>registry.go\<close>) as machines over the store, interleaved with log entries and other subscribers.
  \<^item> \<open>Client\<close>, \<open>ClientWatch\<close>, \<open>Lease\<close>: the client library (\<open>client/\<close>): connections, leader discovery,
    reads that go from node to node, writes that follow the leader, subscriptions that reconnect,
    leases. The network is a record of functions (\<open>Net\<close>); \<open>cluster_net\<close> of \<open>ClientProps\<close> builds one
    from the server handlers, so that client, handlers, log and store run together.
  \<^item> \<open>CommandLine\<close>, \<open>Flags\<close>, \<open>MainProgram\<close>: \<open>cmd/distconf\<close>: commands, environment, node configuration, the
    client commands and the consumers of the two streams; the flags of package \<open>flag\<close> with the syntax of their
    values (\<open>ParseInt0\<close>, \<open>ParseBool\<close>, \<open>ParseDuration\<close>); the process from its arguments over signals to its exit code.

  What is shown: \<open>StoreProps\<close> (each key operation on every branch, refinement of the
  abstract machine), \<open>RegistryProps\<close> (leases, heartbeats, discovery), \<open>ReplicaProps\<close> (replicas
  agree without expiry times and need not agree with them, snapshot transfer), \<open>SubProps\<close> (a watch gets every
  event once, also over a resume), \<open>ReplProps\<close> (quorum commit, answers to waiters, catch-up, truthful
  acknowledgements, the gap at the hand-over), \<open>SweeperProps\<close> (what expires and what survives),
  \<open>ClusterProps\<close> (in every run of a cluster nothing panics, the nodes are at positions of one log, an
  answered proposal is on a majority for ever), \<open>ClusterReads\<close> (a confirmed put is found on every node that has
  reached it until it is changed or expires), \<open>ClusterServices\<close> (a confirmed registration is discovered as long as
  its lease runs), \<open>ClusterLive\<close> (leader and followers that form a
  majority can commit every further proposal, whatever has happened), \<open>ClusterRuns\<close> (a read of an
  uncommitted write, a write on a majority that stays uncommitted), \<open>ClusterRestart\<close> (what restarts break),
  \<open>Status\<close> (hints and error classes), \<open>ServerProps\<close> (the answer of a put is truthful, followers
  redirect, expiry times at the edge of the range, when \<open>Stop\<close> returns), \<open>WatchServe\<close> (a stream is
  served in order without gaps), \<open>InstancesServe\<close> (what the client of a service watch knows),
  \<open>ServeGaps\<close> (what the streams do not tell), \<open>ClientProps\<close> (a put through the client from end to
  end, reads that fail over, the retry that commits twice),
  \<open>ClientWatchProps\<close> (a watch resumes without loss), \<open>Lease\<close>, \<open>CommandLine\<close> (peer lists),
  \<open>MainProgram\<close> (flags and environment agree, how a node process ends).

  Bounds. Log indices stay below \<open>maxIndex = 2 ^ 51\<close>: event cursors are \<open>index * 4096 + position\<close> and have
  to fit \<open>int64\<close>. One entry emits fewer than \<open>subLimit = 4096\<close> events; a larger one panics, in the
  model as in the code. No definition has fuel: loops are structural or have a measure.

  Not modelled: goroutine scheduling inside a critical section (each function that holds the
  mutex is one step), garbage collection, logging, the marshalling that protoc generates (third-party
  code behind the message types), TCP and TLS. The theorems on clusters exclude restarts of the leader
  (\<open>churn_ok\<close>), which \<open>leader_restart_fatal\<close> shows to be fatal, as the nodes keep all data in memory; that an answer stays
  on a majority also excludes restarts of followers (\<open>act_ok\<close>), since a restarted one has lost its part. A stream that
  a follower gave up may still bring acknowledgements that were sent on it. The methods of one client run one
  after the other. Of the command line: the JSON printer and the wording of errors, since only the
  values they show matter here; \<open>float64\<close> arithmetic for fractional durations is a parameter. The Python gateway
  is a program of its own in another language. Clocks are arguments, with one reading for each call of \<open>time.Now\<close>.
\<close>

end
